(* ===== verification/Prelude.thy ===== *)
theory Prelude
  imports Main "HOL-Library.Word" "HOL-Library.Monad_Syntax"
begin

text \<open>
  Shared vocabulary of the development: machine integers, addresses, raw memory
  buffers, C strings and the little-endian layout of integers in a byte vector.

  A computation that may hit undefined behaviour of C++ (a NULL or dangling
  dereference, an access outside an allocation, a read of uninitialised memory, a
  failed \<open>assert\<close>) or that may not return has an \<open>option\<close> result: \<open>None\<close> is
  exactly that outcome, and a theorem that an operation yields \<open>Some\<close> says that
  it runs to completion without any of these.  Errors the program itself reports
  are ordinary values (\<open>str_ret\<close>, \<open>ret_code\<close>, reply bytes).
\<close>

unbundle bit_operations_syntax

section \<open>Types\<close>

type_synonym u8 = "8 word"
type_synonym u32 = "32 word"
type_synonym u64 = "64 word"
type_synonym bytes = "u8 list"

text \<open>An address of a heap object; a pointer is \<open>addr option\<close> with \<open>None\<close> for NULL.\<close>

type_synonym addr = nat
type_synonym ptr = "addr option"

text \<open>A raw allocation: \<open>None\<close> is a byte that has not been initialised.\<close>

type_synonym cbuf = "u8 option list"

text \<open>An allocator: tells for a request of \<open>n\<close> bytes whether it succeeds.\<close>

type_synonym allocator = "nat \<Rightarrow> bool"

abbreviation always :: allocator where
  "always \<equiv> (\<lambda>_. True)"

named_theorems mem_simps \<open>evaluation of raw memory operations\<close>
named_theorems wf_intros \<open>preservation of well-formedness by the operations\<close>

section \<open>Unsigned 64-bit size arithmetic\<close>

text \<open>\<open>size_t\<close> addition, written out on \<open>nat\<close>.\<close>

definition szadd :: "nat \<Rightarrow> nat \<Rightarrow> nat" where
  "szadd a b = (a + b) mod 2 ^ 64"

lemma szadd_exact: "a + b < 2 ^ 64 \<Longrightarrow> szadd a b = a + b"
  by (simp add: szadd_def)

section \<open>Raw memory\<close>

text \<open>\<open>memcpy(buf + pos, bs, length bs)\<close>\<close>

definition mem_write :: "cbuf \<Rightarrow> nat \<Rightarrow> bytes \<Rightarrow> cbuf option" where
  "mem_write buf pos bs =
     (if pos + length bs \<le> length buf
      then Some (take pos buf @ map Some bs @ drop (pos + length bs) buf)
      else None)"

text \<open>Reading \<open>n\<close> bytes from \<open>pos\<close>: all of them must be inside and initialised.\<close>

definition mem_read :: "cbuf \<Rightarrow> nat \<Rightarrow> nat \<Rightarrow> bytes option" where
  "mem_read buf pos n =
     (if pos + n \<le> length buf then those (take n (drop pos buf)) else None)"

text \<open>\<open>realloc\<close> keeps the common prefix; new bytes are uninitialised.\<close>

definition mem_realloc :: "cbuf \<Rightarrow> nat \<Rightarrow> cbuf" where
  "mem_realloc buf n = take n buf @ replicate (n - length buf) None"

lemma length_mem_realloc [simp]: "length (mem_realloc buf n) = n"
  by (simp add: mem_realloc_def)

lemma take_mem_realloc [mem_simps]: "k \<le> n \<Longrightarrow> k \<le> length buf \<Longrightarrow> take k (mem_realloc buf n) = take k buf"
  by (simp add: mem_realloc_def min_def)

lemma mem_write_Some [mem_simps]:
  "pos + length bs \<le> length buf \<Longrightarrow>
   mem_write buf pos bs = Some (take pos buf @ map Some bs @ drop (pos + length bs) buf)"
  by (simp add: mem_write_def)

lemma mem_write_None: "mem_write buf pos bs = None \<longleftrightarrow> length buf < pos + length bs"
  by (auto simp: mem_write_def)

lemma length_mem_write: "mem_write buf pos bs = Some buf' \<Longrightarrow> length buf' = length buf"
  by (auto simp: mem_write_def split: if_splits)

lemma take_mem_write_before:
  "mem_write buf pos bs = Some buf' \<Longrightarrow> n \<le> pos \<Longrightarrow> take n buf' = take n buf"
  by (auto simp: mem_write_def split: if_splits)

lemma nth_mem_write:
  "mem_write buf pos bs = Some buf' \<Longrightarrow> i < length buf \<Longrightarrow>
   buf' ! i = (if pos \<le> i \<and> i < pos + length bs then Some (bs ! (i - pos)) else buf ! i)"
  by (auto simp: mem_write_def nth_append split: if_splits)

lemma replicate_numeral [mem_simps]: "replicate (numeral v) x = x # replicate (pred_numeral v) x"
  by (simp add: numeral_eq_Suc)

lemma those_map_Some [simp]: "those (map Some xs) = Some xs"
  by (induction xs) auto

section \<open>C strings\<close>

text \<open>The characters \<open>strcmp\<close> sees: everything before the first NUL byte.\<close>

definition cstr :: "bytes \<Rightarrow> bytes" where
  "cstr bs = takeWhile (\<lambda>b. b \<noteq> 0) bs"

lemma cstr_no_nul: "0 \<notin> set bs \<Longrightarrow> cstr bs = bs"
  by (auto simp: cstr_def takeWhile_eq_all_conv)

lemma cstr_cstr [simp]: "cstr (cstr bs) = cstr bs"
  by (simp add: cstr_def)

section \<open>Little-endian integers in byte vectors\<close>

definition le32 :: "u32 \<Rightarrow> bytes" where
  "le32 w = [ucast w, ucast (drop_bit 8 w), ucast (drop_bit 16 w), ucast (drop_bit 24 w)]"

definition of_le32 :: "bytes \<Rightarrow> u32" where
  "of_le32 bs = ucast (bs ! 0) OR push_bit 8 (ucast (bs ! 1))
     OR push_bit 16 (ucast (bs ! 2)) OR push_bit 24 (ucast (bs ! 3))"

lemma length_le32 [simp]: "length (le32 w) = 4"
  by (simp add: le32_def)

lemma of_le32_le32 [simp]: "of_le32 (le32 w @ rest) = w"
proof (rule bit_word_eqI)
  fix n
  assume "n < LENGTH(32)"
  then show "bit (of_le32 (le32 w @ rest)) n = bit w n"
    by (cases "24 \<le> n"; cases "16 \<le> n"; cases "8 \<le> n")
       (auto simp: of_le32_def le32_def bit_simps)
qed

end
