(* ===== verification/Dstr.thy ===== *)
theory Dstr
  imports Prelude
begin

text \<open>
  Dynamic strings (\<open>src/src/data_structures/dstr.cpp\<close>, \<open>dstr.h\<close>).

  \<open>struct dstr\<close> is a record of its two length fields and the flexible array
  \<open>buf\<close>, which is as long as the allocation behind it: \<open>malloc (sizeof (dstr) + n)\<close>
  leaves \<open>n\<close> bytes for \<open>buf\<close>.  A \<open>dstr**\<close> argument is passed in and its new target
  returned.  Every function takes the allocator as its first argument, so that the
  branches for a failed \<open>malloc\<close> and \<open>realloc\<close> are reachable.
\<close>

section \<open>Definitions\<close>

definition MAX_STR_PREALOC :: nat where
  "MAX_STR_PREALOC = 1048576"

definition MAX_STR_SIZE :: nat where
  "MAX_STR_SIZE = 1073741824"

datatype str_ret = STR_OK | STR_ERR_TOO_LARGE | STR_ERR_ALLOC_FAIL

record dstr =
  dsize :: nat
  dfree :: nat
  dbuf :: cbuf

text \<open>\<open>sizeof (dstr)\<close>: two \<open>size_t\<close> fields, the flexible array adds nothing.\<close>

definition sizeof_dstr :: nat where
  "sizeof_dstr = 16"

text \<open>A NULL result carries the value left in \<open>errno\<close>.\<close>

definition dstr_init :: "allocator \<Rightarrow> nat \<Rightarrow> str_ret + dstr" where
  "dstr_init mem len =
     (if len > MAX_STR_SIZE then Inl STR_ERR_TOO_LARGE
      else if \<not> mem (sizeof_dstr + len + 1) then Inl STR_ERR_ALLOC_FAIL
      else Inr \<lparr>dsize = 0, dfree = len, dbuf = (replicate (len + 1) None)[0 := Some 0]\<rparr>)"

definition dstr_cap :: "dstr \<Rightarrow> nat" where
  "dstr_cap str = dfree str + dsize str"

text \<open>The common tail of \<open>dstr_append\<close>: copy, adjust the fields, terminate.\<close>

definition dstr_append_tail :: "dstr \<Rightarrow> nat \<Rightarrow> bytes \<Rightarrow> nat \<Rightarrow> (str_ret \<times> dstr) option" where
  "dstr_append_tail str lpos toadd toadd_s = do {
     src \<leftarrow> (if toadd_s \<le> length toadd then Some (take toadd_s toadd) else None);
     buf \<leftarrow> mem_write (dbuf str) lpos src;
     buf \<leftarrow> mem_write buf (dsize str + toadd_s) [0];
     Some (STR_OK, str\<lparr>dsize := dsize str + toadd_s, dfree := dfree str - toadd_s, dbuf := buf\<rparr>)
   }"

definition dstr_append :: "allocator \<Rightarrow> dstr \<Rightarrow> bytes \<Rightarrow> nat \<Rightarrow> (str_ret \<times> dstr) option" where
  "dstr_append mem str toadd toadd_s =
     (if szadd toadd_s (dstr_cap str) > MAX_STR_SIZE then Some (STR_ERR_TOO_LARGE, str)
      else
        let lpos = dsize str in
        if dfree str < toadd_s then
          let newlen = dsize str + dfree str + toadd_s;
              incr = min MAX_STR_PREALOC newlen;
              newlen = newlen + incr;
              str = str\<lparr>dfree := newlen - dfree str\<rparr>
          in
          if \<not> mem (sizeof_dstr + newlen + 1) then Some (STR_ERR_ALLOC_FAIL, str)
          else dstr_append_tail (str\<lparr>dbuf := mem_realloc (dbuf str) (newlen + 1)\<rparr>) lpos toadd toadd_s
        else dstr_append_tail str lpos toadd toadd_s)"

definition dstr_assign :: "allocator \<Rightarrow> dstr \<Rightarrow> bytes \<Rightarrow> nat \<Rightarrow> (str_ret \<times> dstr) option" where
  "dstr_assign mem str toadd toadd_s =
     (case dstr_init mem (dstr_cap str) of
        Inl e \<Rightarrow> Some (e, str)
      | Inr tmp \<Rightarrow> do {
          (err, tmp) \<leftarrow> dstr_append mem tmp toadd toadd_s;
          if err \<noteq> STR_OK then Some (err, str) else Some (STR_OK, tmp)
        })"

definition dstr_resize :: "allocator \<Rightarrow> dstr \<Rightarrow> nat \<Rightarrow> u8 \<Rightarrow> (str_ret \<times> dstr) option" where
  "dstr_resize mem str len pad =
     (if len > MAX_STR_SIZE then Some (STR_ERR_TOO_LARGE, str)
      else
        let cap = dstr_cap str in
        if dsize str < len \<and> cap < len \<and> \<not> mem (sizeof_dstr + len + 1)
        then Some (STR_ERR_ALLOC_FAIL, str)
        else do {
          let (buf, cap) = (if dsize str < len \<and> cap < len
                            then (mem_realloc (dbuf str) (len + 1), len) else (dbuf str, cap));
          buf \<leftarrow> (if dsize str < len
                  then mem_write buf (dsize str) (replicate (len - dsize str) pad) else Some buf);
          buf \<leftarrow> mem_write buf len [0];
          Some (STR_OK, str\<lparr>dfree := cap - len, dsize := len, dbuf := buf\<rparr>)
        })"

text \<open>
  \<open>dstr_reserve\<close> asks \<open>realloc\<close> for \<open>size + add + 1\<close> bytes for the whole object, header
  included, and writes through the result unchecked: a failed request is a NULL
  dereference, and a block that does not even hold the header is overrun.
\<close>

definition dstr_reserve :: "allocator \<Rightarrow> dstr \<Rightarrow> nat \<Rightarrow> (str_ret \<times> dstr) option" where
  "dstr_reserve mem str add =
     (if szadd (dsize str) add > MAX_STR_SIZE then Some (STR_ERR_TOO_LARGE, str)
      else if dfree str \<ge> add then Some (STR_OK, str)
      else if \<not> mem (dsize str + add + 1) then None
      else if dsize str + add + 1 < sizeof_dstr then None
      else Some (STR_OK, str\<lparr>dfree := add,
                            dbuf := mem_realloc (dbuf str) (dsize str + add + 1 - sizeof_dstr)\<rparr>))"

text \<open>
  The three lines with which every caller copies a string it was handed:
  \<open>t = dstr_init (key->size); dstr_append (&t, key->buf, key->size)\<close>, the return value
  ignored.  \<open>dstr_append\<close> on the NULL of a failed \<open>dstr_init\<close> is a NULL dereference.
\<close>

definition dstr_copy :: "allocator \<Rightarrow> bytes \<Rightarrow> nat \<Rightarrow> dstr option" where
  "dstr_copy mem src len =
     (case dstr_init mem len of
        Inl _ \<Rightarrow> None
      | Inr t \<Rightarrow> map_option snd (dstr_append mem t src len))"

text \<open>The characters of a string, and what a string must satisfy to be usable.\<close>

definition dstr_bytes :: "dstr \<Rightarrow> bytes" where
  "dstr_bytes str = map the (take (dsize str) (dbuf str))"

definition wf_dstr :: "dstr \<Rightarrow> bool" where
  "wf_dstr str \<longleftrightarrow> dsize str + dfree str < length (dbuf str)
     \<and> None \<notin> set (take (dsize str) (dbuf str)) \<and> dbuf str ! dsize str = Some 0"

section \<open>Basic facts\<close>

lemmas dstr_defs = dstr_append_def dstr_append_tail_def dstr_cap_def Let_def

lemma length_dstr_bytes [simp]: "wf_dstr str \<Longrightarrow> length (dstr_bytes str) = dsize str"
  by (simp add: dstr_bytes_def wf_dstr_def)

lemma dstr_init_ok:
  "len \<le> MAX_STR_SIZE \<Longrightarrow> mem (sizeof_dstr + len + 1) \<Longrightarrow>
   dstr_init mem len = Inr \<lparr>dsize = 0, dfree = len, dbuf = (replicate (len + 1) None)[0 := Some 0]\<rparr>"
  by (simp add: dstr_init_def)

lemma wf_dstr_init [wf_intros]: "dstr_init mem len = Inr s \<Longrightarrow> wf_dstr s \<and> dstr_bytes s = [] \<and> dstr_cap s = len"
  by (auto simp: dstr_init_def wf_dstr_def dstr_bytes_def dstr_cap_def split: if_splits)

text \<open>Writing behind the current characters of a string and terminating it.\<close>

lemma write_tail:
  assumes "n + length src < length buf"
  shows "mem_write buf n src = Some (take n buf @ map Some src @ drop (n + length src) buf)"
    and "mem_write (take n buf @ map Some src @ drop (n + length src) buf) (n + length src) [0]
           = Some (take n buf @ map Some src @ Some 0 # drop (n + length src + 1) buf)"
  using assms by (auto simp: mem_write_def min_def drop_Suc)

lemma wf_written:
  assumes "n + length src < length buf" and "None \<notin> set (take n buf)"
    and "n + length src + f < length buf"
  shows "wf_dstr \<lparr>dsize = n + length src, dfree = f,
           dbuf = take n buf @ map Some src @ Some 0 # drop (n + length src + 1) buf\<rparr>"
  using assms by (auto simp: wf_dstr_def min_def nth_append)

lemma bytes_written:
  "n + length src < length buf \<Longrightarrow>
   dstr_bytes \<lparr>dsize = n + length src, dfree = f,
           dbuf = take n buf @ map Some src @ Some 0 # drop (n + length src + 1) buf\<rparr>
     = map the (take n buf) @ src"
  by (simp add: dstr_bytes_def min_def comp_def)

lemma dstr_append_tail_ok:
  assumes "length toadd = n" and "dsize s + n < length (dbuf s)"
  shows "dstr_append_tail s (dsize s) toadd n = Some (STR_OK,
     \<lparr>dsize = dsize s + n, dfree = dfree s - n,
      dbuf = take (dsize s) (dbuf s) @ map Some toadd @ Some 0 # drop (dsize s + n + 1) (dbuf s)\<rparr>)"
  using assms write_tail [of "dsize s" toadd "dbuf s"]
  by (cases s) (auto simp: dstr_append_tail_def)

lemma dstr_append_fits:
  assumes "wf_dstr s" and "length toadd = n" and "n + dstr_cap s \<le> MAX_STR_SIZE" and "n \<le> dfree s"
  shows "\<exists>s'. dstr_append mem s toadd n = Some (STR_OK, s') \<and> wf_dstr s'
     \<and> dstr_bytes s' = dstr_bytes s @ toadd \<and> dstr_cap s' = dstr_cap s"
  using assms wf_written [of "dsize s" toadd "dbuf s" "dfree s - n"]
    bytes_written [of "dsize s" toadd "dbuf s" "dfree s - n"]
  by (auto simp: dstr_append_def dstr_append_tail_ok szadd_def MAX_STR_SIZE_def wf_dstr_def [of s]
      dstr_cap_def dstr_bytes_def [of s])

lemma dstr_append_grows:
  assumes wf: "wf_dstr s" and n: "length toadd = n" and fits: "n + dstr_cap s \<le> MAX_STR_SIZE"
    and grow: "dfree s < n"
  shows "\<exists>s'. dstr_append always s toadd n = Some (STR_OK, s')
     \<and> dstr_bytes s' = dstr_bytes s @ toadd \<and> dsize s' < length (dbuf s')
     \<and> (wf_dstr s' \<longleftrightarrow> dsize s \<le> dfree s)"
proof -
  define newlen where "newlen = dsize s + dfree s + n + min MAX_STR_PREALOC (dsize s + dfree s + n)"
  define buf where "buf = mem_realloc (dbuf s) (newlen + 1)"
  define s' where "s' = \<lparr>dsize = dsize s + n, dfree = newlen - dfree s - n,
      dbuf = take (dsize s) buf @ map Some toadd @ Some 0 # drop (dsize s + n + 1) buf\<rparr>"
  have room: "dsize s + n < length buf" and len: "length buf = newlen + 1"
    by (auto simp: buf_def newlen_def)
  have old: "take (dsize s) buf = take (dsize s) (dbuf s)"
    using wf by (simp add: buf_def newlen_def take_mem_realloc wf_dstr_def)
  have "dstr_append always s toadd n = Some (STR_OK, s')"
    using fits grow n room dstr_append_tail_ok [of toadd n "s\<lparr>dfree := newlen - dfree s, dbuf := buf\<rparr>"]
    by (simp add: dstr_append_def szadd_def MAX_STR_SIZE_def dstr_cap_def Let_def newlen_def buf_def s'_def)
  moreover have "dstr_bytes s' = dstr_bytes s @ toadd"
    using bytes_written [of "dsize s" toadd buf] room n
    by (simp add: s'_def dstr_bytes_def [of s] old)
  moreover have "wf_dstr s' \<longleftrightarrow> dsize s \<le> dfree s"
    using wf n grow len old by (auto simp: wf_dstr_def s'_def newlen_def min_def nth_append)
  moreover have "dsize s' < length (dbuf s')"
    using room n by (simp add: s'_def min_def)
  ultimately show ?thesis by blast
qed

lemma dstr_copy_ok:
  assumes "length src = n" and "2 * n \<le> MAX_STR_SIZE"
  shows "\<exists>s. dstr_copy always src n = Some s \<and> wf_dstr s \<and> dstr_bytes s = src \<and> dstr_cap s = n"
proof -
  obtain t where t: "dstr_init always n = Inr t"
    using assms(2) by (simp add: dstr_init_def)
  then have "wf_dstr t" "dstr_bytes t = []" "dstr_cap t = n"
    using wf_dstr_init by auto
  moreover from this(1,2) have "dsize t = 0"
    by (metis length_dstr_bytes list.size(3))
  ultimately show ?thesis
    using dstr_append_fits [of t src n always] assms t by (auto simp: dstr_copy_def dstr_cap_def)
qed

lemma dstr_resize_shrinks:
  assumes wf: "wf_dstr s" and len: "len \<le> MAX_STR_SIZE" and shrink: "len \<le> dsize s"
  shows "\<exists>s'. dstr_resize always s len pad = Some (STR_OK, s') \<and> wf_dstr s'
     \<and> dstr_bytes s' = take len (dstr_bytes s) \<and> dstr_cap s' = dstr_cap s"
proof -
  from wf shrink obtain buf where buf: "mem_write (dbuf s) len [0] = Some buf"
    by (simp add: wf_dstr_def mem_write_def)
  let ?s = "s\<lparr>dfree := dstr_cap s - len, dsize := len, dbuf := buf\<rparr>"
  from shrink len buf have "dstr_resize always s len pad = Some (STR_OK, ?s)"
    by (simp add: dstr_resize_def Let_def)
  moreover have "take len buf = take len (take (dsize s) (dbuf s))"
    using take_mem_write_before [OF buf, of len] shrink by (simp add: min_def)
  then have "None \<notin> set (take len buf)" and "dstr_bytes ?s = take len (dstr_bytes s)"
    using wf set_take_subset [of len "take (dsize s) (dbuf s)"]
    by (auto simp: wf_dstr_def dstr_bytes_def take_map simp del: take_take)
  moreover have "wf_dstr ?s"
    using wf shrink length_mem_write [OF buf] nth_mem_write [OF buf, of len] calculation(2)
    by (auto simp: wf_dstr_def dstr_cap_def)
  moreover have "dstr_cap ?s = dstr_cap s"
    using shrink by (simp add: dstr_cap_def)
  ultimately show ?thesis by blast
qed

lemma dstr_resize_grows:
  assumes wf: "wf_dstr s" and len: "len \<le> MAX_STR_SIZE" and grow: "dsize s < len"
  shows "\<exists>s'. dstr_resize always s len pad = Some (STR_OK, s') \<and> wf_dstr s'
     \<and> dstr_bytes s' = dstr_bytes s @ replicate (len - dsize s) pad
     \<and> dstr_cap s' = max (dstr_cap s) len"
proof -
  define buf where "buf = (if dstr_cap s < len then mem_realloc (dbuf s) (len + 1) else dbuf s)"
  define n where "n = dsize s"
  define src where "src = replicate (len - n) pad"
  define s' where "s' = \<lparr>dsize = n + length src, dfree = max (dstr_cap s) len - len,
      dbuf = take n buf @ map Some src @ Some 0 # drop (n + length src + 1) buf\<rparr>"
  have len_src: "n + length src = len" and lt: "n < len"
    using grow by (auto simp: src_def n_def)
  have room: "len < length buf" "max (dstr_cap s) len < length buf"
    using wf by (auto simp: buf_def wf_dstr_def dstr_cap_def)
  have old: "take n buf = take (dsize s) (dbuf s)"
    using wf grow by (auto simp: buf_def n_def take_mem_realloc wf_dstr_def)
  have "dstr_resize always s len pad = do {
      b \<leftarrow> mem_write buf n src;
      b \<leftarrow> mem_write b len [0];
      Some (STR_OK, s\<lparr>dfree := max (dstr_cap s) len - len, dsize := len, dbuf := b\<rparr>)}"
    using len grow by (simp add: dstr_resize_def Let_def buf_def n_def src_def max_def)
  also have "\<dots> = Some (STR_OK, s')"
    using write_tail [of n src buf] room len_src by (simp add: s'_def)
  finally have "dstr_resize always s len pad = Some (STR_OK, s')" .
  moreover have "wf_dstr s'" "dstr_bytes s' = dstr_bytes s @ src"
    using wf_written [of n src buf] bytes_written [of n src buf] room wf len_src old
    by (auto simp: s'_def wf_dstr_def [of s] dstr_bytes_def [of s])
  moreover have "dstr_cap s' = max (dstr_cap s) len"
    using len_src by (simp add: s'_def dstr_cap_def)
  ultimately show ?thesis unfolding src_def n_def by blast
qed

lemma dstr_fill_ok:
  assumes "length toadd = n" and "n + m \<le> MAX_STR_SIZE" and "dstr_init always m = Inr t"
  shows "\<exists>s'. dstr_append always t toadd n = Some (STR_OK, s') \<and> wf_dstr s' \<and> dstr_bytes s' = toadd"
proof -
  have wf: "wf_dstr t" "dstr_bytes t = []" "dstr_cap t = m"
    using wf_dstr_init assms(3) by auto
  then have "dsize t = 0"
    by (metis length_dstr_bytes list.size(3))
  then show ?thesis
    using dstr_append_fits [OF wf(1) assms(1), of always] dstr_append_grows [OF wf(1) assms(1)] assms(2) wf
    by (cases "n \<le> dfree t") auto
qed

lemma dstr_assign_ok:
  assumes "length toadd = n" and "n + dstr_cap s \<le> MAX_STR_SIZE"
  shows "\<exists>s'. dstr_assign always s toadd n = Some (STR_OK, s') \<and> wf_dstr s' \<and> dstr_bytes s' = toadd"
proof -
  obtain t where t: "dstr_init always (dstr_cap s) = Inr t"
    using assms(2) by (simp add: dstr_init_def)
  from dstr_fill_ok [OF assms t] t show ?thesis by (auto simp: dstr_assign_def)
qed

section \<open>Properties\<close>

text \<open>C22: appending \<open>n\<close> bytes to a well-formed string that stays within the size limit always
  succeeds, appends exactly those bytes and stays inside the allocation; the
  capacity bookkeeping remains right unless the buffer had to grow while the string
  was longer than its free space, in which case (and only then) \<open>size + free\<close> exceeds
  what is allocated.\<close>

theorem dstr_append_spec:
  assumes "wf_dstr s" and "length toadd = n" and "n + dstr_cap s \<le> MAX_STR_SIZE"
  shows "\<exists>s'. dstr_append always s toadd n = Some (STR_OK, s')
     \<and> dstr_bytes s' = dstr_bytes s @ toadd
     \<and> (wf_dstr s' \<longleftrightarrow> n \<le> dfree s \<or> dsize s \<le> dfree s)"
  using dstr_append_fits [OF assms, of always] dstr_append_grows [OF assms]
  by (cases "n \<le> dfree s") auto

theorem dstr_append_spec_witness:
  "\<exists>s'. dstr_append always \<lparr>dsize = 1, dfree = 1, dbuf = [Some 97, Some 0, None]\<rparr> [98, 99] 2 = Some (STR_OK, s')
     \<and> dstr_bytes s' = [97, 98, 99] \<and> wf_dstr s'"
proof -
  let ?s = "\<lparr>dsize = 1, dfree = 1, dbuf = [Some 97, Some 0, None]\<rparr>"
  have "wf_dstr ?s" and "length [98, 99 :: u8] = 2" and "2 + dstr_cap ?s \<le> MAX_STR_SIZE"
    by (simp_all add: wf_dstr_def dstr_cap_def MAX_STR_SIZE_def)
  from dstr_append_spec [OF this] show ?thesis by (simp add: dstr_bytes_def)
qed

text \<open>C40: growing a string that is longer than its free space overstates the new free space, for every such string and
  every addition: the reported capacity reaches past the allocation.  Every following append that fits the reported free
  space but not the allocation, in particular one that uses up the reported space, writes outside the buffer.\<close>

theorem dstr_append_overflow:
  assumes long: "dfree s < dsize s" and n: "length xs = n" "dfree s < n" "n + dstr_cap s \<le> MAX_STR_SIZE"
  shows "\<exists>s1. dstr_append always s xs n = Some (STR_OK, s1) \<and> length (dbuf s1) \<le> dsize s1 + dfree s1
     \<and> (\<forall>ys m. length ys = m \<and> m \<le> dfree s1 \<and> m + dstr_cap s1 \<le> MAX_STR_SIZE \<and> length (dbuf s1) \<le> dsize s1 + m
          \<longrightarrow> dstr_append always s1 ys m = None)"
proof -
  define newlen where "newlen = dsize s + dfree s + n + min MAX_STR_PREALOC (dsize s + dfree s + n)"
  have le: "dsize s + dfree s + n \<le> newlen" by (simp add: newlen_def)
  let ?b = "mem_realloc (dbuf s) (newlen + 1)"
  have lb: "length ?b = newlen + 1" by (simp add: mem_realloc_def)
  obtain b where b: "mem_write ?b (dsize s) xs = Some b" "length b = newlen + 1"
    using lb le n(1) by (auto simp: mem_write_def)
  obtain b' where b': "mem_write b (dsize s + n) [0] = Some b'" "length b' = newlen + 1"
    using b(2) le by (auto simp: mem_write_def)
  let ?s = "s\<lparr>dfree := newlen - dfree s - n, dsize := dsize s + n, dbuf := b'\<rparr>"
  have "dstr_append always s xs n = Some (STR_OK, ?s)"
    using n b b' by (simp add: dstr_append_def dstr_append_tail_def szadd_def MAX_STR_SIZE_def newlen_def Let_def)
  moreover have "length (dbuf ?s) \<le> dsize ?s + dfree ?s" using le long b'(2) by simp
  moreover have "dstr_append always ?s ys m = None"
    if "length ys = m" "m \<le> dfree ?s" "m + dstr_cap ?s \<le> MAX_STR_SIZE" "length (dbuf ?s) \<le> dsize ?s + m" for ys m
    using that b'(2) by (simp add: dstr_append_def dstr_append_tail_def szadd_def MAX_STR_SIZE_def mem_write_def Let_def bind_eq_None_conv)
  ultimately show ?thesis by (intro exI [of _ ?s]) auto
qed

theorem dstr_append_overflow_witness:
  "\<exists>s1. dstr_append always \<lparr>dsize = 2, dfree = 1, dbuf = [Some 97, Some 98, Some 0, None]\<rparr> [99, 100] 2 = Some (STR_OK, s1)
     \<and> dfree s1 = 7 \<and> dstr_append always s1 [1, 2, 3, 4, 5, 6, 7] 7 = None"
proof -
  let ?s = "\<lparr>dsize = 2, dfree = 1, dbuf = [Some 97, Some 98, Some 0, None]\<rparr>"
  have s: "dfree ?s < dsize ?s" "length [99, 100 :: u8] = 2" "dfree ?s < 2" "2 + dstr_cap ?s \<le> MAX_STR_SIZE"
    by (simp_all add: dstr_cap_def MAX_STR_SIZE_def)
  let ?t = "\<lparr>dsize = 4, dfree = 7, dbuf = [Some 97, Some 98, Some 99, Some 100, Some 0, None, None, None, None, None, None]\<rparr>"
  have t: "dstr_append always ?s [99, 100] 2 = Some (STR_OK, ?t)"
    by (simp add: dstr_defs szadd_def MAX_STR_SIZE_def MAX_STR_PREALOC_def mem_realloc_def mem_write_def mem_simps)
  obtain s1 where s1: "dstr_append always ?s [99, 100] 2 = Some (STR_OK, s1)" "\<forall>ys m. length ys = m \<and> m \<le> dfree s1 \<and> m + dstr_cap s1 \<le> MAX_STR_SIZE
      \<and> length (dbuf s1) \<le> dsize s1 + m \<longrightarrow> dstr_append always s1 ys m = None" using dstr_append_overflow [OF s] by blast
  then have "s1 = ?t" using t by simp
  with s1(2) [rule_format, of "[1, 2, 3, 4, 5, 6, 7]" 7] have "dstr_append always s1 [1, 2, 3, 4, 5, 6, 7] 7 = None"
    by (simp add: dstr_cap_def MAX_STR_SIZE_def)
  with s1(1) \<open>s1 = ?t\<close> show ?thesis by auto
qed

text \<open>The copy idiom \<open>dstr_init (n); dstr_append (.., n)\<close> reproduces its source for every
  length up to half the size limit; between half the limit and the limit the
  rejected append is ignored by the callers and the copy is silently empty; above
  the limit it dereferences NULL.\<close>

lemma dstr_copy_spec:
  assumes "length src = n" and "2 * n < 2 ^ 64"
  shows "case dstr_copy always src n of
      None \<Rightarrow> MAX_STR_SIZE < n
    | Some s \<Rightarrow> n \<le> MAX_STR_SIZE \<and> wf_dstr s
        \<and> dstr_bytes s = (if 2 * n \<le> MAX_STR_SIZE then src else [])"
proof (cases "2 * n \<le> MAX_STR_SIZE")
  case True
  then show ?thesis using dstr_copy_ok [OF assms(1)] by (auto simp: dstr_cap_def)
next
  case False
  show ?thesis
  proof (cases "dstr_init always n")
    case (Inl e)
    then show ?thesis by (auto simp: dstr_copy_def dstr_init_def split: if_splits)
  next
    case (Inr t)
    then have "wf_dstr t" "dstr_bytes t = []" "dstr_cap t = n" "n \<le> MAX_STR_SIZE"
      using wf_dstr_init by (auto simp: dstr_init_def split: if_splits)
    then show ?thesis
      using False Inr assms by (simp add: dstr_copy_def dstr_append_def szadd_exact)
  qed
qed

lemma dstr_copy_spec_witness:
  "\<exists>s. dstr_copy always [104, 105] 2 = Some s \<and> wf_dstr s \<and> dstr_bytes s = [104, 105]"
proof -
  have "length [104, 105 :: u8] = 2" and "2 * 2 < (2 ^ 64 :: nat)"
    by simp_all
  from dstr_copy_spec [OF this] show ?thesis
    by (auto simp: MAX_STR_SIZE_def split: option.splits)
qed

text \<open>Resizing a well-formed string to any length within the limit succeeds, keeps the
  common prefix, pads with the given byte, keeps the capacity when it suffices and
  sets it to the new length otherwise, and leaves the string well-formed.\<close>

lemma dstr_resize_spec:
  assumes "wf_dstr s" and "len \<le> MAX_STR_SIZE"
  shows "\<exists>s'. dstr_resize always s len pad = Some (STR_OK, s') \<and> wf_dstr s'
     \<and> dstr_bytes s' = take len (dstr_bytes s) @ replicate (len - dsize s) pad
     \<and> dstr_cap s' = max (dstr_cap s) len"
proof (cases "len \<le> dsize s")
  case True
  with dstr_resize_shrinks [OF assms, of pad] show ?thesis
    by (auto simp: dstr_cap_def max_def)
next
  case False
  with dstr_resize_grows [OF assms, of pad] assms(1) show ?thesis
    by (auto simp: dstr_cap_def)
qed

lemma dstr_resize_spec_witness:
  "\<exists>s'. dstr_resize always \<lparr>dsize = 1, dfree = 1, dbuf = [Some 97, Some 0, None]\<rparr> 3 7 = Some (STR_OK, s')
     \<and> wf_dstr s' \<and> dstr_bytes s' = [97, 7, 7] \<and> dstr_cap s' = 3"
proof -
  let ?s = "\<lparr>dsize = 1, dfree = 1, dbuf = [Some 97, Some 0, None]\<rparr>"
  have "wf_dstr ?s" and "3 \<le> MAX_STR_SIZE"
    by (simp_all add: wf_dstr_def MAX_STR_SIZE_def)
  from dstr_resize_spec [OF this, of 7] show ?thesis
    by (simp add: dstr_bytes_def dstr_cap_def mem_simps numeral_eq_Suc)
qed

text \<open>Assignment replaces the contents and yields a well-formed string when the new text
  and the old capacity together stay within the limit; when it reports an error, under
  any allocator, the old string is untouched.\<close>

lemma dstr_assign_spec:
  assumes "wf_dstr s" and "length toadd = n"
  shows "(n + dstr_cap s \<le> MAX_STR_SIZE \<longrightarrow>
      (\<exists>s'. dstr_assign always s toadd n = Some (STR_OK, s') \<and> wf_dstr s' \<and> dstr_bytes s' = toadd))
    \<and> (dstr_assign mem s toadd n = Some (e, s') \<and> e \<noteq> STR_OK \<longrightarrow> s' = s)"
proof (intro conjI impI)
  assume "n + dstr_cap s \<le> MAX_STR_SIZE"
  then show "\<exists>s'. dstr_assign always s toadd n = Some (STR_OK, s') \<and> wf_dstr s' \<and> dstr_bytes s' = toadd"
    by (rule dstr_assign_ok [OF assms(2)])
next
  assume "dstr_assign mem s toadd n = Some (e, s') \<and> e \<noteq> STR_OK"
  then show "s' = s"
    by (auto simp: dstr_assign_def bind_eq_Some_conv split: sum.splits if_splits)
qed

lemma dstr_assign_spec_witness:
  "\<exists>s'. dstr_assign always \<lparr>dsize = 1, dfree = 1, dbuf = [Some 97, Some 0, None]\<rparr> [98, 99, 100] 3
          = Some (STR_OK, s') \<and> wf_dstr s' \<and> dstr_bytes s' = [98, 99, 100]"
proof -
  let ?s = "\<lparr>dsize = 1, dfree = 1, dbuf = [Some 97, Some 0, None]\<rparr>"
  have "wf_dstr ?s" and "length [98, 99, 100 :: u8] = 3"
    by (simp_all add: wf_dstr_def)
  from dstr_assign_spec [OF this] show ?thesis by (simp add: dstr_cap_def MAX_STR_SIZE_def)
qed

text \<open>Whenever \<open>dstr_reserve\<close> actually grows the string, the block it obtains is 16 bytes
  short of the capacity it records (or too small to hold the header at all), so the
  string it leaves behind is never well-formed.\<close>

lemma dstr_reserve_short:
  assumes "wf_dstr s" and "dfree s < add" and "dsize s + add \<le> MAX_STR_SIZE"
  shows "case dstr_reserve always s add of
      None \<Rightarrow> dsize s + add + 1 < sizeof_dstr
    | Some (r, s') \<Rightarrow> r = STR_OK \<and> dstr_cap s' = dsize s + add
        \<and> length (dbuf s') + 15 = dstr_cap s' \<and> \<not> wf_dstr s'"
  using assms by (auto simp: dstr_reserve_def szadd_def MAX_STR_SIZE_def sizeof_dstr_def
      dstr_cap_def wf_dstr_def)

lemma dstr_reserve_short_witness:
  "\<exists>s'. dstr_reserve always \<lparr>dsize = 1, dfree = 1, dbuf = [Some 97, Some 0, None]\<rparr> 20 = Some (STR_OK, s')
     \<and> dstr_cap s' = 21 \<and> length (dbuf s') = 6 \<and> \<not> wf_dstr s'"
proof -
  let ?s = "\<lparr>dsize = 1, dfree = 1, dbuf = [Some 97, Some 0, None]\<rparr>"
  have "wf_dstr ?s" and "dfree ?s < 20" and "dsize ?s + 20 \<le> MAX_STR_SIZE"
    by (simp_all add: wf_dstr_def MAX_STR_SIZE_def)
  from dstr_reserve_short [OF this] show ?thesis
    by (auto simp: sizeof_dstr_def split: option.splits)
qed

end
