(* ===== verification/Murmur.thy ===== *)
theory Murmur
  imports Prelude
begin

text \<open>
  The string hash of \<open>src/src/utils/common.h\<close>: \<open>murmurHash64A\<close> and \<open>str_hash\<close>, on
  64-bit words with wrapping multiplication.  The 8-byte loads of the block loop are
  little-endian (the loads through \<open>uint64_t*\<close> on the x86 targets of the project).
\<close>

section \<open>Definitions\<close>

definition murmur_m :: u64 where
  "murmur_m = 0xc6a4a7935bd1e995"

text \<open>A little-endian load of the given bytes.\<close>

fun of_le :: "bytes \<Rightarrow> u64" where
  "of_le [] = 0"
| "of_le (b # bs) = ucast b OR push_bit 8 (of_le bs)"

text \<open>\<open>h ^= h >> r\<close> with \<open>r = 47\<close>\<close>

definition xorshift :: "u64 \<Rightarrow> u64" where
  "xorshift h = h XOR drop_bit 47 h"

text \<open>The body of the block loop, for one 8-byte block \<open>k\<close>.\<close>

definition murmur_mix :: "u64 \<Rightarrow> u64 \<Rightarrow> u64" where
  "murmur_mix h k = (let k = k * murmur_m; k = xorshift k; k = k * murmur_m in (h XOR k) * murmur_m)"

fun murmur_blocks :: "u64 \<Rightarrow> bytes \<Rightarrow> nat \<Rightarrow> u64" where
  "murmur_blocks h bs 0 = h"
| "murmur_blocks h bs (Suc n) = murmur_blocks (murmur_mix h (of_le (take 8 bs))) (drop 8 bs) n"

text \<open>The fall-through switch over the last \<open>len & 7\<close> bytes, highest byte first.\<close>

definition murmur_tail :: "u64 \<Rightarrow> bytes \<Rightarrow> u64" where
  "murmur_tail h bs =
     (if bs = [] then h
      else fold (\<lambda>i h. h XOR push_bit (8 * i) (ucast (bs ! i))) (rev [0..<length bs]) h * murmur_m)"

definition murmurHash64A :: "bytes \<Rightarrow> nat \<Rightarrow> u64 \<Rightarrow> u64" where
  "murmurHash64A key len seed =
     (let h = seed XOR (of_nat len * murmur_m);
          h = murmur_blocks h key (len div 8);
          h = murmur_tail h (take (len mod 8) (drop (8 * (len div 8)) key));
          h = xorshift h; h = h * murmur_m; h = xorshift h
      in h)"

definition str_hash :: "bytes \<Rightarrow> u64" where
  "str_hash key = murmurHash64A key (length key) 0xadc83b19"

section \<open>The mixing steps lose no information\<close>

lemma xorshift_xorshift [simp]: "xorshift (xorshift h) = h"
proof (rule bit_word_eqI)
  fix n assume "n < LENGTH(64)"
  then show "bit (xorshift (xorshift h)) n = bit h n"
    by (auto simp: xorshift_def bit_simps)
qed

lemma xorshift_inject [simp]: "xorshift a = xorshift b \<longleftrightarrow> a = b"
  by (metis xorshift_xorshift)

lemma murmur_m_inverse: "murmur_m * 0x5f7a0ea7e59b19bd = 1"
  by (simp add: murmur_m_def)

lemma mult_murmur_m_inject [simp]: "a * murmur_m = b * murmur_m \<longleftrightarrow> a = b"
proof
  assume "a * murmur_m = b * murmur_m"
  then have "a * (murmur_m * 0x5f7a0ea7e59b19bd) = b * (murmur_m * 0x5f7a0ea7e59b19bd)"
    by (simp only: mult.assoc [symmetric])
  then show "a = b" by (simp only: murmur_m_inverse mult_1_right)
qed simp

lemma xor_left_inject [simp]: "(h XOR a :: u64) = h XOR b \<longleftrightarrow> a = b"
proof
  assume "h XOR a = h XOR b"
  then have "h XOR (h XOR a) = h XOR (h XOR b)" by simp
  then show "a = b" by (simp only: xor.assoc [symmetric] xor_self_eq xor.left_neutral)
qed simp

lemma murmur_mix_inject: "murmur_mix h a = murmur_mix h b \<longleftrightarrow> a = b"
  by (simp add: murmur_mix_def Let_def)

lemma u8_bit_less: "bit (b :: u8) n \<Longrightarrow> n < 8"
  using bit_imp_le_length [of b n] by simp

lemma bit_of_le: "bit (of_le bs) n \<longleftrightarrow> n < 64 \<and> n div 8 < length bs \<and> bit (bs ! (n div 8)) (n mod 8)"
proof (induction bs arbitrary: n)
  case (Cons b bs)
  show ?case
  proof (cases "n < 8")
    case False
    then obtain k where "n = 8 + k" by (metis le_Suc_ex not_less)
    then have "n div 8 = Suc (k div 8)" and "n mod 8 = k mod 8" and "\<not> bit b n"
      using u8_bit_less [of b n] by auto
    with Cons [of k] \<open>n = 8 + k\<close> show ?thesis by (auto simp: bit_simps)
  qed (use Cons in \<open>auto simp: bit_simps\<close>)
qed simp

lemma of_le_inject: "length as = length bs \<Longrightarrow> length bs \<le> 8 \<Longrightarrow> of_le as = of_le bs \<Longrightarrow> as = bs"
proof (rule nth_equalityI)
  fix i assume *: "length as = length bs" "length bs \<le> 8" "of_le as = of_le bs" "i < length as"
  show "as ! i = bs ! i"
  proof (rule bit_word_eqI)
    fix n assume "n < LENGTH(8)"
    with * show "bit (as ! i) n = bit (bs ! i) n"
      using bit_of_le [of as "8 * i + n"] bit_of_le [of bs "8 * i + n"] by simp
  qed
qed

lemma push_bit_of_le_Cons:
  "push_bit (8 * s) (of_le (b # bs)) = push_bit (8 * Suc s) (of_le bs) XOR push_bit (8 * s) (ucast b)"
proof (rule bit_word_eqI)
  fix n
  show "bit (push_bit (8 * s) (of_le (b # bs))) n
    = bit (push_bit (8 * Suc s) (of_le bs) XOR push_bit (8 * s) (ucast b)) n"
    using u8_bit_less [of b "n - 8 * s"] by (auto simp: bit_simps add.commute)
qed

lemma fold_tail_xor:
  "fold (\<lambda>i h. h XOR push_bit (8 * (i + s)) (ucast (bs ! i))) (rev [0..<length bs]) h
     = h XOR push_bit (8 * s) (of_le bs)"
proof (induction bs arbitrary: s h)
  case (Cons b bs)
  have "[0..<length (b # bs)] = 0 # map Suc [0..<length bs]"
    by (simp only: list.size upt_conv_Cons map_Suc_upt add_Suc_right add_0_right zero_less_Suc)
  then have "fold (\<lambda>i h. h XOR push_bit (8 * (i + s)) (ucast ((b # bs) ! i))) (rev [0..<length (b # bs)]) h
    = fold (\<lambda>i h. h XOR push_bit (8 * (i + Suc s)) (ucast (bs ! i))) (rev [0..<length bs]) h
        XOR push_bit (8 * s) (ucast b)"
    by (simp only: rev.simps rev_map fold_append fold_map comp_def) simp
  also have "\<dots> = h XOR push_bit (8 * s) (of_le (b # bs))"
    by (simp only: Cons push_bit_of_le_Cons xor.assoc)
  finally show ?case .
qed simp

lemma murmur_tail_eq: "bs \<noteq> [] \<Longrightarrow> murmur_tail h bs = (h XOR of_le bs) * murmur_m"
  using fold_tail_xor [of 0 bs h] by (simp add: murmur_tail_def)

section \<open>Properties\<close>

text \<open>Two different keys of the same length of at most eight bytes never have the same
  hash code, so in a bucket such keys are told apart by \<open>hcode\<close> alone.\<close>

lemma str_hash_short_injective:
  assumes "length k1 = length k2" and "length k2 \<le> 8" and "k1 \<noteq> k2"
  shows "str_hash k1 \<noteq> str_hash k2"
proof -
  consider "length k2 = 8" | "length k2 < 8" using assms(2) by linarith
  then show ?thesis
  proof cases
    case 1
    then show ?thesis
      using assms of_le_inject [of k1 k2]
      by (auto simp: str_hash_def murmurHash64A_def Let_def murmur_tail_def murmur_mix_inject)
  next
    case 2
    moreover have "k1 \<noteq> []" "k2 \<noteq> []" using assms by auto
    ultimately show ?thesis
      using assms of_le_inject [of k1 k2]
      by (auto simp: str_hash_def murmurHash64A_def Let_def murmur_tail_eq)
  qed
qed

lemma str_hash_short_injective_witness: "str_hash [102, 111, 111] \<noteq> str_hash [98, 97, 114]"
  by (rule str_hash_short_injective) simp_all

end
