(* ===== verification/Hashmap.thy ===== *)
theory Hashmap
  imports Dstr Murmur "HOL-Library.Multiset"
begin

text \<open>
  The incrementally rehashed hash map (\<open>src/src/data_structures/hashmap.cpp\<close>,
  \<open>hashmap.h\<close>).

  A bucket is the chain of nodes linked by \<open>next\<close>, as a list; a table is the array of
  its buckets (\<open>None\<close> when \<open>tab\<close> is NULL); a slot (\<open>HNode**\<close>) is a bucket number and a
  position in that bucket.  The map is polymorphic in what a node holds besides its
  hash code and key, because the same code stores database entries, hash fields, set
  members and the members of sorted sets; the two places where \<open>ht_unlink\<close> looks at the
  contents of a node are the fields of \<open>vops\<close>.  Sizes and masks are natural numbers:
  they count nodes and buckets in memory.
\<close>

section \<open>Definitions\<close>

definition MAX_LOAD_FACTOR :: nat where
  "MAX_LOAD_FACTOR = 8"

definition REHASHING_WORK :: nat where
  "REHASHING_WORK = 128"

definition LARGE_SIZE_TRESHOLD :: nat where
  "LARGE_SIZE_TRESHOLD = 1000"

record 'v hnode =
  hcode :: u64
  hkey :: dstr
  hval :: 'v

record 'v htab =
  tab :: "'v hnode list list option"
  hmask :: nat
  hsize :: nat

record 'v hmap =
  older :: "'v htab"
  newer :: "'v htab"
  migrate_pos :: nat

text \<open>The stack node \<open>HNode tmp\<close> that lookups and deletions are given: its hash code
  and its key pointer, which is NULL until a key has been stored in it.\<close>

record probe =
  pcode :: u64
  pkey :: "dstr option"

text \<open>What \<open>ht_unlink\<close> does with the contents of a node: \<open>vsize\<close> is \<open>hm_size\<close> of the
  container of a \<open>T_ZSET\<close> or \<open>T_HSET\<close> node and 0 for other types, \<open>vclear\<close> is
  \<open>hn_unlink_sync\<close>.\<close>

record 'v vops =
  vsize :: "'v \<Rightarrow> nat"
  vclear :: "'v \<Rightarrow> 'v"

definition empty_htab :: "'v htab" where
  "empty_htab = \<lparr>tab = None, hmask = 0, hsize = 0\<rparr>"

definition empty_hmap :: "'v hmap" where
  "empty_hmap = \<lparr>older = empty_htab, newer = empty_htab, migrate_pos = 0\<rparr>"

definition h_init :: "nat \<Rightarrow> 'v htab option" where
  "h_init n = (if n > 0 \<and> ((n - 1) AND n) = 0
     then Some \<lparr>tab = Some (replicate n []), hmask = n - 1, hsize = 0\<rparr> else None)"

definition hm_rehash :: "'v hmap \<Rightarrow> 'v hmap option" where
  "hm_rehash hm = do {
     t \<leftarrow> h_init (2 * (hmask (newer hm) + 1));
     Some (hm\<lparr>older := newer hm, newer := t, migrate_pos := 0\<rparr>)
   }"

definition bucket :: "u64 \<Rightarrow> nat \<Rightarrow> nat" where
  "bucket hc m = unat hc AND m"

definition strcmp_eq :: "dstr \<Rightarrow> dstr \<Rightarrow> bool" where
  "strcmp_eq a b \<longleftrightarrow> cstr (dstr_bytes a) = cstr (dstr_bytes b)"

text \<open>The walk along a chain: \<open>strcmp\<close> is reached only where the hash codes agree, and a
  NULL key is dereferenced there.\<close>

fun chain_find :: "'v hnode list \<Rightarrow> probe \<Rightarrow> nat \<Rightarrow> nat option option" where
  "chain_find [] p i = Some None"
| "chain_find (n # ns) p i =
     (if hcode n = pcode p then
        (case pkey p of
           None \<Rightarrow> None
         | Some k \<Rightarrow> if strcmp_eq k (hkey n) then Some (Some i) else chain_find ns p (Suc i))
      else chain_find ns p (Suc i))"

definition ht_lookup :: "'v htab \<Rightarrow> probe \<Rightarrow> (nat \<times> nat) option option" where
  "ht_lookup t p =
     (case tab t of
        None \<Rightarrow> Some None
      | Some tb \<Rightarrow>
          let pos = bucket (pcode p) (hmask t) in
          if pos < length tb
          then map_option (map_option (Pair pos)) (chain_find (tb ! pos) p 0) else None)"

definition slot_node :: "'v htab \<Rightarrow> nat \<times> nat \<Rightarrow> 'v hnode option" where
  "slot_node t s =
     (case tab t of
        Some tb \<Rightarrow> if fst s < length tb \<and> snd s < length (tb ! fst s)
                   then Some (tb ! fst s ! snd s) else None
      | None \<Rightarrow> None)"

text \<open>The node as \<open>ht_unlink\<close> leaves it, and whether its clean-up is queued instead.\<close>

definition hn_unlink :: "'v vops \<Rightarrow> 'v hnode \<Rightarrow> 'v hnode \<times> 'v hnode list" where
  "hn_unlink ops n =
     (if vsize ops (hval n) \<ge> LARGE_SIZE_TRESHOLD then (n, [n])
      else (n\<lparr>hval := vclear ops (hval n)\<rparr>, []))"

definition ht_unlink :: "'v vops \<Rightarrow> 'v htab \<Rightarrow> nat \<times> nat \<Rightarrow> ('v htab \<times> 'v hnode option \<times> 'v hnode list)" where
  "ht_unlink ops t s =
     (case slot_node t s of
        None \<Rightarrow> (t, None, [])
      | Some n \<Rightarrow>
          let chain = the (tab t) ! fst s;
              tb = (the (tab t))[fst s := take (snd s) chain @ drop (Suc (snd s)) chain];
              (n, q) = hn_unlink ops n
          in (t\<lparr>tab := Some tb, hsize := hsize t - 1\<rparr>, Some n, q))"

definition ht_insert :: "'v htab \<Rightarrow> 'v hnode \<Rightarrow> 'v htab option" where
  "ht_insert t n = do {
     tb \<leftarrow> tab t;
     let pos = bucket (hcode n) (hmask t);
     if pos < length tb
     then Some (t\<lparr>tab := Some (tb[pos := n # tb ! pos]), hsize := hsize t + 1\<rparr>) else None
   }"

function rehash_loop :: "'v vops \<Rightarrow> nat \<Rightarrow> 'v hmap \<Rightarrow> 'v hnode list \<Rightarrow> ('v hmap \<times> 'v hnode list) option" where
  "rehash_loop ops nwork hm q =
     (if nwork < REHASHING_WORK \<and> hsize (older hm) > 0 then
        (case tab (older hm) of
           None \<Rightarrow> None
         | Some tb \<Rightarrow>
             if migrate_pos hm < length tb then
               (if tb ! migrate_pos hm = []
                then rehash_loop ops nwork (hm\<lparr>migrate_pos := migrate_pos hm + 1\<rparr>) q
                else (case ht_unlink ops (older hm) (migrate_pos hm, 0) of
                        (_, None, _) \<Rightarrow> None
                      | (old, Some n, q') \<Rightarrow>
                          (case ht_insert (newer hm) n of
                             None \<Rightarrow> None
                           | Some new \<Rightarrow>
                               rehash_loop ops (nwork + 1) (hm\<lparr>older := old, newer := new\<rparr>) (q @ q'))))
             else None)
      else Some (hm, q))"
  by pat_completeness auto
termination
  by (relation "measures [\<lambda>(_, nwork, _, _). REHASHING_WORK - nwork,
        \<lambda>(_, _, hm, _). (case tab (older hm) of None \<Rightarrow> 0 | Some tb \<Rightarrow> length tb - migrate_pos hm)]")
     auto

definition hm_rehash_help :: "'v vops \<Rightarrow> 'v hmap \<Rightarrow> ('v hmap \<times> 'v hnode list) option" where
  "hm_rehash_help ops hm = do {
     (hm, q) \<leftarrow> rehash_loop ops 0 hm [];
     Some (if tab (older hm) \<noteq> None \<and> hsize (older hm) = 0
           then hm\<lparr>older := empty_htab\<rparr> else hm, q)
   }"

text \<open>\<open>h_foreach\<close> with the only callback the program has: collecting the keys.\<close>

definition h_foreach :: "'v htab \<Rightarrow> dstr list option" where
  "h_foreach t =
     (case tab t of
        None \<Rightarrow> Some []
      | Some tb \<Rightarrow> if hmask t < length tb
                   then Some (concat (map (\<lambda>i. map hkey (tb ! i)) [0..<hmask t + 1])) else None)"

definition hm_lookup :: "'v hmap \<Rightarrow> probe \<Rightarrow> 'v hnode option option" where
  "hm_lookup hm p = do {
     s \<leftarrow> ht_lookup (older hm) p;
     case s of
       Some sl \<Rightarrow> Some (slot_node (older hm) sl)
     | None \<Rightarrow> do {
         s \<leftarrow> ht_lookup (newer hm) p;
         case s of Some sl \<Rightarrow> Some (slot_node (newer hm) sl) | None \<Rightarrow> Some None
       }
   }"

text \<open>The result says whether a node was deleted, which one (the caller frees it where the
  code passes \<open>do_free\<close>), and what clean-up was handed to the thread pool.\<close>

definition hm_delete :: "'v vops \<Rightarrow> 'v hmap \<Rightarrow> probe \<Rightarrow> ('v hmap \<times> 'v hnode option \<times> 'v hnode list) option" where
  "hm_delete ops hm p = do {
     s \<leftarrow> ht_lookup (older hm) p;
     case s of
       Some sl \<Rightarrow> (case ht_unlink ops (older hm) sl of (t, n, q) \<Rightarrow> Some (hm\<lparr>older := t\<rparr>, n, q))
     | None \<Rightarrow> do {
         s \<leftarrow> ht_lookup (newer hm) p;
         case s of
           Some sl \<Rightarrow> (case ht_unlink ops (newer hm) sl of (t, n, q) \<Rightarrow> Some (hm\<lparr>newer := t\<rparr>, n, q))
         | None \<Rightarrow> Some (hm, None, [])
       }
   }"

definition hm_insert :: "'v vops \<Rightarrow> 'v hmap \<Rightarrow> 'v hnode \<Rightarrow> ('v hmap \<times> 'v hnode list) option" where
  "hm_insert ops hm n = do {
     new \<leftarrow> (if tab (newer hm) = None then h_init 4 else Some (newer hm));
     new \<leftarrow> ht_insert new n;
     let hm = hm\<lparr>newer := new\<rparr>;
     hm \<leftarrow> (if tab (older hm) = None \<and> hsize (newer hm) \<ge> (hmask (newer hm) + 1) * MAX_LOAD_FACTOR
            then hm_rehash hm else Some hm);
     hm_rehash_help ops hm
   }"

definition hm_clear :: "'v hmap \<Rightarrow> 'v hmap" where
  "hm_clear hm = empty_hmap"

definition hm_size :: "'v hmap \<Rightarrow> nat" where
  "hm_size hm = hsize (newer hm) + hsize (older hm)"

definition hm_keys :: "'v hmap \<Rightarrow> dstr list option" where
  "hm_keys hm = do {
     ks \<leftarrow> h_foreach (newer hm);
     ks' \<leftarrow> h_foreach (older hm);
     Some (ks @ ks')
   }"

text \<open>The probe callers build for a key: the copy of the key and the hash of the original.\<close>

definition mk_probe :: "dstr \<Rightarrow> probe option" where
  "mk_probe key = do {
     k \<leftarrow> dstr_copy always (dstr_bytes key) (dsize key);
     Some \<lparr>pcode = str_hash (dstr_bytes key), pkey = Some k\<rparr>
   }"

text \<open>Contents that need no clean-up: hash fields, set members, sorted-set members, all
  of type \<open>T_STR\<close>.\<close>

definition plain_ops :: "'v vops" where
  "plain_ops = \<lparr>vsize = (\<lambda>_. 0), vclear = id\<rparr>"

section \<open>Invariant and abstraction\<close>

definition ht_nodes :: "'v htab \<Rightarrow> 'v hnode list" where
  "ht_nodes t = (case tab t of None \<Rightarrow> [] | Some tb \<Rightarrow> concat tb)"

definition hm_nodes :: "'v hmap \<Rightarrow> 'v hnode list" where
  "hm_nodes hm = ht_nodes (older hm) @ ht_nodes (newer hm)"

definition is_pow2 :: "nat \<Rightarrow> bool" where
  "is_pow2 n \<longleftrightarrow> n > 0 \<and> ((n - 1) AND n) = 0"

definition ht_inv :: "'v htab \<Rightarrow> bool" where
  "ht_inv t \<longleftrightarrow> hsize t = length (ht_nodes t) \<and>
     (case tab t of
        None \<Rightarrow> hmask t = 0
      | Some tb \<Rightarrow> length tb = hmask t + 1 \<and> is_pow2 (length tb)
          \<and> (\<forall>b < length tb. \<forall>n \<in> set (tb ! b). bucket (hcode n) (hmask t) = b))"

definition hm_inv :: "'v hmap \<Rightarrow> bool" where
  "hm_inv hm \<longleftrightarrow> ht_inv (older hm) \<and> ht_inv (newer hm) \<and>
     (case tab (older hm) of
        None \<Rightarrow> True
      | Some tb \<Rightarrow> tab (newer hm) \<noteq> None \<and> (\<forall>b < migrate_pos hm. b < length tb \<longrightarrow> tb ! b = []))"

text \<open>What a lookup compares: the hash code and the NUL-terminated text of the key.\<close>

definition nkey :: "'v hnode \<Rightarrow> u64 \<times> bytes" where
  "nkey n = (hcode n, cstr (dstr_bytes (hkey n)))"

definition matches :: "u64 \<times> bytes \<Rightarrow> 'v hnode \<Rightarrow> bool" where
  "matches k n \<longleftrightarrow> nkey n = k"

definition pkeyof :: "probe \<Rightarrow> u64 \<times> bytes" where
  "pkeyof p = (pcode p, case pkey p of None \<Rightarrow> [] | Some k \<Rightarrow> cstr (dstr_bytes k))"

text \<open>The node as \<open>ht_unlink\<close> hands it on.\<close>

definition touched :: "'v vops \<Rightarrow> 'v hnode \<Rightarrow> 'v hnode" where
  "touched ops n = fst (hn_unlink ops n)"

section \<open>Tables\<close>

declare rehash_loop.simps [simp del]

lemma and_nat_le_right: "(a AND b :: nat) \<le> b"
proof -
  have "int (a AND b) = int a AND int b" by (simp add: of_nat_and_eq)
  also have "\<dots> \<le> int b" by (rule AND_upper2) simp
  finally show ?thesis by simp
qed

lemma is_pow2_double: "is_pow2 n \<Longrightarrow> is_pow2 (2 * n)"
proof -
  assume n: "is_pow2 n"
  then obtain k where k: "n = Suc k" by (cases n) (auto simp: is_pow2_def)
  have "(2 * n - 1) AND (2 * n) = 2 * (k AND n)"
    by (simp add: k and_rec [of "Suc (2 * k)"])
  with n k show ?thesis by (simp add: is_pow2_def)
qed

lemma bucket_less: "bucket hc m < m + 1"
  using and_nat_le_right [of "unat hc" m] by (simp add: bucket_def)

lemma chain_find_spec:
  assumes "pkey p = Some k"
  shows "(case chain_find ns p i of
      None \<Rightarrow> False
    | Some None \<Rightarrow> (\<forall>n \<in> set ns. \<not> matches (pkeyof p) n)
    | Some (Some j) \<Rightarrow> i \<le> j \<and> j - i < length ns \<and> matches (pkeyof p) (ns ! (j - i))
        \<and> (\<forall>n \<in> set (take (j - i) ns). \<not> matches (pkeyof p) n))"
proof (induction ns arbitrary: i)
  case (Cons n ns)
  show ?case
    using Cons [of "Suc i"] assms
    by (auto simp: matches_def nkey_def pkeyof_def strcmp_eq_def Suc_diff_le nth_Cons' take_Cons'
        split: option.splits)
qed simp

lemma find_append: "find P (xs @ ys) = (case find P xs of None \<Rightarrow> find P ys | Some x \<Rightarrow> Some x)"
  by (induction xs) auto

lemma find_take_nth: "j < length xs \<Longrightarrow> P (xs ! j) \<Longrightarrow> (\<forall>x \<in> set (take j xs). \<not> P x) \<Longrightarrow> find P xs = Some (xs ! j)"
  by (induction xs arbitrary: j) (auto simp: nth_Cons' take_Cons' split: if_splits)

lemma find_concat_bucket:
  assumes "b < length tb" and "\<And>b' n. b' < length tb \<Longrightarrow> n \<in> set (tb ! b') \<Longrightarrow> P n \<Longrightarrow> b' = b"
  shows "find P (concat tb) = find P (tb ! b)"
proof -
  have "\<not> P n" if "n \<in> set (concat (take b tb)) \<or> n \<in> set (concat (drop (Suc b) tb))" for n
  proof -
    from that consider i where "i < b" "n \<in> set (tb ! i)"
      | i where "Suc (b + i) < length tb" "n \<in> set (tb ! Suc (b + i))"
      by (auto simp: set_conv_nth [of "take b tb"] set_conv_nth [of "drop (Suc b) tb"] less_diff_conv add.commute)
    then show ?thesis using assms(1) assms(2) [of _ n] by cases (metis less_trans nat_neq_iff not_add_less1 lessI Suc_lessD less_irrefl_nat add_Suc_right)+
  qed
  then have "find P (concat (take b tb)) = None" "find P (concat (drop (Suc b) tb)) = None"
    unfolding find_None_iff by blast+
  then have "find P (concat (take b tb) @ tb ! b @ concat (drop (Suc b) tb)) = find P (tb ! b)"
    by (simp add: find_append split: option.splits)
  then show ?thesis
    using id_take_nth_drop [OF assms(1)] by (metis concat.simps(2) concat_append)
qed

lemma find_bucket:
  assumes "ht_inv t" and "tab t = Some tb"
  shows "find (matches k) (ht_nodes t) = find (matches k) (tb ! bucket (fst k) (hmask t))"
    and "bucket (fst k) (hmask t) < length tb"
proof -
  show b: "bucket (fst k) (hmask t) < length tb"
    using assms bucket_less [of "fst k" "hmask t"] by (simp add: ht_inv_def)
  show "find (matches k) (ht_nodes t) = find (matches k) (tb ! bucket (fst k) (hmask t))"
    using assms b unfolding ht_nodes_def
    by (auto simp: ht_inv_def matches_def nkey_def intro!: find_concat_bucket)
qed

lemma ht_lookup_spec:
  assumes inv: "ht_inv t" and key: "pkey p = Some k"
  shows "case ht_lookup t p of
      None \<Rightarrow> False
    | Some None \<Rightarrow> find (matches (pkeyof p)) (ht_nodes t) = None
    | Some (Some s) \<Rightarrow> \<exists>n. slot_node t s = Some n \<and> find (matches (pkeyof p)) (ht_nodes t) = Some n"
proof (cases "tab t")
  case None
  then show ?thesis by (simp add: ht_lookup_def ht_nodes_def)
next
  case (Some tb)
  let ?b = "bucket (pcode p) (hmask t)"
  have fst: "fst (pkeyof p) = pcode p" by (simp add: pkeyof_def)
  note fb = find_bucket [OF inv Some, of "pkeyof p", unfolded fst]
  show ?thesis
    using chain_find_spec [OF key, of "tb ! ?b" 0] fb find_take_nth [of _ "tb ! ?b" "matches (pkeyof p)"] Some
    by (auto simp: ht_lookup_def Let_def slot_node_def find_None_iff split: option.splits)
qed

lemma hm_lookup_find:
  assumes "hm_inv hm" and "pkey p = Some k"
  shows "hm_lookup hm p = Some (find (matches (pkeyof p)) (hm_nodes hm))"
  using ht_lookup_spec [of "older hm" p k] ht_lookup_spec [of "newer hm" p k] assms
  by (auto simp: hm_lookup_def hm_inv_def hm_nodes_def find_append split: option.splits)

lemma concat_update:
  "b < length tb \<Longrightarrow> mset (concat (tb[b := c])) + mset (tb ! b) = mset (concat tb) + mset c"
proof -
  assume b: "b < length tb"
  have "concat (tb[b := c]) = concat (take b tb) @ c @ concat (drop (Suc b) tb)"
    using b by (simp add: upd_conv_take_nth_drop)
  moreover have "concat tb = concat (take b tb) @ tb ! b @ concat (drop (Suc b) tb)"
    using id_take_nth_drop [OF b] by (metis concat.simps(2) concat_append)
  ultimately show ?thesis by simp
qed

lemma mset_take_drop_nth: "i < length xs \<Longrightarrow> mset xs = add_mset (xs ! i) (mset (take i xs @ drop (Suc i) xs))"
  using id_take_nth_drop [of i xs] by (metis mset_append mset.simps(2) union_mset_add_mset_right)

lemma touched_simps [simp]: "hcode (touched ops n) = hcode n" "hkey (touched ops n) = hkey n"
    "nkey (touched ops n) = nkey n"
  by (auto simp: touched_def hn_unlink_def nkey_def)

lemma touched_plain [simp]: "touched plain_ops n = n"
  by (simp add: touched_def hn_unlink_def plain_ops_def LARGE_SIZE_TRESHOLD_def)

lemma ht_inv_update:
  assumes "ht_inv t" and "tab t = Some tb" and "b < length tb"
    and "\<And>n. n \<in> set c \<Longrightarrow> bucket (hcode n) (hmask t) = b" and "sz = length (concat (tb[b := c]))"
  shows "ht_inv (t\<lparr>tab := Some (tb[b := c]), hsize := sz\<rparr>)"
proof -
  have "bucket (hcode n) (hmask t) = b'" if "b' < length tb" "n \<in> set (tb[b := c] ! b')" for b' n
    using assms that by (cases "b' = b") (auto simp: ht_inv_def)
  then show ?thesis using assms by (auto simp: ht_inv_def ht_nodes_def)
qed

lemma ht_insert_spec:
  assumes inv: "ht_inv t" and tab: "tab t \<noteq> None"
  shows "\<exists>t'. ht_insert t n = Some t' \<and> ht_inv t' \<and> mset (ht_nodes t') = add_mset n (mset (ht_nodes t))
    \<and> tab t' \<noteq> None \<and> hmask t' = hmask t \<and> hsize t' = hsize t + 1"
proof -
  obtain tb where tb: "tab t = Some tb" using tab by auto
  let ?b = "bucket (hcode n) (hmask t)"
  let ?t = "t\<lparr>tab := Some (tb[?b := n # tb ! ?b]), hsize := hsize t + 1\<rparr>"
  have b: "?b < length tb"
    using inv tb bucket_less [of "hcode n" "hmask t"] by (simp add: ht_inv_def)
  have nodes: "mset (ht_nodes ?t) = add_mset n (mset (ht_nodes t))"
    using concat_update [OF b, of "n # tb ! ?b"] tb by (simp add: ht_nodes_def)
  then have "size (mset (ht_nodes ?t)) = size (mset (ht_nodes t)) + 1" by simp
  then have "ht_inv ?t"
    using inv tb b by (intro ht_inv_update) (auto simp: ht_inv_def ht_nodes_def)
  with nodes b tb show ?thesis by (auto simp: ht_insert_def Let_def)
qed

lemma ht_unlink_spec:
  assumes inv: "ht_inv t" and slot: "slot_node t s = Some n"
  shows "\<exists>t' q. ht_unlink ops t s = (t', Some (touched ops n), q) \<and> ht_inv t'
    \<and> mset (ht_nodes t) = add_mset n (mset (ht_nodes t')) \<and> hmask t' = hmask t
    \<and> hsize t = hsize t' + 1 \<and> q = snd (hn_unlink ops n)
    \<and> tab t' = Some ((the (tab t))[fst s := take (snd s) (the (tab t) ! fst s)
                                    @ drop (Suc (snd s)) (the (tab t) ! fst s)])"
proof -
  obtain tb b i where tb: "tab t = Some tb" and s: "s = (b, i)" and b: "b < length tb"
    and i: "i < length (tb ! b)" and n: "n = tb ! b ! i"
    using slot by (cases s) (auto simp: slot_node_def split: option.splits if_splits)
  let ?c = "take i (tb ! b) @ drop (Suc i) (tb ! b)"
  let ?t = "t\<lparr>tab := Some (tb[b := ?c]), hsize := hsize t - 1\<rparr>"
  have nodes: "mset (ht_nodes t) = add_mset n (mset (ht_nodes ?t))"
    using concat_update [OF b, of ?c] mset_take_drop_nth [OF i] tb n by (simp add: ht_nodes_def)
  then have "size (mset (ht_nodes t)) = size (mset (ht_nodes ?t)) + 1" by simp
  then have len: "hsize t = length (ht_nodes ?t) + 1" using inv by (simp add: ht_inv_def)
  have "set ?c \<subseteq> set (tb ! b)" by (auto dest: in_set_takeD in_set_dropD)
  then have "ht_inv ?t"
    using inv tb len b by (intro ht_inv_update) (auto simp: ht_inv_def ht_nodes_def)
  with nodes len slot tb s n b i show ?thesis
    by (auto simp: ht_unlink_def Let_def touched_def split: prod.splits)
qed
section \<open>Operations of the map\<close>

lemma migrate_pos_in_range:
  assumes "hm_inv hm" and "tab (older hm) = Some tb" and "hsize (older hm) > 0"
  shows "migrate_pos hm < length tb"
proof (rule ccontr)
  assume "\<not> migrate_pos hm < length tb"
  with assms have "\<forall>b < length tb. tb ! b = []" by (auto simp: hm_inv_def)
  then have "concat tb = []" by (auto simp: in_set_conv_nth)
  with assms show False by (simp add: hm_inv_def ht_inv_def ht_nodes_def)
qed

lemma hm_inv_skip:
  assumes "hm_inv hm" and "tab (older hm) = Some tb" and "tb ! migrate_pos hm = []"
  shows "hm_inv (hm\<lparr>migrate_pos := migrate_pos hm + 1\<rparr>)"
  using assms by (auto simp: hm_inv_def less_Suc_eq)

lemma rehash_loop_spec:
  "hm_inv hm \<Longrightarrow> \<exists>hm' q' A. rehash_loop ops nwork hm q = Some (hm', q @ q') \<and> hm_inv hm'
     \<and> mset (ht_nodes (older hm)) = A + mset (ht_nodes (older hm'))
     \<and> mset (ht_nodes (newer hm')) = image_mset (touched ops) A + mset (ht_nodes (newer hm))
     \<and> size A = min (REHASHING_WORK - nwork) (hsize (older hm))
     \<and> hmask (newer hm') = hmask (newer hm) \<and> (\<forall>x \<in> set q'. vsize ops (hval x) \<ge> LARGE_SIZE_TRESHOLD)"
proof (induction ops nwork hm q rule: rehash_loop.induct)
  case (1 ops nwork hm q)
  note inv = "1.prems"
  show ?case
  proof (cases "nwork < REHASHING_WORK \<and> hsize (older hm) > 0")
    case False
    then show ?thesis
      using inv by (subst rehash_loop.simps) (auto intro!: exI [where x = "{#}"])
  next
    case True
    then obtain tb where tb: "tab (older hm) = Some tb"
      using inv by (cases "tab (older hm)") (auto simp: hm_inv_def ht_inv_def ht_nodes_def)
    have pos: "migrate_pos hm < length tb"
      using migrate_pos_in_range [OF inv tb] True by simp
    show ?thesis
    proof (cases "tb ! migrate_pos hm = []")
      case empty: True
      from "1.IH"(1) [OF True tb pos empty hm_inv_skip [OF inv tb empty]] show ?thesis
        using True tb pos empty by (subst rehash_loop.simps) simp
    next
      case full: False
      let ?s = "(migrate_pos hm, 0)"
      let ?n = "tb ! migrate_pos hm ! 0"
      have slot: "slot_node (older hm) ?s = Some ?n"
        using tb pos full by (simp add: slot_node_def)
      have oinv: "ht_inv (older hm)" and ninv: "ht_inv (newer hm)" and ntab: "tab (newer hm) \<noteq> None"
        using inv tb by (auto simp: hm_inv_def)
      from ht_unlink_spec [OF oinv slot, of ops] obtain old q1 where
        old: "ht_unlink ops (older hm) ?s = (old, Some (touched ops ?n), q1)" "ht_inv old"
          "mset (ht_nodes (older hm)) = add_mset ?n (mset (ht_nodes old))" "hsize (older hm) = hsize old + 1"
          "tab old = Some (tb[migrate_pos hm := drop 1 (tb ! migrate_pos hm)])"
          "\<forall>x \<in> set q1. vsize ops (hval x) \<ge> LARGE_SIZE_TRESHOLD"
        using tb by (auto simp: hn_unlink_def split: if_splits)
      from ht_insert_spec [OF ninv ntab, of "touched ops ?n"] obtain new where
        new: "ht_insert (newer hm) (touched ops ?n) = Some new" "ht_inv new" "tab new \<noteq> None"
          "mset (ht_nodes new) = add_mset (touched ops ?n) (mset (ht_nodes (newer hm)))"
          "hmask new = hmask (newer hm)"
        by auto
      let ?hm = "hm\<lparr>older := old, newer := new\<rparr>"
      have "hm_inv ?hm"
        using inv tb old(2,5) new(2,3) by (auto simp: hm_inv_def)
      from "1.IH"(2) [OF True tb pos full old(1) [symmetric] refl refl new(1) this] obtain hm' q' A where
        IH: "rehash_loop ops (nwork + 1) ?hm (q @ q1) = Some (hm', (q @ q1) @ q')" "hm_inv hm'"
          "mset (ht_nodes old) = A + mset (ht_nodes (older hm'))"
          "mset (ht_nodes (newer hm')) = image_mset (touched ops) A + mset (ht_nodes new)"
          "size A = min (REHASHING_WORK - (nwork + 1)) (hsize old)"
          "hmask (newer hm') = hmask new" "\<forall>x \<in> set q'. vsize ops (hval x) \<ge> LARGE_SIZE_TRESHOLD"
        by auto
      then have "rehash_loop ops nwork hm q = Some (hm', q @ q1 @ q')"
        using True tb pos full old(1) new(1) by (subst rehash_loop.simps) simp
      then show ?thesis
        using IH(2-) old(3,4,6) new(4,5) True
        by (auto intro!: exI [where x = "add_mset ?n A"] simp: min_def)
    qed
  qed
qed

lemma hm_rehash_help_spec:
  assumes "hm_inv hm"
  shows "\<exists>hm' q A. hm_rehash_help ops hm = Some (hm', q) \<and> hm_inv hm'
     \<and> mset (ht_nodes (older hm)) = A + mset (ht_nodes (older hm'))
     \<and> mset (ht_nodes (newer hm')) = image_mset (touched ops) A + mset (ht_nodes (newer hm))
     \<and> size A = min REHASHING_WORK (hsize (older hm)) \<and> hmask (newer hm') = hmask (newer hm)
     \<and> (\<forall>x \<in> set q. vsize ops (hval x) \<ge> LARGE_SIZE_TRESHOLD)"
proof -
  from rehash_loop_spec [OF assms, of ops 0 "[]"] obtain hm' q A where
    loop: "rehash_loop ops 0 hm [] = Some (hm', q)" "hm_inv hm'"
      "mset (ht_nodes (older hm)) = A + mset (ht_nodes (older hm'))"
      "mset (ht_nodes (newer hm')) = image_mset (touched ops) A + mset (ht_nodes (newer hm))"
      "size A = min REHASHING_WORK (hsize (older hm))" "hmask (newer hm') = hmask (newer hm)"
      "\<forall>x \<in> set q. vsize ops (hval x) \<ge> LARGE_SIZE_TRESHOLD"
    by auto
  let ?hm = "if tab (older hm') \<noteq> None \<and> hsize (older hm') = 0 then hm'\<lparr>older := empty_htab\<rparr> else hm'"
  have "hm_inv ?hm" and "ht_nodes (older ?hm) = ht_nodes (older hm')"
    using loop(2) by (auto simp: hm_inv_def ht_inv_def empty_htab_def ht_nodes_def)
  moreover have "newer ?hm = newer hm'" by simp
  moreover have "hm_rehash_help ops hm = Some (?hm, q)"
    using loop(1) by (simp add: hm_rehash_help_def)
  ultimately show ?thesis using loop(3-7) by metis
qed

lemma hm_inv_empty [simp]: "hm_inv empty_hmap" and hm_nodes_empty [simp]: "hm_nodes empty_hmap = []"
  by (auto simp: hm_inv_def empty_hmap_def empty_htab_def ht_inv_def ht_nodes_def hm_nodes_def)

lemma h_init_spec: "is_pow2 n \<Longrightarrow> \<exists>t. h_init n = Some t \<and> ht_inv t \<and> ht_nodes t = [] \<and> tab t \<noteq> None \<and> hmask t = n - 1"
  by (auto simp: h_init_def is_pow2_def ht_inv_def ht_nodes_def)

lemma is_pow2_4: "is_pow2 4"
  by (simp add: is_pow2_def)

lemma hm_rehash_spec:
  assumes "hm_inv hm" and "tab (newer hm) \<noteq> None" and "tab (older hm) = None"
  shows "\<exists>hm'. hm_rehash hm = Some hm' \<and> hm_inv hm' \<and> mset (hm_nodes hm') = mset (hm_nodes hm)"
proof -
  have "is_pow2 (2 * (hmask (newer hm) + 1))"
    using assms by (intro is_pow2_double) (auto simp: hm_inv_def ht_inv_def)
  from h_init_spec [OF this] obtain t where
    "h_init (2 * (hmask (newer hm) + 1)) = Some (t :: 'a htab)" "ht_inv t" "ht_nodes t = []" "tab t \<noteq> None"
    by auto
  then show ?thesis
    using assms by (auto simp: hm_rehash_def hm_inv_def hm_nodes_def ht_nodes_def split: option.splits)
qed

text \<open>Insertion keeps every node; those it migrates pass through \<open>ht_unlink\<close>.\<close>

lemma hm_insert_spec:
  assumes inv: "hm_inv hm"
  shows "\<exists>hm' q A B. hm_insert ops hm n = Some (hm', q) \<and> hm_inv hm'
     \<and> mset (n # hm_nodes hm) = A + B \<and> mset (hm_nodes hm') = image_mset (touched ops) A + B
     \<and> size A \<le> REHASHING_WORK \<and> (\<forall>x \<in> set q. vsize ops (hval x) \<ge> LARGE_SIZE_TRESHOLD)"
proof -
  let ?new = "if tab (newer hm) = None then h_init 4 else Some (newer hm)"
  obtain new0 where new0: "?new = Some new0" "ht_inv new0" "tab new0 \<noteq> None" "ht_nodes new0 = ht_nodes (newer hm)"
    using h_init_spec [OF is_pow2_4] inv
    by (cases "tab (newer hm)") (auto simp: ht_nodes_def hm_inv_def)
  from ht_insert_spec [OF new0(2,3), of n] obtain new where
    new: "ht_insert new0 n = Some new" "ht_inv new" "mset (ht_nodes new) = add_mset n (mset (ht_nodes (newer hm)))"
      "tab new \<noteq> None"
    using new0(4) by auto
  let ?hm1 = "hm\<lparr>newer := new\<rparr>"
  have inv1: "hm_inv ?hm1" and nodes1: "mset (hm_nodes ?hm1) = mset (n # hm_nodes hm)"
    using inv new by (auto simp: hm_inv_def hm_nodes_def split: option.splits)
  let ?step = "if tab (older ?hm1) = None \<and> hsize (newer ?hm1) \<ge> (hmask (newer ?hm1) + 1) * MAX_LOAD_FACTOR
      then hm_rehash ?hm1 else Some ?hm1"
  obtain hm2 where hm2: "?step = Some hm2" "hm_inv hm2" "mset (hm_nodes hm2) = mset (n # hm_nodes hm)"
    using hm_rehash_spec [OF inv1] inv1 nodes1 new(4)
    by (cases "tab (older ?hm1) = None \<and> hsize (newer ?hm1) \<ge> (hmask (newer ?hm1) + 1) * MAX_LOAD_FACTOR") auto
  from hm_rehash_help_spec [OF hm2(2), of ops] obtain hm' q A where
    fin: "hm_rehash_help ops hm2 = Some (hm', q)" "hm_inv hm'"
      "mset (ht_nodes (older hm2)) = A + mset (ht_nodes (older hm'))"
      "mset (ht_nodes (newer hm')) = image_mset (touched ops) A + mset (ht_nodes (newer hm2))"
      "size A = min REHASHING_WORK (hsize (older hm2))"
      "\<forall>x \<in> set q. vsize ops (hval x) \<ge> LARGE_SIZE_TRESHOLD"
    by auto
  let ?B = "mset (ht_nodes (older hm')) + mset (ht_nodes (newer hm2))"
  have ret: "hm_insert ops hm n = Some (hm', q)"
    using new0(1) new(1) hm2(1) fin(1) by (simp add: hm_insert_def)
  have "mset (n # hm_nodes hm) = A + ?B" and "mset (hm_nodes hm') = image_mset (touched ops) A + ?B"
    using hm2(3) fin(3,4) by (simp_all add: hm_nodes_def add.assoc add.left_commute)
  with ret fin(2,5,6) show ?thesis by (metis min.cobounded1)
qed

lemma hm_delete_spec:
  assumes inv: "hm_inv hm" and key: "pkey p = Some k"
  shows "case find (matches (pkeyof p)) (hm_nodes hm) of
      None \<Rightarrow> hm_delete ops hm p = Some (hm, None, [])
    | Some n \<Rightarrow> \<exists>hm'. hm_delete ops hm p = Some (hm', Some (touched ops n), snd (hn_unlink ops n)) \<and> hm_inv hm'
        \<and> mset (hm_nodes hm) = add_mset n (mset (hm_nodes hm'))"
proof (cases "find (matches (pkeyof p)) (ht_nodes (older hm))")
  case (Some n)
  obtain s where s: "ht_lookup (older hm) p = Some (Some s)" "slot_node (older hm) s = Some n"
    using ht_lookup_spec [of "older hm" p k] inv key Some
    by (auto simp: hm_inv_def split: option.splits)
  from ht_unlink_spec [OF _ s(2), of ops] inv obtain t where
    t: "ht_unlink ops (older hm) s = (t, Some (touched ops n), snd (hn_unlink ops n))" "ht_inv t"
       "mset (ht_nodes (older hm)) = add_mset n (mset (ht_nodes t))"
       "tab t = Some ((the (tab (older hm)))[fst s := take (snd s) (the (tab (older hm)) ! fst s)
                                    @ drop (Suc (snd s)) (the (tab (older hm)) ! fst s)])"
    by (auto simp: hm_inv_def)
  have "hm_inv (hm\<lparr>older := t\<rparr>)"
    using inv t(2,4) s(2)
    by (auto simp: hm_inv_def slot_node_def nth_list_update split: option.splits if_splits)
  then show ?thesis
    using s(1) t(1,3) Some by (simp add: hm_delete_def hm_nodes_def find_append)
next
  case None
  then have older: "ht_lookup (older hm) p = Some None"
    using ht_lookup_spec [of "older hm" p k] inv key
    by (auto simp: hm_inv_def split: option.splits)
  show ?thesis
  proof (cases "find (matches (pkeyof p)) (ht_nodes (newer hm))")
    case (Some n)
    obtain s where s: "ht_lookup (newer hm) p = Some (Some s)" "slot_node (newer hm) s = Some n"
      using ht_lookup_spec [of "newer hm" p k] inv key Some
      by (auto simp: hm_inv_def split: option.splits)
    from ht_unlink_spec [OF _ s(2), of ops] inv obtain t where
      t: "ht_unlink ops (newer hm) s = (t, Some (touched ops n), snd (hn_unlink ops n))" "ht_inv t"
         "mset (ht_nodes (newer hm)) = add_mset n (mset (ht_nodes t))" "tab t \<noteq> None"
      by (auto simp: hm_inv_def)
    have "hm_inv (hm\<lparr>newer := t\<rparr>)"
      using inv t(2,4) by (auto simp: hm_inv_def split: option.splits)
    then show ?thesis
      using s(1) t(1,3) older None Some by (simp add: hm_delete_def hm_nodes_def find_append)
  next
    case none: None
    then have "ht_lookup (newer hm) p = Some None"
      using ht_lookup_spec [of "newer hm" p k] inv key
      by (auto simp: hm_inv_def split: option.splits)
    then show ?thesis
      using older None none by (simp add: hm_delete_def hm_nodes_def find_append)
  qed
qed

lemma hm_size_nodes: "hm_inv hm \<Longrightarrow> hm_size hm = length (hm_nodes hm)"
  by (simp add: hm_size_def hm_inv_def ht_inv_def hm_nodes_def)

lemma h_foreach_nodes: "ht_inv t \<Longrightarrow> h_foreach t = Some (map hkey (ht_nodes t))"
proof (cases "tab t")
  case (Some tb)
  assume "ht_inv t"
  with Some have len: "length tb = hmask t + 1" by (simp add: ht_inv_def)
  have "map (\<lambda>i. map hkey (tb ! i)) [0..<length tb] = map (map hkey) tb"
    by (rule nth_equalityI) auto
  with len Some show ?thesis
    by (simp add: h_foreach_def ht_nodes_def map_concat del: upt_Suc)
qed (simp add: h_foreach_def ht_nodes_def)

lemma hm_keys_nodes: "hm_inv hm \<Longrightarrow> \<exists>ks. hm_keys hm = Some ks \<and> mset ks = mset (map hkey (hm_nodes hm))"
  by (auto simp: hm_keys_def hm_inv_def h_foreach_nodes hm_nodes_def)
section \<open>The map as a finite map\<close>

definition nodes_map :: "('n \<Rightarrow> 'k) \<Rightarrow> 'n list \<Rightarrow> 'k \<rightharpoonup> 'n" where
  "nodes_map key ns k = find (\<lambda>n. key n = k) ns"

lemma nodes_map_Some:
  "distinct (map key ns) \<Longrightarrow> nodes_map key ns k = Some n \<longleftrightarrow> n \<in> set ns \<and> key n = k"
  unfolding nodes_map_def by (induction ns) (auto simp: image_iff)

lemma nodes_map_None: "nodes_map key ns k = None \<longleftrightarrow> k \<notin> key ` set ns"
  by (auto simp: nodes_map_def find_None_iff)

lemma nodes_map_cong:
  assumes "distinct (map key ns)" and "distinct (map key ns')" and "set ns = set ns'"
  shows "nodes_map key ns = nodes_map key ns'"
proof
  fix k
  show "nodes_map key ns k = nodes_map key ns' k"
    using assms nodes_map_Some [OF assms(1), of k] nodes_map_Some [OF assms(2), of k]
    by (cases "nodes_map key ns k"; cases "nodes_map key ns' k") auto
qed

lemma distinct_map_mset: "distinct (map key ns) \<Longrightarrow> image_mset key (mset ns) = image_mset key (mset ns') \<Longrightarrow> distinct (map key ns')"
  by (metis mset_eq_imp_distinct_iff mset_map)

lemma nodes_map_insert:
  assumes "distinct (map key (n # ns))" and "mset ns' = mset (n # ns)"
  shows "nodes_map key ns' = (nodes_map key ns)(key n \<mapsto> n)"
proof -
  have "distinct (map key ns')"
    by (rule distinct_map_mset [OF assms(1)]) (simp add: assms(2))
  then have "nodes_map key ns' = nodes_map key (n # ns)"
    using assms(1) mset_eq_setD [OF assms(2)] by (rule nodes_map_cong)
  also have "\<dots> = (nodes_map key ns)(key n \<mapsto> n)"
    by (rule ext) (auto simp: nodes_map_def)
  finally show ?thesis .
qed

lemma nodes_map_delete:
  assumes "distinct (map key ns)" and "mset ns = mset (n # ns')"
  shows "nodes_map key ns' = (nodes_map key ns)(key n := None)"
proof -
  have d: "distinct (map key (n # ns'))"
    by (rule distinct_map_mset [OF assms(1)]) (simp add: assms(2))
  have "nodes_map key ns = (nodes_map key ns')(key n \<mapsto> n)"
    using nodes_map_insert [OF d assms(2)] .
  moreover have "nodes_map key ns' (key n) = None"
    using d by (simp add: nodes_map_None)
  ultimately show ?thesis by auto
qed

lemma nodes_map_touch:
  assumes d: "distinct (map key ns)" and keys: "\<And>n. key (touch n) = key n"
    and ns: "mset ns = A + B" and ns': "mset ns' = image_mset touch A + B"
  shows "distinct (map key ns') \<and> (\<exists>f. (\<forall>n. f n = n \<or> f n = touch n) \<and> nodes_map key ns' = map_option f \<circ> nodes_map key ns)"
proof -
  define f where "f n = (if n \<in># A then touch n else n)" for n
  have key_f: "key (f n) = key n" for n by (simp add: f_def keys)
  have "image_mset key (mset ns) = image_mset key (mset ns')"
    by (simp add: ns ns' image_mset.compositionality comp_def keys)
  then have d': "distinct (map key ns')" by (rule distinct_map_mset [OF d])
  have "count (mset ns) n \<le> 1" for n
    using d distinct_count_atmost_1 [of ns] by (auto simp: distinct_map count_mset)
  then have disj: "n \<notin># B" if "n \<in># A" for n
    using that ns by (metis Suc_leI add_le_same_cancel1 count_greater_zero_iff count_union le_antisym le_trans not_one_le_zero plus_1_eq_Suc linorder_not_less)
  have "image_mset f A = image_mset touch A" and "image_mset f B = image_mset id B"
    using disj by (intro image_mset_cong; auto simp: f_def)+
  then have "mset ns' = image_mset f (mset ns)"
    by (simp add: ns ns')
  then have "set ns' = f ` set ns" by (metis set_image_mset set_mset_mset)
  have "nodes_map key ns' k = map_option f (nodes_map key ns k)" for k
  proof (cases "nodes_map key ns k")
    case None
    then have "nodes_map key ns' k = None"
      by (auto simp: nodes_map_None \<open>set ns' = f ` set ns\<close> key_f)
    with None show ?thesis by simp
  next
    case (Some a)
    then have "nodes_map key ns' k = Some (f a)"
      using nodes_map_Some [OF d, of k a] nodes_map_Some [OF d', of k "f a"]
      by (auto simp: \<open>set ns' = f ` set ns\<close> key_f)
    with Some show ?thesis by simp
  qed
  then have "nodes_map key ns' = map_option f \<circ> nodes_map key ns" by auto
  with d' show ?thesis by (intro conjI exI [of _ f]) (auto simp: f_def)
qed


text \<open>
  The contract clients rely on: a store of nodes with unique keys is a finite map;
  inserting may pass nodes through \<open>touch\<close> (the clean-up of \<open>ht_unlink\<close>) but loses and
  confuses none, deleting removes exactly one key.
\<close>

locale keyed_store =
  fixes inv :: "'m \<Rightarrow> bool"
    and nodes :: "'m \<Rightarrow> 'n list"
    and key :: "'n \<Rightarrow> 'k"
    and touch :: "'n \<Rightarrow> 'n"
    and pok :: "'p \<Rightarrow> bool"
    and pk :: "'p \<Rightarrow> 'k"
    and lookup :: "'m \<Rightarrow> 'p \<Rightarrow> 'n option option"
    and insert :: "'m \<Rightarrow> 'n \<Rightarrow> ('m \<times> 'n list) option"
    and delete :: "'m \<Rightarrow> 'p \<Rightarrow> ('m \<times> 'n option \<times> 'n list) option"
  assumes key_touch: "key (touch n) = key n"
    and lookup_law: "inv m \<Longrightarrow> pok p \<Longrightarrow> lookup m p = Some (nodes_map key (nodes m) (pk p))"
    and insert_law: "inv m \<Longrightarrow> \<exists>m' q A B. insert m n = Some (m', q) \<and> inv m' \<and>
          mset (n # nodes m) = A + B \<and> mset (nodes m') = image_mset touch A + B"
    and delete_law: "inv m \<Longrightarrow> pok p \<Longrightarrow>
          (case nodes_map key (nodes m) (pk p) of
             None \<Rightarrow> delete m p = Some (m, None, [])
           | Some n \<Rightarrow> \<exists>m' q. delete m p = Some (m', Some (touch n), q) \<and> inv m'
               \<and> mset (nodes m) = mset (n # nodes m'))"
begin

lemma store_insert:
  assumes "inv m" and "distinct (map key (nodes m))" and "nodes_map key (nodes m) (key n) = None"
  shows "\<exists>m' q f. insert m n = Some (m', q) \<and> inv m' \<and> distinct (map key (nodes m'))
    \<and> (\<forall>x. f x = x \<or> f x = touch x)
    \<and> nodes_map key (nodes m') = map_option f \<circ> (nodes_map key (nodes m))(key n \<mapsto> n)"
proof -
  have d: "distinct (map key (n # nodes m))"
    using assms by (auto simp: nodes_map_None)
  from insert_law [OF assms(1), of n] obtain m' q A B where
    *: "insert m n = Some (m', q)" "inv m'" "mset (n # nodes m) = A + B" "mset (nodes m') = image_mset touch A + B"
    by auto
  from nodes_map_touch [where touch = touch, OF d key_touch *(3,4)] obtain f where
    f: "distinct (map key (nodes m'))" "\<forall>n. f n = n \<or> f n = touch n"
      "nodes_map key (nodes m') = map_option f \<circ> nodes_map key (n # nodes m)"
    by blast
  have "nodes_map key (n # nodes m) = (nodes_map key (nodes m))(key n \<mapsto> n)"
    by (rule nodes_map_insert [OF d]) simp
  with f * show ?thesis by auto
qed

lemma store_delete:
  assumes "inv m" and d: "distinct (map key (nodes m))" and "pok p"
  shows "\<exists>m' q. delete m p = Some (m', map_option touch (nodes_map key (nodes m) (pk p)), q) \<and> inv m'
    \<and> distinct (map key (nodes m')) \<and> nodes_map key (nodes m') = (nodes_map key (nodes m))(pk p := None)"
proof (cases "nodes_map key (nodes m) (pk p)")
  case None
  then show ?thesis using assms delete_law [of m p] by auto
next
  case (Some n)
  with delete_law [OF assms(1,3)] obtain m' q where
    *: "delete m p = Some (m', Some (touch n), q)" "inv m'" "mset (nodes m) = mset (n # nodes m')"
    by auto
  have "key n = pk p"
    using Some nodes_map_Some [OF d] by blast
  moreover have "distinct (map key (n # nodes m'))"
    by (rule distinct_map_mset [OF d]) (simp add: *(3))
  ultimately show ?thesis
    using * Some nodes_map_delete [OF d *(3)] by auto
qed

lemma store_lookup_after_delete:
  assumes "inv m" and "distinct (map key (nodes m))" and "pok p" and "pok p'"
  shows "\<exists>m' q. delete m p = Some (m', map_option touch (nodes_map key (nodes m) (pk p)), q)
    \<and> lookup m' p' = (if pk p' = pk p then Some None else lookup m p')"
  using store_delete [OF assms(1-3)] lookup_law assms(1,4) by auto

end

lemma find_matches: "find (matches k) ns = nodes_map nkey ns k"
  by (simp add: nodes_map_def matches_def [abs_def])

interpretation hms: keyed_store hm_inv hm_nodes nkey "touched ops" "\<lambda>p. pkey p \<noteq> None" pkeyof
    hm_lookup "hm_insert ops" "hm_delete ops" for ops
proof unfold_locales
  fix hm :: "'a hmap" and n :: "'a hnode" and p :: probe
  show "nkey (touched ops n) = nkey n" by simp
  assume inv: "hm_inv hm"
  show "\<exists>m' q A B. hm_insert ops hm n = Some (m', q) \<and> hm_inv m' \<and>
      mset (n # hm_nodes hm) = A + B \<and> mset (hm_nodes m') = image_mset (touched ops) A + B"
    using hm_insert_spec [OF inv, of ops n] by metis
  assume "pkey p \<noteq> None"
  then obtain k where k: "pkey p = Some k" by auto
  show "hm_lookup hm p = Some (nodes_map nkey (hm_nodes hm) (pkeyof p))"
    using hm_lookup_find [OF inv k] by (simp add: find_matches)
  show "case nodes_map nkey (hm_nodes hm) (pkeyof p) of None \<Rightarrow> hm_delete ops hm p = Some (hm, None, [])
     | Some n \<Rightarrow> \<exists>m' q. hm_delete ops hm p = Some (m', Some (touched ops n), q) \<and> hm_inv m' \<and>
         mset (hm_nodes hm) = mset (n # hm_nodes m')"
    using hm_delete_spec [OF inv k, of ops] by (auto simp: find_matches split: option.splits)
qed

definition hm_ok :: "'v hmap \<Rightarrow> bool" where
  "hm_ok hm \<longleftrightarrow> hm_inv hm \<and> distinct (map nkey (hm_nodes hm))"

definition hm_abs :: "'v hmap \<Rightarrow> u64 \<times> bytes \<rightharpoonup> 'v hnode" where
  "hm_abs hm = nodes_map nkey (hm_nodes hm)"

lemma hm_ok_empty [simp]: "hm_ok empty_hmap"
  by (simp add: hm_ok_def)

lemma hm_abs_empty [simp]: "hm_abs empty_hmap = Map.empty"
  by (auto simp: hm_abs_def nodes_map_def)

lemma hm_lookup_abs: "hm_ok hm \<Longrightarrow> pkey p \<noteq> None \<Longrightarrow> hm_lookup hm p = Some (hm_abs hm (pkeyof p))"
  by (simp add: hm_ok_def hm_abs_def hms.lookup_law)

lemma hm_insert_abs:
  assumes "hm_ok hm" and "hm_abs hm (nkey n) = None"
  shows "\<exists>hm' q f. hm_insert ops hm n = Some (hm', q) \<and> hm_ok hm' \<and> (\<forall>x. f x = x \<or> f x = touched ops x)
    \<and> hm_abs hm' = map_option f \<circ> (hm_abs hm)(nkey n \<mapsto> n)"
  using hms.store_insert [of hm n ops] assms by (auto simp: hm_ok_def hm_abs_def)

lemma hm_insert_plain:
  assumes "hm_ok hm" and "hm_abs hm (nkey n) = None"
  shows "\<exists>hm'. hm_insert plain_ops hm n = Some (hm', []) \<and> hm_ok hm' \<and> hm_abs hm' = (hm_abs hm)(nkey n \<mapsto> n)"
proof -
  from hm_insert_abs [OF assms, of plain_ops] obtain hm' q f where
    *: "hm_insert plain_ops hm n = Some (hm', q)" "hm_ok hm'" "\<forall>x. f x = x \<or> f x = touched plain_ops x"
      "hm_abs hm' = map_option f \<circ> (hm_abs hm)(nkey n \<mapsto> n)"
    by blast
  moreover from *(3) have "f = id" by auto
  moreover have "q = []"
    using hm_insert_spec [of hm plain_ops n] assms(1) *(1)
    by (auto simp: hm_ok_def plain_ops_def LARGE_SIZE_TRESHOLD_def)
  ultimately show ?thesis by (auto simp: option.map_id0)
qed

lemma hm_delete_abs:
  assumes "hm_ok hm" and "pkey p \<noteq> None"
  shows "\<exists>hm' q. hm_delete ops hm p = Some (hm', map_option (touched ops) (hm_abs hm (pkeyof p)), q)
    \<and> hm_ok hm' \<and> hm_abs hm' = (hm_abs hm)(pkeyof p := None)"
  using hms.store_delete [of hm p ops] assms by (auto simp: hm_ok_def hm_abs_def)

lemma hm_rehash_help_frees:
  assumes "hm_rehash_help ops hm = Some (hm', q)" and "hsize (older hm') = 0"
  shows "tab (older hm') = None"
proof -
  obtain hm0 where "hm' = (if tab (older hm0) \<noteq> None \<and> hsize (older hm0) = 0
      then hm0\<lparr>older := empty_htab\<rparr> else hm0)"
    using assms(1) by (auto simp: hm_rehash_help_def bind_eq_Some_conv)
  then show ?thesis
    using assms(2) by (cases "tab (older hm0) \<noteq> None \<and> hsize (older hm0) = 0") (auto simp: empty_htab_def)
qed

lemma hm_insert_rehash:
  assumes inv: "hm_inv hm" and old: "tab (older hm) = None" and new: "tab (newer hm) \<noteq> None"
    and full: "hsize (newer hm) + 1 \<ge> (hmask (newer hm) + 1) * MAX_LOAD_FACTOR"
    and few: "hsize (newer hm) + 1 \<le> REHASHING_WORK"
  shows "\<exists>hm' q. hm_insert ops hm n = Some (hm', q) \<and> hm_inv hm' \<and> tab (older hm') = None
    \<and> mset (hm_nodes hm') = image_mset (touched ops) (mset (n # hm_nodes hm))"
proof -
  from ht_insert_spec [of "newer hm" n] inv new obtain t where
    t: "ht_insert (newer hm) n = Some t" "ht_inv t" "mset (ht_nodes t) = add_mset n (mset (ht_nodes (newer hm)))"
      "tab t \<noteq> None" "hmask t = hmask (newer hm)" "hsize t = hsize (newer hm) + 1"
    by (auto simp: hm_inv_def)
  let ?hm1 = "hm\<lparr>newer := t\<rparr>"
  have inv1: "hm_inv ?hm1" using inv t old by (simp add: hm_inv_def)
  have "is_pow2 (2 * (hmask t + 1))"
    using t by (intro is_pow2_double) (auto simp: ht_inv_def)
  from h_init_spec [OF this] obtain t2 where t2: "h_init (2 * (hmask t + 1)) = Some (t2 :: 'a htab)"
      "ht_inv t2" "ht_nodes t2 = []" "tab t2 \<noteq> None" by auto
  let ?hm2 = "\<lparr>older = t, newer = t2, migrate_pos = 0\<rparr>"
  have reh: "hm_rehash ?hm1 = Some ?hm2" using t2 by (simp add: hm_rehash_def)
  have inv2: "hm_inv ?hm2" using t t2 by (auto simp: hm_inv_def split: option.splits)
  from hm_rehash_help_spec [OF inv2, of ops] obtain hm' q A where
    fin: "hm_rehash_help ops ?hm2 = Some (hm', q)" "hm_inv hm'" "mset (ht_nodes t) = A + mset (ht_nodes (older hm'))"
      "mset (ht_nodes (newer hm')) = image_mset (touched ops) A" "size A = min REHASHING_WORK (hsize t)"
    using t2(3) by auto
  have "size A = length (ht_nodes t)"
    using fin(5) t few by (simp add: ht_inv_def)
  moreover have "size (mset (ht_nodes t)) = size A + length (ht_nodes (older hm'))"
    using fin(3) by simp
  ultimately have older: "ht_nodes (older hm') = []" by simp
  then have "hsize (older hm') = 0" using fin(2) by (simp add: hm_inv_def ht_inv_def)
  then have "tab (older hm') = None" by (rule hm_rehash_help_frees [OF fin(1)])
  moreover have "hm_insert ops hm n = Some (hm', q)"
    using t reh fin(1) old new full by (auto simp: hm_insert_def Let_def)
  moreover have "ht_nodes (older hm) = []" using old by (simp add: ht_nodes_def)
  ultimately show ?thesis
    using fin t older by (simp add: hm_nodes_def)
qed

text \<open>An insertion migrates nodes when a rehash is in progress or when it fills the table.\<close>

definition migrating :: "'v hmap \<Rightarrow> bool" where
  "migrating hm \<longleftrightarrow> tab (older hm) \<noteq> None \<or> tab (newer hm) \<noteq> None \<and> (hmask (newer hm) + 1) * MAX_LOAD_FACTOR \<le> hsize (newer hm) + 1"

lemma hm_rehash_help_idle:
  assumes "tab (older hm) = None" and "hsize (older hm) = 0"
  shows "hm_rehash_help ops hm = Some (hm, [])"
  using assms by (simp add: hm_rehash_help_def rehash_loop.simps)

lemma hm_insert_calm:
  assumes inv: "hm_inv hm" and calm: "\<not> migrating hm"
  shows "\<exists>hm'. hm_insert ops hm n = Some (hm', []) \<and> hm_inv hm' \<and> mset (hm_nodes hm') = mset (n # hm_nodes hm)"
proof -
  have old: "tab (older hm) = None" "hsize (older hm) = 0" using inv calm by (auto simp: migrating_def hm_inv_def ht_inv_def ht_nodes_def)
  obtain new0 where new0: "(if tab (newer hm) = None then h_init 4 else Some (newer hm)) = Some new0" "ht_inv new0" "tab new0 \<noteq> None"
      "ht_nodes new0 = ht_nodes (newer hm)" "hsize new0 + 1 < (hmask new0 + 1) * MAX_LOAD_FACTOR"
  proof (cases "tab (newer hm)")
    case None
    from h_init_spec [OF is_pow2_4] obtain t where
      t: "h_init 4 = Some (t :: 'a htab)" "ht_inv t" "ht_nodes t = []" "tab t \<noteq> None" "hmask t = 4 - 1" by blast
    then have "hsize t = 0" by (simp add: ht_inv_def)
    with t None that [of t] show thesis by (simp add: ht_nodes_def MAX_LOAD_FACTOR_def)
  next
    case (Some tb)
    then show thesis using inv calm that [of "newer hm"] by (auto simp: hm_inv_def migrating_def)
  qed
  from ht_insert_spec [OF new0(2,3), of n] obtain new where
    new: "ht_insert new0 n = Some new" "ht_inv new" "mset (ht_nodes new) = add_mset n (mset (ht_nodes new0))"
      "tab new \<noteq> None" "hmask new = hmask new0" "hsize new = hsize new0 + 1" by auto
  let ?hm = "hm\<lparr>newer := new\<rparr>"
  have "hm_insert ops hm n = Some (?hm, [])"
    using new0(1,5) new(1,5,6) old hm_rehash_help_idle [of ?hm ops] by (simp add: hm_insert_def)
  moreover have "hm_inv ?hm" using inv new(2) old by (simp add: hm_inv_def)
  moreover have "mset (hm_nodes ?hm) = mset (n # hm_nodes hm)" using new(3) new0(4) by (simp add: hm_nodes_def)
  ultimately show ?thesis by blast
qed

lemma hm_insert_calm_abs:
  assumes "hm_ok hm" and "hm_abs hm (nkey n) = None" and "\<not> migrating hm"
  shows "\<exists>hm'. hm_insert ops hm n = Some (hm', []) \<and> hm_ok hm' \<and> hm_abs hm' = (hm_abs hm)(nkey n \<mapsto> n)"
proof -
  have d: "distinct (map nkey (n # hm_nodes hm))" using assms(1,2) by (auto simp: hm_ok_def hm_abs_def nodes_map_None)
  obtain hm' where hm': "hm_insert ops hm n = Some (hm', [])" "hm_inv hm'" "mset (hm_nodes hm') = mset (n # hm_nodes hm)"
    using hm_insert_calm [of hm ops n] assms(1,3) by (auto simp: hm_ok_def)
  have "distinct (map nkey (hm_nodes hm'))" by (rule distinct_map_mset [OF d]) (simp add: hm'(3))
  then show ?thesis using hm' nodes_map_insert [OF d hm'(3)] by (auto simp: hm_ok_def hm_abs_def)
qed

lemma nodes_map_image:
  assumes d: "distinct (map key ns)" and k: "\<And>n. key (f n) = key n" and ns': "mset ns' = image_mset f (mset ns)"
  shows "distinct (map key ns') \<and> nodes_map key ns' = map_option f \<circ> nodes_map key ns"
proof -
  have "mset ns' = mset (map f ns)" using ns' by simp
  then have st: "set ns' = f ` set ns" by (metis mset_eq_setD image_set)
  have "distinct (map key (map f ns))" using d by (simp add: k comp_def)
  then have d': "distinct (map key ns')" by (rule distinct_map_mset) (simp add: ns')
  have "nodes_map key ns' x = map_option f (nodes_map key ns x)" for x
  proof (cases "nodes_map key ns x")
    case None
    then have "nodes_map key ns' x = None" using st k by (auto simp: nodes_map_None)
    with None show ?thesis by simp
  next
    case (Some n)
    then have "f n \<in> set ns'" "key (f n) = x" using st nodes_map_Some [OF d] k by auto
    then show ?thesis using Some nodes_map_Some [OF d', of x "f n"] by simp
  qed
  with d' show ?thesis by auto
qed

lemma hm_insert_rehash_abs:
  assumes "hm_ok hm" and "hm_abs hm (nkey n) = None" and "tab (older hm) = None" and "migrating hm" and "hsize (newer hm) + 1 \<le> REHASHING_WORK"
  shows "\<exists>hm' q. hm_insert ops hm n = Some (hm', q) \<and> hm_ok hm' \<and> hm_abs hm' = map_option (touched ops) \<circ> (hm_abs hm)(nkey n \<mapsto> n)"
proof -
  have d: "distinct (map nkey (n # hm_nodes hm))" using assms(1,2) by (auto simp: hm_ok_def hm_abs_def nodes_map_None)
  obtain hm' q where hm': "hm_insert ops hm n = Some (hm', q)" "hm_inv hm'" "mset (hm_nodes hm') = image_mset (touched ops) (mset (n # hm_nodes hm))"
    using hm_insert_rehash [of hm ops n] assms by (auto simp: hm_ok_def migrating_def)
  from nodes_map_image [OF d _ hm'(3)] have "distinct (map nkey (hm_nodes hm'))"
    "nodes_map nkey (hm_nodes hm') = map_option (touched ops) \<circ> nodes_map nkey (n # hm_nodes hm)" by auto
  then show ?thesis using hm' nodes_map_insert [OF d refl] by (auto simp: hm_ok_def hm_abs_def)
qed

section \<open>Properties\<close>

text \<open>C2: on a map with unique keys whose contents need no clean-up (hash fields, set members,
  sorted-set members), \<open>hm_insert\<close> of a new key returns normally, keeps the invariant
  (bucket placement, power-of-two tables, exact size counters, drained buckets below
  \<open>migrate_pos\<close>) and is the map update, through any number of incremental rehashing
  steps.\<close>

theorem hm_insert_refines_update:
  assumes "hm_ok hm" and "hm_abs hm (nkey n) = None"
  shows "\<exists>hm'. hm_insert plain_ops hm n = Some (hm', []) \<and> hm_ok hm'
     \<and> hm_abs hm' = (hm_abs hm)(nkey n \<mapsto> n) \<and> hm_size hm' = hm_size hm + 1"
proof -
  from hm_insert_plain [OF assms] obtain hm' where
    *: "hm_insert plain_ops hm n = Some (hm', [])" "hm_ok hm'" "hm_abs hm' = (hm_abs hm)(nkey n \<mapsto> n)"
    by auto
  from hm_insert_spec [of hm plain_ops n] assms(1) *(1) obtain A B where
    "mset (n # hm_nodes hm) = A + B" "mset (hm_nodes hm') = image_mset (touched plain_ops) A + B"
    by (auto simp: hm_ok_def)
  then have "size (mset (hm_nodes hm')) = size (mset (n # hm_nodes hm))" by simp
  then show ?thesis
    using * assms(1) by (simp add: hm_ok_def hm_size_nodes)
qed

theorem hm_insert_refines_update_witness:
  "\<exists>hm'. hm_insert plain_ops empty_hmap \<lparr>hcode = 5, hkey = \<lparr>dsize = 0, dfree = 0, dbuf = [Some 0]\<rparr>, hval = ()\<rparr>
       = Some (hm', []) \<and> hm_ok hm' \<and> hm_size hm' = hm_size (empty_hmap :: unit hmap) + 1"
  using hm_insert_refines_update [of empty_hmap
      "\<lparr>hcode = 5, hkey = \<lparr>dsize = 0, dfree = 0, dbuf = [Some 0]\<rparr>, hval = ()\<rparr>"]
  by auto

text \<open>A map in the middle of a rehash: one node still in the older table, one in the newer.\<close>

definition empty_key :: dstr where
  "empty_key = \<lparr>dsize = 0, dfree = 0, dbuf = [Some 0]\<rparr>"

definition split_map :: "unit hmap" where
  "split_map = \<lparr>older = \<lparr>tab = Some [[], [\<lparr>hcode = 5, hkey = empty_key, hval = ()\<rparr>], [], []], hmask = 3, hsize = 1\<rparr>,
     newer = \<lparr>tab = Some [[], [], [\<lparr>hcode = 2, hkey = empty_key, hval = ()\<rparr>], [], [], [], [], []], hmask = 7, hsize = 1\<rparr>, migrate_pos = 1\<rparr>"

lemma split_nodes: "hm_nodes split_map = [\<lparr>hcode = 5, hkey = empty_key, hval = ()\<rparr>, \<lparr>hcode = 2, hkey = empty_key, hval = ()\<rparr>]"
  by (simp add: split_map_def hm_nodes_def ht_nodes_def)

lemma split_map_ok: "hm_ok split_map"
proof -
  have "is_pow2 (Suc (Suc (Suc (Suc 0))))" "is_pow2 (Suc (Suc (Suc (Suc (Suc (Suc (Suc (Suc 0))))))))"
    using is_pow2_4 is_pow2_double [OF is_pow2_4] by (simp_all only: numeral_eq_Suc pred_numeral_simps numeral_One BitM.simps mult_Suc mult_0 add_Suc add_0_right add_0_left add_Suc_right One_nat_def)
  then have "hm_inv split_map"
    by (auto simp: split_map_def hm_inv_def ht_inv_def ht_nodes_def nth_Cons' bucket_def)
  then show ?thesis by (simp add: hm_ok_def split_nodes nkey_def)
qed

lemma split_map_abs: "hm_abs split_map = [(5, []) \<mapsto> \<lparr>hcode = 5, hkey = empty_key, hval = ()\<rparr>, (2, []) \<mapsto> \<lparr>hcode = 2, hkey = empty_key, hval = ()\<rparr>]"
  by (auto simp: hm_abs_def split_nodes nodes_map_def nkey_def empty_key_def cstr_def dstr_bytes_def fun_eq_iff)

text \<open>C3: a lookup with a key reaches exactly the entry of the finite map the two tables
  represent, whichever of them holds it while a rehash is in progress, and never faults.\<close>

theorem hm_lookup_refines_apply:
  assumes "hm_ok hm" and "pkey p = Some k"
  shows "hm_lookup hm p = Some (hm_abs hm (pcode p, cstr (dstr_bytes k)))"
  using hm_lookup_abs [OF assms(1), of p] assms(2) by (simp add: pkeyof_def)

theorem hm_lookup_refines_apply_witness:
  "hm_lookup split_map \<lparr>pcode = 5, pkey = Some empty_key\<rparr> = Some (Some \<lparr>hcode = 5, hkey = empty_key, hval = ()\<rparr>)"
  using hm_lookup_refines_apply [OF split_map_ok, of "\<lparr>pcode = 5, pkey = Some empty_key\<rparr>" empty_key]
  by (simp add: split_map_abs empty_key_def cstr_def dstr_bytes_def)

text \<open>C4: deleting a key returns normally, keeps the invariant, removes exactly that key from
  the map the tables represent, and hands back the removed node as \<open>ht_unlink\<close> leaves it;
  deleting an absent key changes nothing.\<close>

theorem hm_delete_refines_remove:
  assumes "hm_ok hm" and "pkey p \<noteq> None"
  shows "\<exists>hm' q. hm_delete ops hm p = Some (hm', map_option (touched ops) (hm_abs hm (pkeyof p)), q)
    \<and> hm_ok hm' \<and> hm_abs hm' = (hm_abs hm)(pkeyof p := None)
    \<and> (hm_abs hm (pkeyof p) = None \<longrightarrow> hm' = hm)"
proof -
  obtain k where k: "pkey p = Some k" using assms(2) by auto
  have inv: "hm_inv hm" using assms(1) by (simp add: hm_ok_def)
  from hm_delete_spec [OF inv k, of ops]
  have "hm_abs hm (pkeyof p) = None \<longrightarrow> hm_delete ops hm p = Some (hm, None, [])"
    by (auto simp: find_matches hm_abs_def)
  with hm_delete_abs [OF assms, of ops] show ?thesis by (metis Pair_inject option.inject)
qed

theorem hm_delete_refines_remove_witness:
  "\<exists>hm' q. hm_delete plain_ops split_map \<lparr>pcode = 5, pkey = Some empty_key\<rparr> = Some (hm', Some \<lparr>hcode = 5, hkey = empty_key, hval = ()\<rparr>, q)
     \<and> hm_abs hm' = [(2, []) \<mapsto> \<lparr>hcode = 2, hkey = empty_key, hval = ()\<rparr>]"
proof -
  have k: "pkeyof \<lparr>pcode = 5, pkey = Some empty_key\<rparr> = (5, [])" by (simp add: pkeyof_def empty_key_def cstr_def dstr_bytes_def)
  show ?thesis
    using hm_delete_refines_remove [OF split_map_ok, of "\<lparr>pcode = 5, pkey = Some empty_key\<rparr>" plain_ops]
    by (auto simp: k split_map_abs fun_upd_twist)
qed

text \<open>Every insertion, for contents of any kind, returns normally, keeps the invariant and
  loses no node: the nodes afterwards are the old ones and the new one, of which at most
  128 have been migrated and thereby passed through \<open>ht_unlink\<close>; only nodes with at least
  1000 elements inside are handed to the thread pool.\<close>

lemma hm_insert_keeps_nodes:
  assumes "hm_inv hm"
  shows "\<exists>hm' q A B. hm_insert ops hm n = Some (hm', q) \<and> hm_inv hm'
     \<and> mset (n # hm_nodes hm) = A + B \<and> mset (hm_nodes hm') = image_mset (touched ops) A + B
     \<and> size A \<le> REHASHING_WORK \<and> (\<forall>x \<in> set q. vsize ops (hval x) \<ge> LARGE_SIZE_TRESHOLD)"
  by (rule hm_insert_spec [OF assms])

lemma hm_insert_keeps_nodes_witness:
  "\<exists>hm' q. hm_insert plain_ops empty_hmap \<lparr>hcode = 5, hkey = \<lparr>dsize = 0, dfree = 0, dbuf = [Some 0]\<rparr>, hval = ()\<rparr>
       = Some (hm', q) \<and> hm_inv hm'"
  using hm_insert_keeps_nodes [OF hm_inv_empty, of plain_ops
      "\<lparr>hcode = 5, hkey = \<lparr>dsize = 0, dfree = 0, dbuf = [Some 0]\<rparr>, hval = ()\<rparr>"]
  by blast

text \<open>\<open>hm_keys\<close> lists the key of every stored node exactly once, in both tables, and
  \<open>hm_size\<close> is their number.\<close>

lemma hm_keys_complete:
  assumes "hm_inv hm"
  shows "\<exists>ks. hm_keys hm = Some ks \<and> mset ks = mset (map hkey (hm_nodes hm)) \<and> hm_size hm = length ks"
  using hm_keys_nodes [OF assms] hm_size_nodes [OF assms] by (metis length_map size_mset)

lemma hm_keys_complete_witness: "hm_keys (empty_hmap :: unit hmap) = Some [] \<and> hm_size (empty_hmap :: unit hmap) = 0"
  using hm_keys_complete [OF hm_inv_empty [where 'a = unit]] by simp

end
