(* ===== verification/Heap.thy ===== *)
theory Heap
  imports Prelude "HOL-Library.Multiset"
begin

text \<open>
  The binary heap of expiry times (\<open>src/src/data_structures/heap.cpp\<close>, \<open>heap.h\<close>) and the
  two functions of \<open>src/src/server.cpp\<close> that add and remove a key's deadline.

  A heap node holds a deadline and a pointer to the \<open>heap_idx\<close> field of the database node
  it belongs to; the pointer is the address of that node.  The \<open>heap_idx\<close> fields of all
  database nodes form a store: an address that is not allocated (or has been freed) maps
  to \<open>None\<close>, a field that has never been written to \<open>Some None\<close>.
\<close>

section \<open>Definitions\<close>

record HeapNode =
  hn_val :: u64
  pos_ref :: addr

type_synonym idx_store = "addr \<rightharpoonup> nat option"
type_synonym heap_state = "HeapNode list \<times> idx_store"

text \<open>\<open>*ref = pos\<close>\<close>

definition write_idx :: "idx_store \<Rightarrow> addr \<Rightarrow> nat \<Rightarrow> idx_store option" where
  "write_idx st a i = (if st a = None then None else Some (st(a \<mapsto> Some i)))"

definition heap_left :: "nat \<Rightarrow> nat" where
  "heap_left pos = pos * 2 + 1"

definition heap_right :: "nat \<Rightarrow> nat" where
  "heap_right pos = pos * 2 + 2"

text \<open>The result is narrowed to \<open>int32_t\<close> and widened again to \<open>size_t\<close> by the callers.\<close>

definition heap_parent :: "nat \<Rightarrow> nat" where
  "heap_parent pos = unat (scast (ucast (drop_bit 1 (of_nat pos - 1 :: u64)) :: 32 word) :: u64)"

text \<open>Storing a node at a position and telling it where it is.\<close>

definition heap_put :: "heap_state \<Rightarrow> nat \<Rightarrow> HeapNode \<Rightarrow> heap_state option" where
  "heap_put s pos n =
     (if pos < length (fst s)
      then map_option (Pair ((fst s)[pos := n])) (write_idx (snd s) (pos_ref n) pos) else None)"

partial_function (option) heap_up_loop :: "HeapNode \<Rightarrow> heap_state \<Rightarrow> nat \<Rightarrow> heap_state option" where
  "heap_up_loop node s pos =
     (if pos > 0 then
        let parent = heap_parent pos in
        if parent < length (fst s) then
          if hn_val node \<le> hn_val (fst s ! parent) then do {
            s \<leftarrow> heap_put s pos (fst s ! parent);
            heap_up_loop node s parent
          }
          else heap_put s pos node
        else None
      else heap_put s pos node)"

definition heap_up :: "heap_state \<Rightarrow> nat \<Rightarrow> heap_state option" where
  "heap_up s pos = (if pos < length (fst s) then heap_up_loop (fst s ! pos) s pos else None)"

function heap_down_loop :: "HeapNode \<Rightarrow> heap_state \<Rightarrow> nat \<Rightarrow> heap_state option" where
  "heap_down_loop node s pos =
     (if pos < length (fst s) then
        let left_ch = heap_left pos;
            right_ch = heap_right pos;
            size = length (fst s);
            min_val = hn_val node;
            min_val = (if left_ch < size then min min_val (hn_val (fst s ! left_ch)) else min_val);
            min_val = (if right_ch < size then min min_val (hn_val (fst s ! right_ch)) else min_val)
        in
        if hn_val node = min_val then heap_put s pos node
        else
          let next_pos = left_ch;
              next_pos = (if right_ch < size \<and> hn_val (fst s ! right_ch) < hn_val (fst s ! left_ch)
                          then left_ch else next_pos)
          in
          if next_pos < size then
            (case heap_put s pos (fst s ! next_pos) of
               None \<Rightarrow> None
             | Some s' \<Rightarrow> heap_down_loop node s' next_pos)
          else None
      else heap_put s pos node)"
  by pat_completeness auto
termination
  by (relation "measure (\<lambda>(_, s, pos). length (fst s) - pos)")
     (auto simp: heap_put_def heap_left_def Let_def split: if_splits)

definition heap_down :: "heap_state \<Rightarrow> nat \<Rightarrow> heap_state option" where
  "heap_down s pos = (if pos < length (fst s) then heap_down_loop (fst s ! pos) s pos else None)"

definition heap_fix :: "heap_state \<Rightarrow> nat \<Rightarrow> heap_state option" where
  "heap_fix s pos =
     (if pos < length (fst s) then
        let parent_pos = heap_parent pos in
        if pos > 0 \<and> \<not> parent_pos < length (fst s) then None
        else if pos > 0 \<and> hn_val (fst s ! parent_pos) > hn_val (fst s ! pos) then heap_up s pos
        else heap_down s pos
      else None)"

text \<open>\<open>set_ttl\<close> of \<open>server.cpp\<close>, with the clock reading as an argument.\<close>

definition set_ttl :: "u64 \<Rightarrow> heap_state \<Rightarrow> addr \<Rightarrow> u64 \<Rightarrow> heap_state option" where
  "set_ttl now s node ttl =
     heap_fix (fst s @ [\<lparr>hn_val = now + ttl, pos_ref = node\<rparr>], snd s) (length (fst s))"

text \<open>\<open>rem_ttl\<close> of \<open>server.cpp\<close>; reading a field that is freed or was never written is
  undefined.  The test \<open>heap_idx < 0\<close> on an unsigned field is never true.\<close>

definition rem_ttl :: "heap_state \<Rightarrow> addr \<Rightarrow> heap_state option" where
  "rem_ttl s node =
     (case snd s node of
        Some (Some i) \<Rightarrow>
          if i \<ge> length (fst s) then Some s
          else
            let h = butlast ((fst s)[i := last (fst s)]) in
            if i < length h then heap_fix (h, snd s) i else Some (h, snd s)
      | _ \<Rightarrow> None)"

section \<open>Invariants\<close>

text \<open>No deadline is earlier than that of its parent.\<close>

definition min_heap :: "HeapNode list \<Rightarrow> bool" where
  "min_heap h \<longleftrightarrow> (\<forall>i < length h. 0 < i \<longrightarrow> hn_val (h ! ((i - 1) div 2)) \<le> hn_val (h ! i))"

text \<open>Every heap node's owner knows its position, and no owner has two heap nodes.\<close>

definition refs_ok :: "heap_state \<Rightarrow> bool" where
  "refs_ok s \<longleftrightarrow> distinct (map pos_ref (fst s)) \<and>
     (\<forall>i < length (fst s). snd s (pos_ref (fst s ! i)) = Some (Some i))"

text \<open>The same invariants while the node at \<open>pos\<close> is being sifted.\<close>

definition refs_hole :: "HeapNode \<Rightarrow> heap_state \<Rightarrow> nat \<Rightarrow> bool" where
  "refs_hole node s pos \<longleftrightarrow> pos < length (fst s) \<and> distinct (map pos_ref ((fst s)[pos := node]))
     \<and> (\<forall>i < length (fst s). i \<noteq> pos \<longrightarrow> snd s (pos_ref (fst s ! i)) = Some (Some i))
     \<and> snd s (pos_ref node) \<noteq> None"

definition except_up :: "HeapNode list \<Rightarrow> nat \<Rightarrow> bool" where
  "except_up h pos \<longleftrightarrow> (\<forall>i < length h. 0 < i \<longrightarrow>
     (i \<noteq> pos \<longrightarrow> hn_val (h ! ((i - 1) div 2)) \<le> hn_val (h ! i))
     \<and> ((i - 1) div 2 = pos \<and> 0 < pos \<longrightarrow> hn_val (h ! ((pos - 1) div 2)) \<le> hn_val (h ! i)))"

section \<open>Sifting\<close>

declare heap_down_loop.simps [simp del]

lemma parent_less: "0 < k \<Longrightarrow> (k - 1) div 2 < (k :: nat)"
  by linarith

lemma heap_parent_eq:
  assumes "0 < pos" and "pos \<le> 2 ^ 32"
  shows "heap_parent pos = (pos - 1) div 2"
proof -
  define k where "k = (pos - 1) div 2"
  obtain m where m: "pos = Suc m" using assms(1) by (cases pos) auto
  have k: "k < 2 ^ 31" using assms by (auto simp: k_def)
  have "of_nat pos - 1 = (of_nat m :: u64)"
    by (simp add: m)
  moreover have "unat (of_nat m :: u64) = pos - 1"
    using assms by (simp add: m unat_of_nat take_bit_nat_eq_self)
  moreover have "unat (of_nat k :: u64) = k"
    using k by (simp add: unat_of_nat take_bit_nat_eq_self)
  ultimately have "drop_bit 1 (of_nat pos - 1 :: u64) = of_nat k"
    by (intro unsigned_word_eqI [where ?'a = nat]) (simp add: unat_drop_bit_eq drop_bit_eq_div k_def unat_div)
  moreover have "ucast (of_nat k :: u64) = (of_nat k :: 32 word)"
    using k by (intro unsigned_word_eqI [where ?'a = nat])
      (simp add: unsigned_ucast_eq unat_of_nat take_bit_nat_eq_self)
  moreover have "uint (of_nat k :: 32 word) = int k"
    using k by (simp add: unsigned_of_nat take_bit_nat_eq_self)
  then have "sint (of_nat k :: 32 word) = int k"
    using k by (simp add: sint_uint signed_take_bit_int_eq_self)
  ultimately show ?thesis
    using k k_def by (simp add: heap_parent_def scast_eq unat_of_nat take_bit_nat_eq_self)
qed

lemma refs_hole_distinct:
  assumes "refs_hole node s pos" and "i < length (fst s)" and "i \<noteq> pos"
  shows "pos_ref (fst s ! i) \<noteq> pos_ref node"
    and "j < length (fst s) \<Longrightarrow> j \<noteq> pos \<Longrightarrow> i \<noteq> j \<Longrightarrow> pos_ref (fst s ! i) \<noteq> pos_ref (fst s ! j)"
proof -
  have d: "\<And>i j. i < length (fst s) \<Longrightarrow> j < length (fst s) \<Longrightarrow> i \<noteq> j \<Longrightarrow>
      pos_ref ((fst s)[pos := node] ! i) \<noteq> pos_ref ((fst s)[pos := node] ! j)"
    using assms(1) by (simp add: refs_hole_def distinct_conv_nth)
  show "pos_ref (fst s ! i) \<noteq> pos_ref node"
    using d [of i pos] assms by (simp add: refs_hole_def)
  show "pos_ref (fst s ! i) \<noteq> pos_ref (fst s ! j)" if "j < length (fst s)" "j \<noteq> pos" "i \<noteq> j"
    using d [of i j] assms that by simp
qed

lemma heap_put_final:
  assumes "refs_hole node s pos"
  shows "\<exists>st. heap_put s pos node = Some ((fst s)[pos := node], st) \<and> refs_ok ((fst s)[pos := node], st)
     \<and> (\<forall>a. a \<notin> pos_ref ` set ((fst s)[pos := node]) \<longrightarrow> st a = snd s a)"
proof -
  let ?st = "(snd s)(pos_ref node \<mapsto> Some pos)"
  have "refs_ok ((fst s)[pos := node], ?st)"
    using assms refs_hole_distinct(1) [OF assms]
    by (auto simp: refs_ok_def refs_hole_def nth_list_update)
  moreover have "node \<in> set ((fst s)[pos := node])"
    using assms by (auto simp: refs_hole_def set_update_memI)
  ultimately show ?thesis
    using assms by (auto simp: heap_put_def write_idx_def refs_hole_def)
qed

lemma heap_put_move:
  assumes "refs_hole node s pos" and "j < length (fst s)" and "j \<noteq> pos"
  shows "\<exists>st. heap_put s pos (fst s ! j) = Some ((fst s)[pos := fst s ! j], st)
     \<and> refs_hole node ((fst s)[pos := fst s ! j], st) j
     \<and> mset ((fst s)[pos := fst s ! j, j := node]) = mset ((fst s)[pos := node])
     \<and> (\<forall>a. a \<notin> pos_ref ` set ((fst s)[pos := node]) \<longrightarrow> st a = snd s a)"
proof -
  let ?h = "fst s" and ?st = "(snd s)(pos_ref (fst s ! j) \<mapsto> Some pos)"
  have swap: "?h[pos := ?h ! j, j := node] = (?h[pos := node])[pos := (?h[pos := node]) ! j, j := (?h[pos := node]) ! pos]"
    using assms by (auto simp: refs_hole_def list_update_swap intro!: nth_equalityI simp: nth_list_update)
  have ms: "mset (?h[pos := ?h ! j, j := node]) = mset (?h[pos := node])"
    unfolding swap using assms by (intro mset_swap) (auto simp: refs_hole_def)
  then have d: "distinct (map pos_ref (?h[pos := ?h ! j, j := node]))"
    using assms(1) by (metis mset_eq_imp_distinct_iff mset_map refs_hole_def)
  have ne: "i = j" if "i < length ?h" "i \<noteq> pos" "pos_ref (?h ! i) = pos_ref (?h ! j)" for i
    using refs_hole_distinct(2) [OF assms, of i] that by metis
  have "pos_ref (?h ! j) \<noteq> pos_ref node"
    using refs_hole_distinct(1) [OF assms] .
  then have "refs_hole node (?h[pos := ?h ! j], ?st) j"
    using assms d ne by (auto simp: refs_hole_def nth_list_update)
  moreover have "?h ! j \<in> set (?h[pos := node])"
    using assms by (metis length_list_update nth_list_update_neq nth_mem)
  ultimately show ?thesis
    using assms ms by (auto simp: heap_put_def write_idx_def refs_hole_def)
qed

lemma except_up_stop:
  assumes "except_up h pos" and "pos < length h" and "0 < pos \<longrightarrow> hn_val (h ! ((pos - 1) div 2)) \<le> hn_val (h ! pos)"
  shows "min_heap h"
  using assms by (auto simp: except_up_def min_heap_def)

lemma except_up_step:
  assumes "except_up (h[pos := node]) pos" and "pos < length h" and "0 < pos"
    and "hn_val node \<le> hn_val (h ! ((pos - 1) div 2))"
  shows "except_up (h[pos := h ! ((pos - 1) div 2), (pos - 1) div 2 := node]) ((pos - 1) div 2)"
proof -
  let ?p = "(pos - 1) div 2"
  have p: "?p < pos" "?p \<noteq> pos" using assms(3) by auto
  have *: "hn_val (h[pos := node] ! ((i - 1) div 2)) \<le> hn_val (h[pos := node] ! i)"
    if "i < length h" "0 < i" "i \<noteq> pos" for i
    using assms(1) that by (auto simp: except_up_def)
  have **: "hn_val (h ! ?p) \<le> hn_val (h[pos := node] ! i)"
    if "i < length h" "0 < i" "(i - 1) div 2 = pos" for i
    using assms(1,3) that p by (auto simp: except_up_def)
  have up: "hn_val (h ! ((i - 1) div 2)) \<le> hn_val (if i = pos then h ! ?p else h ! i)"
    if "i < length h" "0 < i" "(i - 1) div 2 \<noteq> pos" for i
    using * [of i] that by (cases "i = pos") auto
  show ?thesis
    unfolding except_up_def
  proof (intro allI impI conjI)
    fix i assume i: "i < length (h[pos := h ! ?p, ?p := node])" "0 < i"
    { assume ip: "i \<noteq> ?p"
      show "hn_val (h[pos := h ! ?p, ?p := node] ! ((i - 1) div 2)) \<le> hn_val (h[pos := h ! ?p, ?p := node] ! i)"
      proof (cases "i = pos")
        case True
        then show ?thesis using assms p ip by (simp add: nth_list_update)
      next
        case False
        then show ?thesis
          using * [of i] ** [of i] assms(2,4) p ip i by (auto simp: nth_list_update split: if_splits)
      qed }
    { assume g: "(i - 1) div 2 = ?p \<and> 0 < ?p"
      have "?p < i" and g2: "(?p - 1) div 2 < ?p" using g i(2) parent_less by (metis, blast)
      then have e1: "h[pos := h ! ?p, ?p := node] ! i = (if i = pos then h ! ?p else h ! i)"
        and e2: "h[pos := h ! ?p, ?p := node] ! ((?p - 1) div 2) = h ! ((?p - 1) div 2)"
        using p i(1) by (simp_all add: nth_list_update)
      have c: "hn_val (h ! ?p) \<le> hn_val (if i = pos then h ! ?p else h ! i)"
        using up [of i] g p i by (cases "i = pos") auto
      have d: "hn_val (h ! ((?p - 1) div 2)) \<le> hn_val (h ! ?p)"
        using up [of ?p] g2 g p assms(2) by simp
      show "hn_val (h[pos := h ! ?p, ?p := node] ! ((?p - 1) div 2)) \<le> hn_val (h[pos := h ! ?p, ?p := node] ! i)"
        unfolding e1 e2 using d c by (rule order_trans) }
  qed
qed

lemma heap_up_loop_spec:
  assumes "refs_hole node s pos" and "length (fst s) \<le> 2 ^ 32"
  shows "\<exists>s'. heap_up_loop node s pos = Some s' \<and> refs_ok s' \<and> mset (fst s') = mset ((fst s)[pos := node])
     \<and> (except_up ((fst s)[pos := node]) pos \<longrightarrow> min_heap (fst s'))
     \<and> (\<forall>a. a \<notin> pos_ref ` set ((fst s)[pos := node]) \<longrightarrow> snd s' a = snd s a)"
  using assms
proof (induction pos arbitrary: s rule: less_induct)
  case (less pos)
  let ?p = "(pos - 1) div 2"
  have pos: "pos < length (fst s)" using less.prems by (simp add: refs_hole_def)
  show ?case
  proof (cases "0 < pos \<and> hn_val node \<le> hn_val (fst s ! ?p)")
    case True
    then have p: "?p < pos" "heap_parent pos = ?p"
      using less.prems(2) pos heap_parent_eq [of pos] parent_less by auto
    from heap_put_move [OF less.prems(1), of ?p] p pos obtain st where
      mv: "heap_put s pos (fst s ! ?p) = Some ((fst s)[pos := fst s ! ?p], st)"
        "refs_hole node ((fst s)[pos := fst s ! ?p], st) ?p"
        "mset ((fst s)[pos := fst s ! ?p, ?p := node]) = mset ((fst s)[pos := node])"
        "\<forall>a. a \<notin> pos_ref ` set ((fst s)[pos := node]) \<longrightarrow> st a = snd s a"
      by auto
    have same: "set ((fst s)[pos := fst s ! ?p, ?p := node]) = set ((fst s)[pos := node])"
      using mv(3) by (rule mset_eq_setD)
    from less.IH [OF p(1) mv(2)] less.prems(2) obtain s' where
      IH: "heap_up_loop node ((fst s)[pos := fst s ! ?p], st) ?p = Some s'" "refs_ok s'"
        "mset (fst s') = mset ((fst s)[pos := fst s ! ?p, ?p := node])"
        "except_up ((fst s)[pos := fst s ! ?p, ?p := node]) ?p \<longrightarrow> min_heap (fst s')"
        "\<forall>a. a \<notin> pos_ref ` set ((fst s)[pos := fst s ! ?p, ?p := node]) \<longrightarrow> snd s' a = st a"
      by auto
    have "heap_up_loop node s pos = Some s'"
      using True p pos mv(1) IH(1) by (subst heap_up_loop.simps) (simp add: Let_def)
    then show ?thesis
      using IH(2-) mv(3,4) same except_up_step [of "fst s" pos node] True pos by auto
  next
    case False
    have "heap_up_loop node s pos = heap_put s pos node"
      using False pos less.prems(2) heap_parent_eq [of pos] parent_less [of pos]
      by (subst heap_up_loop.simps) (auto simp: Let_def)
    moreover have "min_heap ((fst s)[pos := node])" if "except_up ((fst s)[pos := node]) pos"
      using False pos parent_less [of pos] by (intro except_up_stop [OF that]) auto
    ultimately show ?thesis
      using heap_put_final [OF less.prems(1)] by auto
  qed
qed

lemma heap_down_loop_spec:
  assumes "refs_hole node s pos"
  shows "\<exists>s'. heap_down_loop node s pos = Some s' \<and> refs_ok s' \<and> mset (fst s') = mset ((fst s)[pos := node])
     \<and> (\<forall>a. a \<notin> pos_ref ` set ((fst s)[pos := node]) \<longrightarrow> snd s' a = snd s a)"
  using assms
proof (induction "length (fst s) - pos" arbitrary: s pos rule: less_induct)
  case less
  let ?l = "heap_left pos" and ?n = "length (fst s)"
  have pos: "pos < ?n" using less.prems by (simp add: refs_hole_def)
  show ?case
  proof (cases "heap_down_loop node s pos = heap_put s pos node")
    case True
    then show ?thesis using heap_put_final [OF less.prems] by auto
  next
    case False
    then have l: "?l < ?n" "pos < ?l"
      using pos by (auto simp: heap_down_loop.simps [of node s pos] Let_def heap_left_def heap_right_def split: if_splits)
    from heap_put_move [OF less.prems l(1)] l(2) obtain st where
      mv: "heap_put s pos (fst s ! ?l) = Some ((fst s)[pos := fst s ! ?l], st)"
        "refs_hole node ((fst s)[pos := fst s ! ?l], st) ?l"
        "mset ((fst s)[pos := fst s ! ?l, ?l := node]) = mset ((fst s)[pos := node])"
        "\<forall>a. a \<notin> pos_ref ` set ((fst s)[pos := node]) \<longrightarrow> st a = snd s a"
      by auto
    have same: "set ((fst s)[pos := fst s ! ?l, ?l := node]) = set ((fst s)[pos := node])"
      using mv(3) by (rule mset_eq_setD)
    have "heap_down_loop node s pos = heap_down_loop node ((fst s)[pos := fst s ! ?l], st) ?l"
      using False pos l mv(1) by (auto simp: heap_down_loop.simps [of node s pos] Let_def split: if_splits)
    then show ?thesis
      using less.hyps [OF _ mv(2)] l mv(3,4) same by auto
  qed
qed

lemma refs_ok_hole: "refs_ok s \<Longrightarrow> pos < length (fst s) \<Longrightarrow> refs_hole (fst s ! pos) s pos"
  by (auto simp: refs_ok_def refs_hole_def)

lemma heap_fix_spec:
  assumes "refs_hole (fst s ! pos) s pos" and "length (fst s) \<le> 2 ^ 32"
  shows "\<exists>s'. heap_fix s pos = Some s' \<and> refs_ok s' \<and> mset (fst s') = mset (fst s)
     \<and> (\<forall>a. a \<notin> pos_ref ` set (fst s) \<longrightarrow> snd s' a = snd s a)"
proof -
  have pos: "pos < length (fst s)" using assms by (simp add: refs_hole_def)
  then have "heap_parent pos < length (fst s)" if "0 < pos"
    using that assms(2) heap_parent_eq [of pos] parent_less [of pos] by auto
  then have "heap_fix s pos \<in> {heap_up s pos, heap_down s pos}"
    using pos by (auto simp: heap_fix_def Let_def)
  then show ?thesis
    using heap_up_loop_spec [OF assms] heap_down_loop_spec [OF assms(1)] pos
    by (auto simp: heap_up_def heap_down_def)
qed

lemma min_heap_root:
  "min_heap h \<Longrightarrow> i < length h \<Longrightarrow> hn_val (h ! 0) \<le> hn_val (h ! i)"
proof (induction i rule: less_induct)
  case (less i)
  show ?case
  proof (cases "i = 0")
    case False
    then have "hn_val (h ! 0) \<le> hn_val (h ! ((i - 1) div 2))"
      using less parent_less [of i] by auto
    also have "\<dots> \<le> hn_val (h ! i)"
      using less.prems False by (auto simp: min_heap_def)
    finally show ?thesis .
  qed simp
qed

lemma refs_hole_push:
  assumes "refs_ok s" and "a \<notin> pos_ref ` set (fst s)" and "snd s a \<noteq> None"
  shows "refs_hole \<lparr>hn_val = v, pos_ref = a\<rparr> (fst s @ [\<lparr>hn_val = v, pos_ref = a\<rparr>], snd s) (length (fst s))"
  using assms by (auto simp: refs_ok_def refs_hole_def nth_append)

lemma set_ttl_spec:
  assumes refs: "refs_ok s" and new: "a \<notin> pos_ref ` set (fst s)" "snd s a \<noteq> None"
    and len: "length (fst s) < 2 ^ 32"
  shows "\<exists>s'. set_ttl now s a ttl = Some s' \<and> refs_ok s'
     \<and> mset (fst s') = add_mset \<lparr>hn_val = now + ttl, pos_ref = a\<rparr> (mset (fst s))
     \<and> (min_heap (fst s) \<longrightarrow> min_heap (fst s'))"
proof -
  let ?n = "\<lparr>hn_val = now + ttl, pos_ref = a\<rparr>" and ?k = "length (fst s)"
  let ?s = "(fst s @ [?n], snd s)"
  note hole = refs_hole_push [OF refs new, of "now + ttl"]
  have par: "0 < ?k \<Longrightarrow> heap_parent ?k = (?k - 1) div 2 \<and> (?k - 1) div 2 < ?k"
    using len heap_parent_eq [of ?k] parent_less [of ?k] by auto
  have old: "min_heap (fst s) \<Longrightarrow> except_up (fst s @ [?n]) ?k"
  proof -
    assume old: "min_heap (fst s)"
    show ?thesis
      unfolding except_up_def
    proof (intro allI impI)
      fix i assume i: "i < length (fst s @ [?n])" "0 < i"
      then have p: "(i - 1) div 2 < ?k"
        using parent_less [OF i(2)] by simp
      have "hn_val ((fst s @ [?n]) ! ((i - 1) div 2)) \<le> hn_val ((fst s @ [?n]) ! i)" if "i \<noteq> ?k"
        using old p i that by (simp add: min_heap_def nth_append)
      then show "(i \<noteq> ?k \<longrightarrow> hn_val ((fst s @ [?n]) ! ((i - 1) div 2)) \<le> hn_val ((fst s @ [?n]) ! i)) \<and>
          ((i - 1) div 2 = ?k \<and> 0 < ?k \<longrightarrow> hn_val ((fst s @ [?n]) ! ((?k - 1) div 2)) \<le> hn_val ((fst s @ [?n]) ! i))"
        using p by (metis less_irrefl_nat)
    qed
  qed
  show ?thesis
  proof (cases "0 < ?k \<and> hn_val (fst s ! ((?k - 1) div 2)) > now + ttl")
    case True
    then have "set_ttl now s a ttl = heap_up_loop ?n ?s ?k"
      using par by (simp add: set_ttl_def heap_fix_def heap_up_def Let_def nth_append)
    then show ?thesis
      using heap_up_loop_spec [OF hole] len old by auto
  next
    case False
    then have "set_ttl now s a ttl = heap_down_loop ?n ?s ?k"
      using par by (auto simp: set_ttl_def heap_fix_def heap_down_def Let_def nth_append)
    also have "\<dots> = heap_put ?s ?k ?n"
      by (simp add: heap_down_loop.simps [of ?n ?s ?k] heap_left_def heap_right_def Let_def)
    finally obtain st where "set_ttl now s a ttl = Some (fst s @ [?n], st)" "refs_ok (fst s @ [?n], st)"
      using heap_put_final [OF hole] by auto
    moreover have "min_heap (fst s @ [?n])" if "min_heap (fst s)"
      using False par parent_less by (intro except_up_stop [OF old [OF that]]) (auto simp: nth_append)
    ultimately show ?thesis by auto
  qed
qed

lemma butlast_update_last:
  assumes "i < length xs"
  shows "add_mset (xs ! i) (mset (butlast (xs[i := last xs]))) = mset xs"
proof (cases xs rule: rev_cases)
  case (snoc ys z)
  show ?thesis
  proof (cases "i = length ys")
    case False
    then have "i < length ys" using assms snoc by simp
    then show ?thesis
      using snoc by (simp add: list_update_append1 butlast_append nth_append mset_update)
  qed (use snoc in simp)
qed (use assms in simp)

lemma nth_butlast_update:
  assumes "i < length xs" and "j < length xs - 1"
  shows "butlast (xs[i := last xs]) ! j = (if j = i then last xs else xs ! j)"
  using assms by (simp add: nth_butlast nth_list_update)

lemma rem_ttl_spec:
  assumes refs: "refs_ok s" and i: "i < length (fst s)" and idx: "snd s a = Some (Some i)"
    and len: "length (fst s) \<le> 2 ^ 32"
  shows "\<exists>s'. rem_ttl s a = Some s' \<and> refs_ok s' \<and> add_mset (fst s ! i) (mset (fst s')) = mset (fst s)
     \<and> snd s' (pos_ref (fst s ! i)) = Some (Some i)"
proof -
  define h where "h = butlast ((fst s)[i := last (fst s)])"
  define b where "b = pos_ref (fst s ! i)"
  have idb: "snd s b = Some (Some i)" using refs i by (auto simp: refs_ok_def b_def)
  have ms: "add_mset (fst s ! i) (mset h) = mset (fst s)" unfolding h_def by (rule butlast_update_last [OF i])
  then have "add_mset b (mset (map pos_ref h)) = mset (map pos_ref (fst s))"
    unfolding b_def by (metis image_mset_add_mset mset_map)
  then have d: "distinct (b # map pos_ref h)"
    using refs by (metis mset.simps(2) mset_eq_imp_distinct_iff refs_ok_def)
  have lh: "length h = length (fst s) - 1" by (simp add: h_def)
  have nth: "h ! j = (if j = i then last (fst s) else fst s ! j)" if "j < length h" for j
    using nth_butlast_update [OF i, of j] that lh by (simp add: h_def)
  show ?thesis
  proof (cases "i < length h")
    case True
    have "last (fst s) = fst s ! (length (fst s) - 1)"
      using i by (intro last_conv_nth) auto
    then have "snd s (pos_ref (h ! i)) \<noteq> None"
      using nth [OF True] refs i by (auto simp: refs_ok_def)
    moreover have "snd s (pos_ref (h ! j)) = Some (Some j)" if "j < length h" "j \<noteq> i" for j
      using nth [OF that(1)] that refs lh by (simp add: refs_ok_def)
    ultimately have "refs_hole (fst (h, snd s) ! i) (h, snd s) i"
      using True d by (simp add: refs_hole_def)
    moreover have "length (fst (h, snd s)) \<le> 2 ^ 32"
      using len lh by simp
    ultimately obtain s' where
      s': "heap_fix (h, snd s) i = Some s'" "refs_ok s'" "mset (fst s') = mset h"
        "\<forall>b. b \<notin> pos_ref ` set h \<longrightarrow> snd s' b = snd s b"
      using heap_fix_spec by fastforce
    moreover have "rem_ttl s a = Some s'"
      using idx i True s'(1) by (simp add: rem_ttl_def Let_def h_def)
    ultimately show ?thesis using ms d idb by (auto simp: b_def)
  next
    case False
    then have "refs_ok (h, snd s)"
      using d nth refs lh by (simp add: refs_ok_def)
    then show ?thesis
      using False idx idb i ms by (auto simp: rem_ttl_def Let_def h_def b_def)
  qed
qed

section \<open>Properties\<close>

text \<open>C21: giving a key a deadline: \<open>set_ttl\<close> on a key that has none yet returns normally (the
  sift-up loop terminates inside the vector), adds exactly that deadline, keeps every
  owner's \<open>heap_idx\<close> equal to the position of its heap node, and keeps the heap ordered, so
  that the first element is the earliest deadline.\<close>

theorem set_ttl_keeps_heap:
  assumes "refs_ok s" and "min_heap (fst s)" and "a \<notin> pos_ref ` set (fst s)" and "snd s a \<noteq> None"
    and "length (fst s) < 2 ^ 32"
  shows "\<exists>h st. set_ttl now s a ttl = Some (h, st) \<and> refs_ok (h, st) \<and> min_heap h
     \<and> mset h = add_mset \<lparr>hn_val = now + ttl, pos_ref = a\<rparr> (mset (fst s))
     \<and> (\<forall>x \<in> set h. hn_val (h ! 0) \<le> hn_val x)"
  using set_ttl_spec [OF assms(1,3-5), of now ttl] assms(2) min_heap_root
  by (fastforce simp: in_set_conv_nth)

theorem set_ttl_keeps_heap_witness:
  "\<exists>h st. set_ttl 100 ([\<lparr>hn_val = 250, pos_ref = 7\<rparr>], [7 \<mapsto> Some 0, 8 \<mapsto> None]) 8 50 = Some (h, st)
     \<and> min_heap h \<and> refs_ok (h, st)"
  using set_ttl_keeps_heap [of "([\<lparr>hn_val = 250, pos_ref = 7\<rparr>], [7 \<mapsto> Some 0, 8 \<mapsto> None])" 8 100 50]
  by (auto simp: refs_ok_def min_heap_def)

text \<open>\<open>heap_fix\<close> at any position always returns, never leaves the vector, keeps exactly the
  same deadlines, and leaves every owner's \<open>heap_idx\<close> equal to its new position, whichever
  way the node was sifted and even if its own \<open>heap_idx\<close> was stale before.\<close>

lemma heap_fix_permutes:
  assumes "refs_hole (fst s ! pos) s pos" and "length (fst s) \<le> 2 ^ 32"
  shows "\<exists>s'. heap_fix s pos = Some s' \<and> refs_ok s' \<and> mset (fst s') = mset (fst s)"
  using heap_fix_spec [OF assms] by blast

lemma heap_fix_permutes_witness:
  "\<exists>s'. heap_fix ([\<lparr>hn_val = 9, pos_ref = 7\<rparr>, \<lparr>hn_val = 3, pos_ref = 8\<rparr>], [7 \<mapsto> Some 5, 8 \<mapsto> Some 1]) 0 = Some s'
     \<and> refs_ok s'"
proof -
  have "refs_hole \<lparr>hn_val = 9, pos_ref = 7\<rparr>
      ([\<lparr>hn_val = 9, pos_ref = 7\<rparr>, \<lparr>hn_val = 3, pos_ref = 8\<rparr>], [7 \<mapsto> Some 5, 8 \<mapsto> Some 1]) 0"
    by (auto simp: refs_hole_def nth_Cons')
  then show ?thesis
    using heap_fix_permutes [of "([\<lparr>hn_val = 9, pos_ref = 7\<rparr>, \<lparr>hn_val = 3, pos_ref = 8\<rparr>], [7 \<mapsto> Some 5, 8 \<mapsto> Some 1])" 0]
    by auto
qed

text \<open>\<open>rem_ttl\<close> on a key whose \<open>heap_idx\<close> is in range removes exactly one heap node, the one
  at that index, and keeps all remaining owners' indices right.\<close>

lemma rem_ttl_removes_one:
  assumes "refs_ok s" and "i < length (fst s)" and "snd s a = Some (Some i)" and "length (fst s) \<le> 2 ^ 32"
  shows "\<exists>s'. rem_ttl s a = Some s' \<and> refs_ok s' \<and> add_mset (fst s ! i) (mset (fst s')) = mset (fst s)"
  using rem_ttl_spec [OF assms] by blast

lemma rem_ttl_removes_one_witness:
  "\<exists>s'. rem_ttl ([\<lparr>hn_val = 3, pos_ref = 7\<rparr>], [7 \<mapsto> Some 0]) 7 = Some s' \<and> fst s' = []"
  using rem_ttl_removes_one [of "([\<lparr>hn_val = 3, pos_ref = 7\<rparr>], [7 \<mapsto> Some 0])" 0 7]
  by (auto simp: refs_ok_def)

text \<open>\<open>rem_ttl\<close> does not reset the \<open>heap_idx\<close> of the key it serves, so removing the deadline
  of the same key a second time removes the deadline of another key, whenever the removed
  node was not the last one of the vector.\<close>

lemma rem_ttl_twice_removes_another:
  assumes "refs_ok s" and "i + 1 < length (fst s)" and "pos_ref (fst s ! i) = a" and "length (fst s) \<le> 2 ^ 32"
  shows "\<exists>s' s'' n. rem_ttl s a = Some s' \<and> rem_ttl s' a = Some s'' \<and> n \<in> set (fst s) \<and> pos_ref n \<noteq> a
     \<and> add_mset n (add_mset (fst s ! i) (mset (fst s''))) = mset (fst s)"
proof -
  have "snd s a = Some (Some i)" using assms by (auto simp: refs_ok_def)
  from rem_ttl_spec [OF assms(1) _ this assms(4)] assms(2,3) obtain s' where
    s': "rem_ttl s a = Some s'" "refs_ok s'" "add_mset (fst s ! i) (mset (fst s')) = mset (fst s)"
      "snd s' a = Some (Some i)"
    by auto
  then have "Suc (length (fst s')) = length (fst s)" by (metis size_add_mset size_mset)
  with assms(2,4) have i: "i < length (fst s')" and len: "length (fst s') \<le> 2 ^ 32" by auto
  from rem_ttl_spec [OF s'(2) i s'(4) len] obtain s'' where
    s'': "rem_ttl s' a = Some s''" "add_mset (fst s' ! i) (mset (fst s'')) = mset (fst s')"
    by auto
  have "mset (map pos_ref (fst s)) = mset (a # map pos_ref (fst s'))"
    using s'(3) assms(3) by (metis image_mset_add_mset mset_map mset.simps(2))
  then have "distinct (a # map pos_ref (fst s'))"
    using assms(1) by (metis mset_eq_imp_distinct_iff refs_ok_def)
  then have "pos_ref (fst s' ! i) \<noteq> a" using i by auto
  moreover have "fst s' ! i \<in># mset (fst s)"
    using i unfolding s'(3) [symmetric] by simp
  ultimately show ?thesis
    using s'(1,3) s'' by (intro exI [of _ s'] exI [of _ s''] exI [of _ "fst s' ! i"]) (auto simp: add_mset_commute)
qed

lemma rem_ttl_twice_removes_another_witness:
  "\<exists>s' s''. rem_ttl ([\<lparr>hn_val = 3, pos_ref = 7\<rparr>, \<lparr>hn_val = 4, pos_ref = 8\<rparr>], [7 \<mapsto> Some 0, 8 \<mapsto> Some 1]) 7 = Some s'
     \<and> rem_ttl s' 7 = Some s'' \<and> fst s'' = []"
proof -
  let ?s = "([\<lparr>hn_val = 3, pos_ref = 7\<rparr>, \<lparr>hn_val = 4, pos_ref = 8\<rparr>], [7 \<mapsto> Some 0, 8 \<mapsto> Some 1]) :: heap_state"
  have "refs_ok ?s" by (auto simp: refs_ok_def nth_Cons')
  from rem_ttl_twice_removes_another [OF this, of 0 7] obtain s' s'' n where
    "rem_ttl ?s 7 = Some s'" "rem_ttl s' 7 = Some s''" "add_mset n (add_mset (fst ?s ! 0) (mset (fst s''))) = mset (fst ?s)"
    by auto
  moreover from this(3) have "size (add_mset n (add_mset (fst ?s ! 0) (mset (fst s'')))) = 2"
    by simp
  ultimately show ?thesis by (cases s'') auto
qed

text \<open>C38: sifting down always descends to the left child, even when the right one is smaller:
  removing the earliest deadline from a correctly ordered heap of four can leave a heap
  whose first element is not the earliest deadline.\<close>

theorem rem_ttl_breaks_order:
  "\<exists>s s'. refs_ok s \<and> min_heap (fst s) \<and> rem_ttl s 1 = Some s'
     \<and> map hn_val (fst s) = [10, 40, 20, 50] \<and> map hn_val (fst s') = [40, 50, 20] \<and> \<not> min_heap (fst s')"
proof -
  let ?s = "([\<lparr>hn_val = 10, pos_ref = 1\<rparr>, \<lparr>hn_val = 40, pos_ref = 2\<rparr>, \<lparr>hn_val = 20, pos_ref = 3\<rparr>,
      \<lparr>hn_val = 50, pos_ref = 4\<rparr>], [1 \<mapsto> Some 0, 2 \<mapsto> Some 1, 3 \<mapsto> Some 2, 4 \<mapsto> Some 3]) :: heap_state"
  let ?s' = "([\<lparr>hn_val = 40, pos_ref = 2\<rparr>, \<lparr>hn_val = 50, pos_ref = 4\<rparr>, \<lparr>hn_val = 20, pos_ref = 3\<rparr>],
      [1 \<mapsto> Some 0, 2 \<mapsto> Some 0, 3 \<mapsto> Some 2, 4 \<mapsto> Some 1]) :: heap_state"
  have "refs_ok ?s" and "min_heap (fst ?s)"
    by (auto simp: refs_ok_def min_heap_def less_Suc_eq)
  moreover have "rem_ttl ?s 1 = Some ?s'"
    by (simp add: rem_ttl_def heap_fix_def heap_down_def heap_down_loop.simps heap_left_def heap_right_def
        heap_put_def write_idx_def Let_def fun_upd_twist)
  moreover have "\<not> min_heap (fst ?s')"
    by (auto simp: min_heap_def intro!: exI [of _ 2])
  ultimately show ?thesis by (intro exI [of _ ?s] exI [of _ ?s']) simp
qed

end
