(* ===== verification/Dlist.thy ===== *)
theory Dlist
  imports Prelude
begin

text \<open>
  Intrusive doubly linked lists (\<open>src/src/data_structures/dlist.cpp\<close>, \<open>dlist.h\<close>) on an
  explicit store of nodes, because the same operations serve the circular timeout lists
  with a sentinel and the NULL-terminated lists of the \<open>LPUSH\<close> family, and because what
  they guarantee depends on which nodes are linked where.
\<close>

section \<open>Definitions\<close>

record 'a DListNode =
  dprev :: ptr
  dnext :: ptr
  dval :: 'a

type_synonym 'a dstore = "addr \<rightharpoonup> 'a DListNode"

text \<open>\<open>node->next = p\<close> and \<open>node->prev = p\<close>\<close>

definition set_next :: "'a dstore \<Rightarrow> addr \<Rightarrow> ptr \<Rightarrow> 'a dstore option" where
  "set_next s a p = map_option (\<lambda>n. s(a \<mapsto> n\<lparr>dnext := p\<rparr>)) (s a)"

definition set_prev :: "'a dstore \<Rightarrow> addr \<Rightarrow> ptr \<Rightarrow> 'a dstore option" where
  "set_prev s a p = map_option (\<lambda>n. s(a \<mapsto> n\<lparr>dprev := p\<rparr>)) (s a)"

definition dlist_init :: "'a dstore \<Rightarrow> addr \<Rightarrow> 'a dstore option" where
  "dlist_init s node = do {
     s \<leftarrow> set_prev s node (Some node);
     set_next s node (Some node)
   }"

definition dlist_empty :: "'a dstore \<Rightarrow> addr \<Rightarrow> bool option" where
  "dlist_empty s node = do {
     n \<leftarrow> s node;
     Some (dnext n = Some node)
   }"

definition dlist_deatach :: "'a dstore \<Rightarrow> addr \<Rightarrow> 'a dstore option" where
  "dlist_deatach s node = do {
     n \<leftarrow> s node;
     let nxt = dnext n;
     let prv = dprev n;
     s \<leftarrow> (case prv of Some p \<Rightarrow> set_next s p nxt | None \<Rightarrow> Some s);
     (case nxt of Some x \<Rightarrow> set_prev s x prv | None \<Rightarrow> Some s)
   }"

definition dlist_insert_before :: "'a dstore \<Rightarrow> addr \<Rightarrow> addr \<Rightarrow> 'a dstore option" where
  "dlist_insert_before s target node = do {
     t \<leftarrow> s target;
     let prv = dprev t;
     s \<leftarrow> set_prev s target (Some node);
     s \<leftarrow> set_next s node (Some target);
     s \<leftarrow> set_prev s node prv;
     (case prv of Some p \<Rightarrow> set_next s p (Some node) | None \<Rightarrow> Some s)
   }"

definition dlist_insert_after :: "'a dstore \<Rightarrow> addr \<Rightarrow> addr \<Rightarrow> 'a dstore option" where
  "dlist_insert_after s target node = do {
     t \<leftarrow> s target;
     let nxt = dnext t;
     s \<leftarrow> set_next s target (Some node);
     s \<leftarrow> set_prev s node (Some target);
     s \<leftarrow> set_next s node nxt;
     (case nxt of Some x \<Rightarrow> set_prev s x (Some node) | None \<Rightarrow> Some s)
   }"

section \<open>What the store represents\<close>

definition nextof :: "'a dstore \<Rightarrow> addr \<Rightarrow> ptr" where
  "nextof s a = Option.bind (s a) dnext"

definition prevof :: "'a dstore \<Rightarrow> addr \<Rightarrow> ptr" where
  "prevof s a = Option.bind (s a) dprev"

text \<open>Consecutive nodes point at each other.\<close>

fun links :: "'a dstore \<Rightarrow> addr list \<Rightarrow> bool" where
  "links s (x # y # zs) \<longleftrightarrow> nextof s x = Some y \<and> prevof s y = Some x \<and> links s (y # zs)"
| "links s xs \<longleftrightarrow> True"

text \<open>A circular list with sentinel \<open>h\<close> and members \<open>xs\<close> in order.\<close>

definition ring :: "'a dstore \<Rightarrow> addr \<Rightarrow> addr list \<Rightarrow> bool" where
  "ring s h xs \<longleftrightarrow> distinct (h # xs) \<and> set (h # xs) \<subseteq> dom s \<and> links s (h # xs @ [h])"

text \<open>A NULL-terminated list.\<close>

definition chain :: "'a dstore \<Rightarrow> addr list \<Rightarrow> bool" where
  "chain s xs \<longleftrightarrow> distinct xs \<and> set xs \<subseteq> dom s \<and> links s xs
     \<and> (xs \<noteq> [] \<longrightarrow> prevof s (hd xs) = None \<and> nextof s (last xs) = None)"

section \<open>Links under updates\<close>

lemma links_append: "links s (xs @ y # zs) \<longleftrightarrow> links s (xs @ [y]) \<and> links s (y # zs)"
  by (induction s xs rule: links.induct) auto


lemma nextof_some [simp]: "s a = Some n \<Longrightarrow> nextof s a = dnext n"
  by (simp add: nextof_def)

lemma prevof_some [simp]: "s a = Some n \<Longrightarrow> prevof s a = dprev n"
  by (simp add: prevof_def)

lemma links_cong:
  "\<forall>x \<in> set (butlast xs). nextof s' x = nextof s x \<Longrightarrow> \<forall>x \<in> set (tl xs). prevof s' x = prevof s x \<Longrightarrow>
   links s' xs \<longleftrightarrow> links s xs"
  by (induction s xs rule: links.induct) auto

lemma set_next_spec:
  "a \<in> dom s \<Longrightarrow> \<exists>s'. set_next s a p = Some s' \<and> nextof s' = (nextof s)(a := p) \<and> prevof s' = prevof s \<and> dom s' = dom s"
  by (rule exI [of _ "s(a \<mapsto> (the (s a))\<lparr>dnext := p\<rparr>)"]) (auto simp: set_next_def fun_eq_iff nextof_def prevof_def)

lemma set_prev_spec:
  "a \<in> dom s \<Longrightarrow> \<exists>s'. set_prev s a p = Some s' \<and> prevof s' = (prevof s)(a := p) \<and> nextof s' = nextof s \<and> dom s' = dom s"
  by (rule exI [of _ "s(a \<mapsto> (the (s a))\<lparr>dprev := p\<rparr>)"]) (auto simp: set_prev_def fun_eq_iff nextof_def prevof_def)

lemma insert_before_links:
  assumes "target \<in> dom s" and "node \<in> dom s" and "node \<noteq> target" and "prevof s target \<noteq> Some node"
    and "\<And>p. prevof s target = Some p \<Longrightarrow> p \<in> dom s"
  shows "\<exists>s'. dlist_insert_before s target node = Some s' \<and> dom s' = dom s
     \<and> prevof s' = (prevof s)(target := Some node, node := prevof s target)
     \<and> nextof s' = (case prevof s target of Some p \<Rightarrow> (nextof s)(node := Some target, p := Some node)
                     | None \<Rightarrow> (nextof s)(node := Some target))"
proof -
  obtain t where t: "s target = Some t" using assms(1) by auto
  from set_prev_spec [of target s "Some node"] assms(1) obtain s1 where
    s1: "set_prev s target (Some node) = Some s1" "prevof s1 = (prevof s)(target := Some node)"
      "nextof s1 = nextof s" "dom s1 = dom s" by auto
  from set_next_spec [of node s1 "Some target"] assms(2) s1 obtain s2 where
    s2: "set_next s1 node (Some target) = Some s2" "nextof s2 = (nextof s)(node := Some target)"
      "prevof s2 = (prevof s)(target := Some node)" "dom s2 = dom s" by auto
  from set_prev_spec [of node s2 "dprev t"] assms(2) s2 obtain s3 where
    s3: "set_prev s2 node (dprev t) = Some s3" "nextof s3 = (nextof s)(node := Some target)"
      "prevof s3 = (prevof s)(target := Some node, node := dprev t)" "dom s3 = dom s" by auto
  show ?thesis
  proof (cases "dprev t")
    case None
    with t s1 s2 s3 show ?thesis by (simp add: dlist_insert_before_def)
  next
    case (Some p)
    with t assms(5) have "p \<in> dom s3" by (simp add: s3(4))
    from set_next_spec [OF this, of "Some node"] t Some s1 s2 s3 show ?thesis
      by (auto simp: dlist_insert_before_def)
  qed
qed

lemma insert_before_last_links:
  assumes "target \<in> dom s" and "node \<in> dom s" and "node \<noteq> target" and "prevof s target = Some node"
  shows "\<exists>s'. dlist_insert_before s target node = Some s' \<and> dom s' = dom s
     \<and> prevof s' = (prevof s)(target := Some node, node := Some node) \<and> nextof s' = (nextof s)(node := Some node)"
proof -
  obtain t n where t: "s target = Some t" "s node = Some n" using assms by auto
  with assms show ?thesis
    by (intro exI [of _ "s(target \<mapsto> t\<lparr>dprev := Some node\<rparr>, node \<mapsto> n\<lparr>dprev := Some node, dnext := Some node\<rparr>)"])
      (auto simp: dlist_insert_before_def set_prev_def set_next_def nextof_def prevof_def fun_eq_iff Let_def)
qed

lemma insert_after_links:
  assumes "target \<in> dom s" and "node \<in> dom s" and "node \<noteq> target"
    and "\<And>p. nextof s target = Some p \<Longrightarrow> p \<in> dom s"
  shows "\<exists>s'. dlist_insert_after s target node = Some s' \<and> dom s' = dom s
     \<and> nextof s' = (nextof s)(target := Some node, node := nextof s target)
     \<and> prevof s' = (case nextof s target of Some p \<Rightarrow> (prevof s)(node := Some target, p := Some node)
                     | None \<Rightarrow> (prevof s)(node := Some target))"
proof -
  obtain t where t: "s target = Some t" using assms(1) by auto
  from set_next_spec [of target s "Some node"] assms(1) obtain s1 where
    s1: "set_next s target (Some node) = Some s1" "nextof s1 = (nextof s)(target := Some node)"
      "prevof s1 = prevof s" "dom s1 = dom s" by auto
  from set_prev_spec [of node s1 "Some target"] assms(2) s1 obtain s2 where
    s2: "set_prev s1 node (Some target) = Some s2" "prevof s2 = (prevof s)(node := Some target)"
      "nextof s2 = (nextof s)(target := Some node)" "dom s2 = dom s" by auto
  from set_next_spec [of node s2 "dnext t"] assms(2) s2 obtain s3 where
    s3: "set_next s2 node (dnext t) = Some s3" "prevof s3 = (prevof s)(node := Some target)"
      "nextof s3 = (nextof s)(target := Some node, node := dnext t)" "dom s3 = dom s" by auto
  show ?thesis
  proof (cases "dnext t")
    case None
    with t s1 s2 s3 show ?thesis by (simp add: dlist_insert_after_def)
  next
    case (Some p)
    with t assms(4) have "p \<in> dom s3" by (simp add: s3(4))
    from set_prev_spec [OF this, of "Some node"] t Some s1 s2 s3 show ?thesis
      by (auto simp: dlist_insert_after_def)
  qed
qed

lemma deatach_links:
  assumes "node \<in> dom s" and "\<And>p. prevof s node = Some p \<Longrightarrow> p \<in> dom s" and "\<And>p. nextof s node = Some p \<Longrightarrow> p \<in> dom s"
  shows "\<exists>s'. dlist_deatach s node = Some s' \<and> dom s' = dom s
     \<and> nextof s' = (case prevof s node of Some p \<Rightarrow> (nextof s)(p := nextof s node) | None \<Rightarrow> nextof s)
     \<and> prevof s' = (case nextof s node of Some n \<Rightarrow> (prevof s)(n := prevof s node) | None \<Rightarrow> prevof s)"
proof -
  obtain t where t: "s node = Some t" using assms(1) by auto
  obtain s1 where s1: "(case dprev t of Some p \<Rightarrow> set_next s p (dnext t) | None \<Rightarrow> Some s) = Some s1" "dom s1 = dom s"
      "prevof s1 = prevof s" "nextof s1 = (case dprev t of Some p \<Rightarrow> (nextof s)(p := dnext t) | None \<Rightarrow> nextof s)"
    using set_next_spec [of _ s "dnext t"] assms(2) t by (cases "dprev t") auto
  have "\<exists>s2. (case dnext t of Some n \<Rightarrow> set_prev s1 n (dprev t) | None \<Rightarrow> Some s1) = Some s2 \<and> dom s2 = dom s1
      \<and> nextof s2 = nextof s1 \<and> prevof s2 = (case dnext t of Some n \<Rightarrow> (prevof s)(n := dprev t) | None \<Rightarrow> prevof s)"
  proof (cases "dnext t")
    case (Some n)
    then have "n \<in> dom s1" using assms(3) t s1(2) by simp
    from set_prev_spec [OF this, of "dprev t"] Some s1(3) show ?thesis by auto
  qed (simp add: s1(3))
  then obtain s2 where s2: "(case dnext t of Some n \<Rightarrow> set_prev s1 n (dprev t) | None \<Rightarrow> Some s1) = Some s2"
      "dom s2 = dom s1" "nextof s2 = nextof s1"
      "prevof s2 = (case dnext t of Some n \<Rightarrow> (prevof s)(n := dprev t) | None \<Rightarrow> prevof s)" by blast
  have "prevof s node = dprev t" "nextof s node = dnext t" by (simp_all add: t)
  moreover have "dlist_deatach s node = Some s2" using t s1(1) s2(1) by (simp add: dlist_deatach_def)
  ultimately show ?thesis
    using s1(2-) s2(2-) by (cases "dprev t"; cases "dnext t") simp_all
qed

lemma links_adjacent: "links s (xs @ a # b # ys) \<Longrightarrow> nextof s a = Some b \<and> prevof s b = Some a"
  using links_append [of s xs a "b # ys"] by simp

lemma ring_insert_before:
  assumes r: "ring s h xs" and x: "x \<in> dom s" "x \<notin> set (h # xs)"
  shows "\<exists>s'. dlist_insert_before s h x = Some s' \<and> ring s' h (xs @ [x]) \<and> dom s' = dom s
     \<and> (\<forall>a. a \<notin> set (h # x # xs) \<longrightarrow> nextof s' a = nextof s a \<and> prevof s' a = prevof s a)"
proof -
  obtain ys l where ys: "h # xs = ys @ [l]" by (metis neq_Nil_conv rev_exhaust)
  have l: "l \<in> set (h # xs)" "l \<noteq> x" using x(2) arg_cong [OF ys, of set] by auto
  have e: "h # xs @ [h] = ys @ [l, h]" using ys by (metis append.assoc append_Cons append_Nil)
  have lk: "links s (ys @ [l])" "links s [l, h]"
    using r e links_append [of s ys l "[h]"] unfolding ring_def by auto
  then have prev: "prevof s h = Some l" by simp
  from insert_before_links [of h s x] r x l prev obtain s' where
    s': "dlist_insert_before s h x = Some s'" "dom s' = dom s"
      and p: "prevof s' = (prevof s)(h := Some x, x := Some l)"
      and n: "nextof s' = (nextof s)(x := Some h, l := Some x)"
    by (auto simp: ring_def)
  note pn = fun_cong [OF p] fun_cong [OF n]
  have d: "distinct (h # xs)" using r by (simp add: ring_def)
  then have d': "distinct (ys @ [l])" "h \<notin> set (tl (ys @ [l]))" "x \<notin> set (ys @ [l])"
    using x(2) unfolding ys [symmetric] by simp_all
  then have "links s' (ys @ [l])"
    by (subst links_cong [of _ s' s]) (auto simp: lk pn dest: list.set_sel(2) [rotated])
  moreover have "links s' [l, x, h]" using l x(2) by (simp add: pn)
  ultimately have "links s' (ys @ [l, x, h])"
    using links_append [of s' ys l "[x, h]"] by simp
  then have "links s' ((h # xs) @ [x, h])" by (simp add: ys)
  then show ?thesis
    using s' r x l by (auto simp: ring_def pn)
qed

lemma ring_deatach:
  assumes r: "ring s h (xs @ x # ys)"
  shows "\<exists>s'. dlist_deatach s x = Some s' \<and> ring s' h (xs @ ys) \<and> dom s' = dom s
     \<and> nextof s' x = nextof s x \<and> prevof s' x = prevof s x
     \<and> (\<forall>a. a \<notin> set (h # xs @ ys) \<longrightarrow> nextof s' a = nextof s a \<and> prevof s' a = prevof s a)"
proof -
  obtain us a where us: "h # xs = us @ [a]" by (metis neq_Nil_conv rev_exhaust)
  obtain b vs where vs: "ys @ [h] = b # vs" by (cases ys) auto
  have e: "h # (xs @ x # ys) @ [h] = us @ a # x # b # vs" using us vs by (metis append.assoc append_Cons append_Nil)
  have mem: "a \<in> set (h # xs)" "b \<in> set (h # ys)" using arg_cong [OF us, of set] arg_cong [OF vs, of set] by auto
  have d: "distinct (h # xs @ x # ys)" and sub: "set (h # xs @ x # ys) \<subseteq> dom s"
    and lk: "links s (us @ a # x # b # vs)" using r e by (simp_all add: ring_def)
  have ax: "nextof s a = Some x" "prevof s x = Some a" using links_adjacent [OF lk] by auto
  have xb: "nextof s x = Some b" "prevof s b = Some x" using links_adjacent [of s "us @ [a]" x b vs] lk by auto
  from deatach_links [of x s] sub mem ax xb obtain s' where s': "dlist_deatach s x = Some s'" "dom s' = dom s"
    and n: "nextof s' = (nextof s)(a := Some b)" and p: "prevof s' = (prevof s)(b := Some a)" by auto
  note pn = fun_cong [OF p] fun_cong [OF n]
  have lu: "links s (us @ [a])" "links s (b # vs)"
    using lk links_append [of s us a "x # b # vs"] by auto
  have du: "distinct (us @ [a])" "b \<notin> set (tl (us @ [a]))"
    using d mem unfolding us [symmetric] by auto
  have dv: "b \<notin> set vs" "a \<notin> set (butlast (b # vs))"
    using d mem arg_cong [OF vs, of distinct] arg_cong [OF vs, of butlast] by auto
  have "links s' (us @ [a])" using du
    by (subst links_cong [of _ s' s]) (auto simp: lu pn dest: list.set_sel(2) [rotated])
  moreover have "links s' (b # vs)" using dv
    by (subst links_cong [of _ s' s]) (auto simp: lu pn)
  ultimately have "links s' (us @ a # b # vs)"
    using links_append [of s' us a "b # vs"] by (simp add: pn)
  moreover have "us @ a # b # vs = h # (xs @ ys) @ [h]" using us vs by (metis append.assoc append_Cons append_Nil)
  ultimately have "ring s' h (xs @ ys)" using d sub s' by (simp add: ring_def)
  moreover have "x \<noteq> a" "x \<noteq> b" using d mem by auto
  ultimately show ?thesis using s' mem by (auto simp: pn)
qed

lemma chain_insert_before:
  assumes c: "chain s (h # xs)" and x: "x \<in> dom s" "x \<notin> set (h # xs)"
  shows "\<exists>s'. dlist_insert_before s h x = Some s' \<and> chain s' (x # h # xs) \<and> dom s' = dom s
     \<and> (\<forall>a. a \<noteq> x \<longrightarrow> a \<noteq> h \<longrightarrow> nextof s' a = nextof s a \<and> prevof s' a = prevof s a)"
proof -
  from insert_before_links [of h s x] c x obtain s' where
    s': "dlist_insert_before s h x = Some s'" "dom s' = dom s"
      and p: "prevof s' = (prevof s)(h := Some x, x := None)" and n: "nextof s' = (nextof s)(x := Some h)"
    by (auto simp: chain_def)
  note pn = fun_cong [OF p] fun_cong [OF n]
  have "links s' (h # xs)" using c x
    by (subst links_cong [of _ s' s]) (auto simp: chain_def pn dest: in_set_butlastD split: if_splits)
  moreover have "nextof s' (last (h # xs)) = None" using c x by (auto simp: chain_def pn)
  ultimately have "chain s' (x # h # xs)" using c x s' by (auto simp: chain_def pn)
  then show ?thesis using s' by (simp add: pn)
qed

lemma chain_insert_after:
  assumes c: "chain s (xs @ [t])" and x: "x \<in> dom s" "x \<notin> set (xs @ [t])"
  shows "\<exists>s'. dlist_insert_after s t x = Some s' \<and> chain s' (xs @ [t, x]) \<and> dom s' = dom s
     \<and> (\<forall>a. a \<noteq> x \<longrightarrow> a \<noteq> t \<longrightarrow> nextof s' a = nextof s a \<and> prevof s' a = prevof s a)"
proof -
  from insert_after_links [of t s x] c x obtain s' where
    s': "dlist_insert_after s t x = Some s'" "dom s' = dom s"
      and n: "nextof s' = (nextof s)(t := Some x, x := None)" and p: "prevof s' = (prevof s)(x := Some t)"
    by (auto simp: chain_def)
  note pn = fun_cong [OF p] fun_cong [OF n]
  have "links s' (xs @ [t])" using c x
    by (subst links_cong [of _ s' s]) (auto simp: chain_def pn dest: list.set_sel(2) [rotated])
  then have "links s' (xs @ [t, x])" using links_append [of s' xs t "[x]"] x by (simp add: pn)
  moreover have "prevof s' (hd (xs @ [t, x])) = None" using c x by (cases xs) (auto simp: chain_def pn)
  ultimately have "chain s' (xs @ [t, x])" using c x s' by (auto simp: chain_def pn)
  then show ?thesis using s' by (simp add: pn)
qed

lemma chain_deatach_head:
  assumes c: "chain s (x # xs)"
  shows "\<exists>s'. dlist_deatach s x = Some s' \<and> chain s' xs \<and> dom s' = dom s
     \<and> nextof s' = nextof s \<and> (\<forall>a. a \<notin> set xs \<longrightarrow> prevof s' a = prevof s a)"
proof (cases xs)
  case Nil
  with c show ?thesis using deatach_links [of x s] by (auto simp: chain_def)
next
  case (Cons y ys)
  with deatach_links [of x s] c obtain s' where
    s': "dlist_deatach s x = Some s'" "dom s' = dom s"
      and n: "nextof s' = nextof s" and p: "prevof s' = (prevof s)(y := None)" by (auto simp: chain_def)
  note pn = fun_cong [OF p] fun_cong [OF n]
  have "links s' (y # ys)" using c Cons
    by (subst links_cong [of _ s' s]) (auto simp: chain_def pn)
  then have "chain s' xs" using c Cons s' by (auto simp: chain_def pn)
  then show ?thesis using s' Cons by (auto simp: pn n)
qed

lemma chain_deatach_last:
  assumes c: "chain s (xs @ [x])"
  shows "\<exists>s'. dlist_deatach s x = Some s' \<and> chain s' xs \<and> dom s' = dom s
     \<and> prevof s' = prevof s \<and> (\<forall>a. a \<notin> set xs \<longrightarrow> nextof s' a = nextof s a)"
proof (cases xs rule: rev_cases)
  case Nil
  with c show ?thesis using deatach_links [of x s] by (auto simp: chain_def)
next
  case (snoc ys y)
  have lk: "links s (ys @ [y, x])" using c snoc by (simp add: chain_def)
  with deatach_links [of x s] links_adjacent [of s ys y x "[]"] c snoc obtain s' where
    s': "dlist_deatach s x = Some s'" "dom s' = dom s"
      and p: "prevof s' = prevof s" and n: "nextof s' = (nextof s)(y := None)" by (auto simp: chain_def)
  note pn = fun_cong [OF p] fun_cong [OF n]
  have "links s (ys @ [y])" using lk links_append [of s ys y "[x]"] by simp
  then have "links s' (ys @ [y])" using c snoc
    by (subst links_cong [of _ s' s]) (auto simp: chain_def pn)
  then have "chain s' xs" using c snoc s' by (cases ys) (auto simp: chain_def pn)
  then show ?thesis using s' snoc by (auto simp: pn p)
qed

section \<open>Properties\<close>

text \<open>Inserting a fresh node before the sentinel of a circular list
  (how the server queues a connection on a timeout list) makes it the last member, keeps the
  order of the others, and touches no node outside the list.\<close>

lemma dlist_insert_before_sentinel:
  assumes "ring s h xs" and "x \<in> dom s" and "x \<notin> set (h # xs)"
  shows "\<exists>s'. dlist_insert_before s h x = Some s' \<and> ring s' h (xs @ [x]) \<and> dom s' = dom s
     \<and> (\<forall>a. a \<notin> set (h # x # xs) \<longrightarrow> nextof s' a = nextof s a \<and> prevof s' a = prevof s a)"
  using assms by (rule ring_insert_before)

lemma dlist_insert_before_sentinel_witness:
  "\<exists>s'. dlist_insert_before [0 \<mapsto> \<lparr>dprev = Some 0, dnext = Some 0, dval = ()\<rparr>, 1 \<mapsto> \<lparr>dprev = None, dnext = None, dval = ()\<rparr>] 0 1 = Some s'
     \<and> ring s' 0 [1]"
  using dlist_insert_before_sentinel [of "[0 \<mapsto> \<lparr>dprev = Some 0, dnext = Some 0, dval = ()\<rparr>, 1 \<mapsto> \<lparr>dprev = None, dnext = None, dval = ()\<rparr>]" 0 "[]" 1]
  by (auto simp: ring_def)

text \<open>Detaching a member of a circular list removes that member and only it,
  wherever it stands; its own links keep pointing at its old neighbours.\<close>

lemma dlist_deatach_member:
  assumes "ring s h (xs @ x # ys)"
  shows "\<exists>s'. dlist_deatach s x = Some s' \<and> ring s' h (xs @ ys) \<and> dom s' = dom s
     \<and> nextof s' x = nextof s x \<and> prevof s' x = prevof s x
     \<and> (\<forall>a. a \<notin> set (h # xs @ ys) \<longrightarrow> nextof s' a = nextof s a \<and> prevof s' a = prevof s a)"
  using assms by (rule ring_deatach)

lemma dlist_deatach_member_witness:
  "\<exists>s'. dlist_deatach [0 \<mapsto> \<lparr>dprev = Some 1, dnext = Some 1, dval = ()\<rparr>, 1 \<mapsto> \<lparr>dprev = Some 0, dnext = Some 0, dval = ()\<rparr>] 1 = Some s'
     \<and> ring s' 0 []"
  using dlist_deatach_member [of "[0 \<mapsto> \<lparr>dprev = Some 1, dnext = Some 1, dval = ()\<rparr>, 1 \<mapsto> \<lparr>dprev = Some 0, dnext = Some 0, dval = ()\<rparr>]" 0 "[]" 1 "[]"]
  by (auto simp: ring_def)

text \<open>Inserting the last member of a circular list before the sentinel once more
  (what \<open>handle_read\<close> does with \<open>write_timeout\<close> when a second request of a connection arrives
  before its first reply is written, \<open>server.cpp\<close> line 381: every descriptor is polled for
  input) turns the node into a loop of its own that the list still enters, and detaching
  the node afterwards changes no link any more: the list can never be emptied.\<close>

lemma dlist_insert_twice_undetachable:
  assumes "ring s h (xs @ [x])"
  shows "\<exists>s' s''. dlist_insert_before s h x = Some s' \<and> nextof s' x = Some x \<and> prevof s' x = Some x
     \<and> nextof s' (last (h # xs)) = Some x
     \<and> dlist_deatach s' x = Some s'' \<and> nextof s'' = nextof s' \<and> prevof s'' = prevof s'"
proof -
  have x: "x \<in> dom s" "h \<in> dom s" "x \<noteq> h" using assms by (auto simp: ring_def)
  have lk: "links s (h # (xs @ [x]) @ [h])" using assms by (simp add: ring_def)
  have p: "prevof s h = Some x" using lk links_adjacent [of s "h # xs" x h "[]"] by simp
  obtain us a where us: "h # xs = us @ [a]" by (metis neq_Nil_conv rev_exhaust)
  then have "nextof s a = Some x" "last (h # xs) = a"
    using lk links_adjacent [of s us a x "[h]"] by (metis append.assoc append_Cons append_Nil, simp)
  moreover obtain s' where s': "dlist_insert_before s h x = Some s'" "dom s' = dom s"
    "nextof s' = (nextof s)(x := Some x)" "prevof s' = (prevof s)(h := Some x, x := Some x)"
    using insert_before_last_links [of h s x] x p by auto
  moreover obtain s'' where "dlist_deatach s' x = Some s''" "nextof s'' = nextof s'" "prevof s'' = prevof s'"
    using deatach_links [of x s'] s' x by (auto simp: fun_upd_idem_iff)
  ultimately show ?thesis by auto
qed

lemma dlist_insert_twice_undetachable_witness:
  "\<exists>s' s''. dlist_insert_before [0 \<mapsto> \<lparr>dprev = Some 1, dnext = Some 1, dval = ()\<rparr>, 1 \<mapsto> \<lparr>dprev = Some 0, dnext = Some 0, dval = ()\<rparr>] 0 1 = Some s'
     \<and> nextof s' 0 = Some 1 \<and> nextof s' 1 = Some 1 \<and> dlist_deatach s' 1 = Some s'' \<and> nextof s'' = nextof s'"
  using dlist_insert_twice_undetachable [of "[0 \<mapsto> \<lparr>dprev = Some 1, dnext = Some 1, dval = ()\<rparr>, 1 \<mapsto> \<lparr>dprev = Some 0, dnext = Some 0, dval = ()\<rparr>]" 0 "[]" 1]
  by (auto simp: ring_def)
end
