(* ===== verification/Avl.thy ===== *)
theory Avl
  imports Prelude "HOL-Library.Tree"
begin

text \<open>
  The AVL tree (\<open>src/src/data_structures/avl_tree.cpp\<close>, \<open>avl_tree.h\<close>): intrusive nodes with
  parent pointers, on an explicit store.  Every access through a NULL or dangling pointer, a
  failed \<open>assert\<close> and a walk that never ends are the value \<open>None\<close>.
\<close>

section \<open>Definitions\<close>

record AVLNode =
  aparent :: ptr
  aleft :: ptr
  aright :: ptr
  aheight :: u32
  asize :: u32

type_synonym astore = "addr \<rightharpoonup> AVLNode"

definition avl_size :: "astore \<Rightarrow> ptr \<Rightarrow> u32 option" where
  "avl_size s p = (case p of None \<Rightarrow> Some 0 | Some a \<Rightarrow> map_option asize (s a))"

partial_function (option) avl_height :: "astore \<Rightarrow> ptr \<Rightarrow> u32 option" where
  "avl_height s p = (case p of
     None \<Rightarrow> Some 0
   | Some a \<Rightarrow> do {
       n \<leftarrow> s a;
       l \<leftarrow> avl_height s (aleft n);
       r \<leftarrow> avl_height s (aright n);
       Some (1 + max l r)
     })"

text \<open>\<open>a->field = v\<close>: the store with the field of the node at \<open>a\<close> changed.\<close>

definition upd :: "(AVLNode \<Rightarrow> AVLNode) \<Rightarrow> addr \<Rightarrow> astore \<Rightarrow> astore option" where
  "upd f a s = map_option (\<lambda>n. s(a \<mapsto> f n)) (s a)"

definition upd_opt :: "(AVLNode \<Rightarrow> AVLNode) \<Rightarrow> ptr \<Rightarrow> astore \<Rightarrow> astore option" where
  "upd_opt f p s = (case p of None \<Rightarrow> Some s | Some a \<Rightarrow> upd f a s)"

definition update_node :: "addr \<Rightarrow> astore \<Rightarrow> astore option" where
  "update_node a s = do {
     n \<leftarrow> s a;
     hl \<leftarrow> avl_height s (aleft n);
     hr \<leftarrow> avl_height s (aright n);
     s \<leftarrow> upd (\<lambda>n. n\<lparr>aheight := 1 + max hl hr\<rparr>) a s;
     sl \<leftarrow> avl_size s (aleft n);
     sr \<leftarrow> avl_size s (aright n);
     upd (\<lambda>n. n\<lparr>asize := 1 + sl + sr\<rparr>) a s
   }"

definition rotate_left :: "addr \<Rightarrow> astore \<Rightarrow> (addr \<times> astore) option" where
  "rotate_left curr_root s = do {
     c \<leftarrow> s curr_root;
     new_root \<leftarrow> aright c;
     n \<leftarrow> s new_root;
     let inner = aleft n;
     s \<leftarrow> upd (\<lambda>n. n\<lparr>aright := inner\<rparr>) curr_root s;
     s \<leftarrow> upd (\<lambda>n. n\<lparr>aleft := Some curr_root\<rparr>) new_root s;
     s \<leftarrow> upd (\<lambda>n. n\<lparr>aparent := aparent c\<rparr>) new_root s;
     s \<leftarrow> upd (\<lambda>n. n\<lparr>aparent := Some new_root\<rparr>) curr_root s;
     s \<leftarrow> upd_opt (\<lambda>n. n\<lparr>aparent := Some curr_root\<rparr>) inner s;
     s \<leftarrow> update_node curr_root s;
     s \<leftarrow> update_node new_root s;
     Some (new_root, s)
   }"

definition rotate_right :: "addr \<Rightarrow> astore \<Rightarrow> (addr \<times> astore) option" where
  "rotate_right curr_root s = do {
     c \<leftarrow> s curr_root;
     new_root \<leftarrow> aleft c;
     n \<leftarrow> s new_root;
     let inner = aright n;
     s \<leftarrow> upd (\<lambda>n. n\<lparr>aleft := inner\<rparr>) curr_root s;
     s \<leftarrow> upd (\<lambda>n. n\<lparr>aright := Some curr_root\<rparr>) new_root s;
     s \<leftarrow> upd (\<lambda>n. n\<lparr>aparent := aparent c\<rparr>) new_root s;
     s \<leftarrow> upd (\<lambda>n. n\<lparr>aparent := Some new_root\<rparr>) curr_root s;
     s \<leftarrow> upd_opt (\<lambda>n. n\<lparr>aparent := Some curr_root\<rparr>) inner s;
     s \<leftarrow> update_node curr_root s;
     s \<leftarrow> update_node new_root s;
     Some (new_root, s)
   }"

definition avl_init :: "addr \<Rightarrow> astore \<Rightarrow> astore option" where
  "avl_init a s = upd (\<lambda>_. \<lparr>aparent = None, aleft = None, aright = None, aheight = 1, asize = 1\<rparr>) a s"

text \<open>The two rebalancing branches in the body of \<open>avl_fix\<close>; the result is the node that takes
  the place of \<open>node\<close>.\<close>

definition fix_left_heavy :: "addr \<Rightarrow> addr \<Rightarrow> astore \<Rightarrow> (addr \<times> astore) option" where
  "fix_left_heavy node la s = do {
     ln \<leftarrow> s la;
     ll \<leftarrow> avl_height s (aleft ln);
     lr \<leftarrow> avl_height s (aright ln);
     s \<leftarrow> (if ll < lr then do {
             (x, s) \<leftarrow> rotate_left la s;
             upd (\<lambda>n. n\<lparr>aleft := Some x\<rparr>) node s
           } else Some s);
     rotate_right node s
   }"

definition fix_right_heavy :: "addr \<Rightarrow> addr \<Rightarrow> astore \<Rightarrow> (addr \<times> astore) option" where
  "fix_right_heavy node ra s = do {
     rn \<leftarrow> s ra;
     rr \<leftarrow> avl_height s (aright rn);
     rl \<leftarrow> avl_height s (aleft rn);
     s \<leftarrow> (if rr < rl then do {
             (x, s) \<leftarrow> rotate_right ra s;
             upd (\<lambda>n. n\<lparr>aright := Some x\<rparr>) node s
           } else Some s);
     rotate_left node s
   }"

definition fix_node :: "addr \<Rightarrow> astore \<Rightarrow> (addr \<times> astore) option" where
  "fix_node node s = do {
     n \<leftarrow> s node;
     l \<leftarrow> avl_height s (aleft n);
     r \<leftarrow> avl_height s (aright n);
     s \<leftarrow> update_node node s;
     (if l = r + 2 then do { la \<leftarrow> aleft n; fix_left_heavy node la s }
      else if r = l + 2 then do { ra \<leftarrow> aright n; fix_right_heavy node ra s }
      else Some (node, s))
   }"

partial_function (option) avl_fix :: "addr \<Rightarrow> astore \<Rightarrow> (addr \<times> astore) option" where
  "avl_fix node s = do {
     n \<leftarrow> s node;
     (case aparent n of
        None \<Rightarrow> fix_node node s
      | Some par \<Rightarrow> do {
          p \<leftarrow> s par;
          let from_left = (aleft p = Some node);
          (x, s) \<leftarrow> fix_node node s;
          s \<leftarrow> upd (\<lambda>p. if from_left then p\<lparr>aleft := Some x\<rparr> else p\<lparr>aright := Some x\<rparr>) par s;
          avl_fix par s
        })
   }"

text \<open>Redirecting the link of a parent that points at \<open>old\<close>.\<close>

definition relink :: "addr \<Rightarrow> ptr \<Rightarrow> AVLNode \<Rightarrow> AVLNode" where
  "relink old new p = (if aleft p = Some old then p\<lparr>aleft := new\<rparr> else p\<lparr>aright := new\<rparr>)"

text \<open>Removal of a node with at most one child; the result is the new root, or NULL.\<close>

definition del_simple :: "addr \<Rightarrow> astore \<Rightarrow> (ptr \<times> astore) option" where
  "del_simple to_delete s = do {
     d \<leftarrow> s to_delete;
     if aleft d \<noteq> None \<and> aright d \<noteq> None then None
     else do {
       let child = (if aleft d \<noteq> None then aleft d else aright d);
       s \<leftarrow> upd_opt (\<lambda>n. n\<lparr>aparent := aparent d\<rparr>) child s;
       (case aparent d of
          None \<Rightarrow> Some (child, s)
        | Some par \<Rightarrow> do {
            s \<leftarrow> upd (relink to_delete child) par s;
            (root, s) \<leftarrow> avl_fix par s;
            Some (Some root, s)
          })
     }
   }"

text \<open>\<open>while (victim->left) victim = victim->left\<close>\<close>

partial_function (option) leftmost :: "astore \<Rightarrow> addr \<Rightarrow> addr option" where
  "leftmost s a = do {
     n \<leftarrow> s a;
     (case aleft n of None \<Rightarrow> Some a | Some b \<Rightarrow> leftmost s b)
   }"

text \<open>The second half of \<open>avl_del\<close>: the victim \<open>v\<close> takes over the fields of \<open>d\<close>, and the
  neighbours are redirected; the first component is the variable \<open>root\<close> after it.\<close>

definition take_over :: "addr \<Rightarrow> addr \<Rightarrow> ptr \<Rightarrow> astore \<Rightarrow> (ptr \<times> astore) option" where
  "take_over d v root s = do {
     n \<leftarrow> s d;
     s \<leftarrow> upd (\<lambda>_. n) v s;
     s \<leftarrow> upd_opt (\<lambda>n. n\<lparr>aparent := Some v\<rparr>) (aleft n) s;
     s \<leftarrow> upd_opt (\<lambda>n. n\<lparr>aparent := Some v\<rparr>) (aright n) s;
     (case aparent n of
        None \<Rightarrow> Some (Some v, s)
      | Some par \<Rightarrow> do {
          s \<leftarrow> upd (relink d (Some v)) par s;
          Some (root, s)
        })
   }"

definition avl_del :: "addr \<Rightarrow> astore \<Rightarrow> (ptr \<times> astore) option" where
  "avl_del to_delete s = do {
     d \<leftarrow> s to_delete;
     (case (aleft d, aright d) of
        (Some _, Some r) \<Rightarrow> do {
          victim \<leftarrow> leftmost s r;
          (root, s) \<leftarrow> del_simple victim s;
          (root, s) \<leftarrow> take_over to_delete victim root s;
          root \<leftarrow> root;
          (x, s) \<leftarrow> avl_fix root s;
          Some (Some x, s)
        }
      | _ \<Rightarrow> del_simple to_delete s)
   }"

section \<open>What the store represents\<close>

text \<open>The pointer \<open>p\<close> is the root of the tree \<open>t\<close>, hanging below \<open>par\<close>, with right fields.\<close>

primrec rep :: "astore \<Rightarrow> ptr \<Rightarrow> ptr \<Rightarrow> addr tree \<Rightarrow> bool" where
  "rep s par p Leaf \<longleftrightarrow> p = None"
| "rep s par p (Node l a r) \<longleftrightarrow> p = Some a \<and> (case s a of None \<Rightarrow> False | Some n \<Rightarrow>
     aparent n = par \<and> aheight n = of_nat (height (Node l a r)) \<and> asize n = of_nat (size (Node l a r))
     \<and> rep s (Some a) (aleft n) l \<and> rep s (Some a) (aright n) r)"

text \<open>The same for a node whose own height and size fields may be stale.\<close>

definition node_at :: "astore \<Rightarrow> ptr \<Rightarrow> addr tree \<Rightarrow> addr \<Rightarrow> addr tree \<Rightarrow> bool" where
  "node_at s par l a r \<longleftrightarrow> (case s a of None \<Rightarrow> False | Some n \<Rightarrow>
     aparent n = par \<and> rep s (Some a) (aleft n) l \<and> rep s (Some a) (aright n) r)"

text \<open>The two stores agree outside \<open>A\<close>.\<close>

definition same_off :: "addr set \<Rightarrow> astore \<Rightarrow> astore \<Rightarrow> bool" where
  "same_off A s s' \<longleftrightarrow> (\<forall>x. x \<notin> A \<longrightarrow> s' x = s x)"

lemma same_off_refl [simp]: "same_off A s s"
  by (simp add: same_off_def)

lemma same_off_trans: "same_off A s s' \<Longrightarrow> same_off B s' s'' \<Longrightarrow> same_off (A \<union> B) s s''"
  by (simp add: same_off_def)

lemma same_off_mono: "same_off A s s' \<Longrightarrow> A \<subseteq> B \<Longrightarrow> same_off B s s'"
  by (auto simp: same_off_def)

lemma same_off_upd [simp]: "a \<in> A \<Longrightarrow> same_off A s (s'(a \<mapsto> n)) = same_off A s s'"
  by (auto simp: same_off_def)

lemma rep_cong: "\<forall>x \<in> set_tree t. s' x = s x \<Longrightarrow> rep s' par p t = rep s par p t"
  by (induction t arbitrary: par p) (auto split: option.splits)

lemma rep_same_off: "same_off A s s' \<Longrightarrow> A \<inter> set_tree t = {} \<Longrightarrow> rep s' par p t = rep s par p t"
  by (rule rep_cong) (auto simp: same_off_def)

lemma rep_upd [simp]: "a \<notin> set_tree t \<Longrightarrow> rep (s(a \<mapsto> n)) par p t = rep s par p t"
  by (rule rep_cong) auto

lemma rep_dom: "rep s par p t \<Longrightarrow> x \<in> set_tree t \<Longrightarrow> \<exists>n. s x = Some n"
  by (induction t arbitrary: par p) (auto split: option.splits)

lemma rep_leaf_iff: "rep s par p t \<Longrightarrow> (t = Leaf) = (p = None)"
  by (cases t) auto

lemma rep_height: "rep s par p t \<Longrightarrow> height t < 2 ^ 32 \<Longrightarrow> avl_height s p = Some (of_nat (height t))"
proof (induction t arbitrary: par p)
  case Leaf
  then show ?case by (simp add: avl_height.simps)
next
  case (Node l a r)
  then obtain n where n: "p = Some a" "s a = Some n" "rep s (Some a) (aleft n) l" "rep s (Some a) (aright n) r"
    by (auto split: option.splits)
  have "max (of_nat (height l)) (of_nat (height r)) = (of_nat (max (height l) (height r)) :: u32)"
    using Node.prems(2) by (auto simp: max_def word_le_nat_alt unat_of_nat)
  with Node n show ?case
    by (subst avl_height.simps) simp
qed

lemma rep_size: "rep s par p t \<Longrightarrow> avl_size s p = Some (of_nat (size t))"
  by (cases t) (auto simp: avl_size_def split: option.splits)

lemma node_at_rep:
  "node_at s par l a r \<Longrightarrow> s a = Some n \<Longrightarrow> aheight n = of_nat (height (Node l a r)) \<Longrightarrow>
   asize n = of_nat (size (Node l a r)) \<Longrightarrow> rep s par (Some a) (Node l a r)"
  by (simp add: node_at_def)

lemma rep_node_at: "rep s par p (Node l a r) \<Longrightarrow> node_at s par l a r"
  by (auto simp: node_at_def split: option.splits)

lemma update_node_rep:
  assumes "node_at s par l a r" and "a \<notin> set_tree l" and "a \<notin> set_tree r" and "height (Node l a r) < 2 ^ 32"
  shows "\<exists>s'. update_node a s = Some s' \<and> rep s' par (Some a) (Node l a r) \<and> same_off {a} s s'"
proof -
  obtain n where n: "s a = Some n" "aparent n = par" "rep s (Some a) (aleft n) l" "rep s (Some a) (aright n) r"
    using assms(1) by (auto simp: node_at_def split: option.splits)
  have m: "max (of_nat (height l)) (of_nat (height r)) = (of_nat (max (height l) (height r)) :: u32)"
    using assms(4) by (auto simp: max_def word_le_nat_alt unat_of_nat)
  have h: "avl_height s (aleft n) = Some (of_nat (height l))" "avl_height s (aright n) = Some (of_nat (height r))"
    using n assms(4) by (auto intro: rep_height)
  have sz: "avl_size (s(a \<mapsto> m)) (aleft n) = Some (of_nat (size l))" "avl_size (s(a \<mapsto> m)) (aright n) = Some (of_nat (size r))" for m
    using n assms(2,3) rep_size [of "s(a \<mapsto> m)"] by (metis rep_upd)+
  show ?thesis using n h sz m assms(2,3)
    by (auto simp: update_node_def upd_def algebra_simps)
qed


lemma rep_set_parent:
  assumes "rep s q p t" and "distinct (inorder t)"
  shows "\<exists>s'. upd_opt (\<lambda>n. n\<lparr>aparent := q'\<rparr>) p s = Some s' \<and> rep s' q' p t \<and> same_off (set_tree t) s s'"
proof (cases t)
  case Leaf
  with assms show ?thesis by (simp add: upd_opt_def)
next
  case (Node l a r)
  with assms obtain n where "s a = Some n" "p = Some a" by (auto split: option.splits)
  with assms Node show ?thesis
    by (intro exI [of _ "s(a \<mapsto> n\<lparr>aparent := q'\<rparr>)"]) (auto simp: upd_opt_def upd_def)
qed

lemma distinct_node:
  "distinct (inorder (Node l a r)) \<longleftrightarrow> distinct (inorder l) \<and> distinct (inorder r) \<and> a \<notin> set_tree l \<and> a \<notin> set_tree r
     \<and> set_tree l \<inter> set_tree r = {}"
  by (auto simp: set_inorder [symmetric] simp del: set_inorder)

lemma rotate_left_rep:
  assumes n: "s c = Some n" "aparent n = par" "aright n = Some d" "rep s (Some c) (aleft n) l"
    and k: "s d = Some k" "rep s (Some d) (aleft k) m" "rep s (Some d) (aright k) r"
    and dist: "distinct (inorder (Node l c (Node m d r)))" and small: "height (Node (Node l c m) d r) < 2 ^ 32"
  shows "\<exists>s'. rotate_left c s = Some (d, s') \<and> rep s' par (Some d) (Node (Node l c m) d r)
     \<and> same_off (set_tree (Node l c (Node m d r))) s s'"
proof -
  note D = dist [unfolded distinct_node, simplified]
  define s4 where "s4 = s(d \<mapsto> k\<lparr>aleft := Some c, aparent := par\<rparr>, c \<mapsto> n\<lparr>aright := aleft k, aparent := Some d\<rparr>)"
  have s4: "rep s4 (Some c) (aleft n) l" "rep s4 (Some d) (aleft k) m" "rep s4 (Some d) (aright k) r"
    using D n k by (auto simp: s4_def)
  obtain s5 where s5: "upd_opt (\<lambda>n. n\<lparr>aparent := Some c\<rparr>) (aleft k) s4 = Some s5" "rep s5 (Some c) (aleft k) m"
    "same_off (set_tree m) s4 s5"
    using rep_set_parent [OF s4(2)] D by blast
  have s5f: "s5 c = s4 c" "s5 d = s4 d" using s5(3) D by (auto simp: same_off_def)
  have "rep s5 (Some c) (aleft n) l" "rep s5 (Some d) (aright k) r"
    using rep_same_off [OF s5(3)] s4 D by blast+
  then have "node_at s5 (Some d) l c m" and r5: "rep s5 (Some d) (aright k) r"
    using s5 s5f D by (auto simp: node_at_def s4_def)
  from update_node_rep [OF this(1)] D small obtain s6 where
    s6: "update_node c s5 = Some s6" "rep s6 (Some d) (Some c) (Node l c m)" "same_off {c} s5 s6" by auto
  have "node_at s6 par (Node l c m) d r"
    using rep_same_off [OF s6(3)] r5 s6 s5f D by (auto simp: node_at_def s4_def same_off_def)
  from update_node_rep [OF this] D small obtain s7 where
    s7: "update_node d s6 = Some s7" "rep s7 par (Some d) (Node (Node l c m) d r)" "same_off {d} s6 s7" by auto
  have "rotate_left c s = Some (d, s7)"
    using n k D s5(1) s6(1) s7(1) by (simp add: rotate_left_def upd_def Let_def s4_def)
  moreover have "same_off (set_tree (Node l c (Node m d r))) s s7"
    using s5(3) s6(3) s7(3) by (auto simp: same_off_def s4_def)
  ultimately show ?thesis using s7(2) by blast
qed

lemma rotate_right_rep:
  assumes n: "s c = Some n" "aparent n = par" "aleft n = Some d" "rep s (Some c) (aright n) r"
    and k: "s d = Some k" "rep s (Some d) (aleft k) l" "rep s (Some d) (aright k) m"
    and dist: "distinct (inorder (Node (Node l d m) c r))" and small: "height (Node l d (Node m c r)) < 2 ^ 32"
  shows "\<exists>s'. rotate_right c s = Some (d, s') \<and> rep s' par (Some d) (Node l d (Node m c r))
     \<and> same_off (set_tree (Node (Node l d m) c r)) s s'"
proof -
  note D = dist [unfolded distinct_node, simplified]
  define s4 where "s4 = s(d \<mapsto> k\<lparr>aright := Some c, aparent := par\<rparr>, c \<mapsto> n\<lparr>aleft := aright k, aparent := Some d\<rparr>)"
  have s4: "rep s4 (Some d) (aleft k) l" "rep s4 (Some d) (aright k) m" "rep s4 (Some c) (aright n) r"
    using D n k by (auto simp: s4_def)
  obtain s5 where s5: "upd_opt (\<lambda>n. n\<lparr>aparent := Some c\<rparr>) (aright k) s4 = Some s5" "rep s5 (Some c) (aright k) m"
    "same_off (set_tree m) s4 s5"
    using rep_set_parent [OF s4(2)] D by blast
  have s5f: "s5 c = s4 c" "s5 d = s4 d" using s5(3) D by (auto simp: same_off_def)
  have "rep s5 (Some d) (aleft k) l" "rep s5 (Some c) (aright n) r"
    using rep_same_off [OF s5(3)] s4 D by blast+
  then have "node_at s5 (Some d) m c r" and l5: "rep s5 (Some d) (aleft k) l"
    using s5 s5f D by (auto simp: node_at_def s4_def)
  from update_node_rep [OF this(1)] D small obtain s6 where
    s6: "update_node c s5 = Some s6" "rep s6 (Some d) (Some c) (Node m c r)" "same_off {c} s5 s6" by auto
  have "node_at s6 par l d (Node m c r)"
    using rep_same_off [OF s6(3)] l5 s6 s5f D by (auto simp: node_at_def s4_def same_off_def)
  from update_node_rep [OF this] D small obtain s7 where
    s7: "update_node d s6 = Some s7" "rep s7 par (Some d) (Node l d (Node m c r))" "same_off {d} s6 s7" by auto
  have "rotate_right c s = Some (d, s7)"
    using n k D s5(1) s6(1) s7(1) by (simp add: rotate_right_def upd_def Let_def s4_def)
  moreover have "same_off (set_tree (Node (Node l d m) c r)) s s7"
    using s5(3) s6(3) s7(3) by (auto simp: same_off_def s4_def)
  ultimately show ?thesis using s7(2) by blast
qed


section \<open>The balancing step on trees\<close>

text \<open>What one round of the loop of \<open>avl_fix\<close> does to the tree below the node.\<close>

fun rotr :: "'a tree \<Rightarrow> 'a \<Rightarrow> 'a tree \<Rightarrow> 'a tree" where
  "rotr (Node l b m) a r = Node l b (Node m a r)"
| "rotr Leaf a r = Node Leaf a r"

fun rotl :: "'a tree \<Rightarrow> 'a \<Rightarrow> 'a tree \<Rightarrow> 'a tree" where
  "rotl l a (Node m b r) = Node (Node l a m) b r"
| "rotl l a Leaf = Node l a Leaf"

definition bal_left :: "'a tree \<Rightarrow> 'a tree" where
  "bal_left t = (case t of Node ll b lr \<Rightarrow> if height ll < height lr then rotl ll b lr else t | Leaf \<Rightarrow> t)"

definition bal_right :: "'a tree \<Rightarrow> 'a tree" where
  "bal_right t = (case t of Node rl b rr \<Rightarrow> if height rr < height rl then rotr rl b rr else t | Leaf \<Rightarrow> t)"

definition bal :: "'a tree \<Rightarrow> 'a \<Rightarrow> 'a tree \<Rightarrow> 'a tree" where
  "bal l a r = (if height l = height r + 2 then rotr (bal_left l) a r
     else if height r = height l + 2 then rotl l a (bal_right r)
     else Node l a r)"

lemma inorder_rot [simp]: "inorder (rotr l a r) = inorder l @ a # inorder r" "inorder (rotl l a r) = inorder l @ a # inorder r"
  by (cases l; simp) (cases r; simp)

lemma inorder_bal_side [simp]: "inorder (bal_left t) = inorder t" "inorder (bal_right t) = inorder t"
  by (auto simp: bal_left_def bal_right_def split: tree.splits)

lemma inorder_bal [simp]: "inorder (bal l a r) = inorder l @ a # inorder r"
  by (simp add: bal_def)

lemma set_tree_eq_inorder: "inorder t = inorder t' \<Longrightarrow> set_tree t = set_tree t'"
  by (metis set_inorder)

lemma size_eq_inorder: "inorder t = inorder t' \<Longrightarrow> size t = size t'"
  by (metis length_inorder)

primrec avl :: "'a tree \<Rightarrow> bool" where
  "avl Leaf = True"
| "avl (Node l a r) = (avl l \<and> avl r \<and> height l \<le> height r + 1 \<and> height r \<le> height l + 1)"

lemma bal_avl:
  assumes "avl l" and "avl r" and "height l \<le> height r + 2" and "height r \<le> height l + 2"
  shows "avl (bal l a r)"
    and "height (bal l a r) \<le> height (Node l a r)" and "height (Node l a r) \<le> height (bal l a r) + 1"
    and "height l \<le> height r + 1 \<Longrightarrow> height r \<le> height l + 1 \<Longrightarrow> bal l a r = Node l a r"
proof -
  have "avl (bal l a r) \<and> height (bal l a r) \<le> height (Node l a r) \<and> height (Node l a r) \<le> height (bal l a r) + 1"
  proof (cases "height l = height r + 2")
    case True
    then obtain ll b lr where l: "l = Node ll b lr" by (cases l) auto
    show ?thesis
    proof (cases "height ll < height lr")
      case True
      then obtain x c y where "lr = Node x c y" by (cases lr) auto
      with l assms True \<open>height l = height r + 2\<close> show ?thesis
        by (auto simp: bal_def bal_left_def max_def)
    qed (use l assms True in \<open>auto simp: bal_def bal_left_def max_def\<close>)
  next
    case nl: False
    show ?thesis
    proof (cases "height r = height l + 2")
      case True
      then obtain rl b rr where r: "r = Node rl b rr" by (cases r) auto
      show ?thesis
      proof (cases "height rr < height rl")
        case True
        then obtain x c y where "rl = Node x c y" by (cases rl) auto
        with r assms True \<open>height r = height l + 2\<close> show ?thesis
          by (auto simp: bal_def bal_right_def max_def)
      qed (use r assms True in \<open>auto simp: bal_def bal_right_def max_def\<close>)
    qed (use nl assms in \<open>auto simp: bal_def\<close>)
  qed
  then show "avl (bal l a r)" "height (bal l a r) \<le> height (Node l a r)" "height (Node l a r) \<le> height (bal l a r) + 1"
    by auto
qed (auto simp: bal_def)


lemma rotate_left_node:
  assumes "node_at s par l c (Node m d r)" and "distinct (inorder (Node l c (Node m d r)))"
    and "height (Node (Node l c m) d r) < 2 ^ 32"
  shows "\<exists>s'. rotate_left c s = Some (d, s') \<and> rep s' par (Some d) (rotl l c (Node m d r))
     \<and> same_off (set_tree (Node l c (Node m d r))) s s'"
proof -
  from assms(1) obtain n k where
    "s c = Some n" "aparent n = par" "aright n = Some d" "rep s (Some c) (aleft n) l"
    "s d = Some k" "rep s (Some d) (aleft k) m" "rep s (Some d) (aright k) r"
    by (auto simp: node_at_def split: option.splits)
  from rotate_left_rep [OF this assms(2,3)] show ?thesis by simp
qed

lemma rotate_right_node:
  assumes "node_at s par (Node l d m) c r" and "distinct (inorder (Node (Node l d m) c r))"
    and "height (Node l d (Node m c r)) < 2 ^ 32"
  shows "\<exists>s'. rotate_right c s = Some (d, s') \<and> rep s' par (Some d) (rotr (Node l d m) c r)
     \<and> same_off (set_tree (Node (Node l d m) c r)) s s'"
proof -
  from assms(1) obtain n k where
    "s c = Some n" "aparent n = par" "aleft n = Some d" "rep s (Some c) (aright n) r"
    "s d = Some k" "rep s (Some d) (aleft k) l" "rep s (Some d) (aright k) m"
    by (auto simp: node_at_def split: option.splits)
  from rotate_right_rep [OF this assms(2,3)] show ?thesis by simp
qed

lemma node_at_set_left:
  assumes "node_at s par l a r" and "same_off A s s'" and "A \<inter> set_tree (Node Leaf a r) = {}"
    and "rep s' (Some a) p l'" and "a \<notin> set_tree l'" and "a \<notin> set_tree r"
  shows "\<exists>s''. upd (\<lambda>n. n\<lparr>aleft := p\<rparr>) a s' = Some s'' \<and> node_at s'' par l' a r \<and> same_off {a} s' s''"
proof -
  obtain n where n: "s a = Some n" "aparent n = par" "rep s (Some a) (aright n) r"
    using assms(1) by (auto simp: node_at_def split: option.splits)
  have "s' a = Some n" using assms(2,3) n(1) by (auto simp: same_off_def)
  moreover have "rep s' (Some a) (aright n) r" using n(3) rep_same_off [OF assms(2)] assms(3) by auto
  ultimately show ?thesis using n assms(4-) by (auto simp: upd_def node_at_def)
qed

lemma node_at_set_right:
  assumes "node_at s par l a r" and "same_off A s s'" and "A \<inter> set_tree (Node l a Leaf) = {}"
    and "rep s' (Some a) p r'" and "a \<notin> set_tree l" and "a \<notin> set_tree r'"
  shows "\<exists>s''. upd (\<lambda>n. n\<lparr>aright := p\<rparr>) a s' = Some s'' \<and> node_at s'' par l a r' \<and> same_off {a} s' s''"
proof -
  obtain n where n: "s a = Some n" "aparent n = par" "rep s (Some a) (aleft n) l"
    using assms(1) by (auto simp: node_at_def split: option.splits)
  have "s' a = Some n" using assms(2,3) n(1) by (auto simp: same_off_def)
  moreover have "rep s' (Some a) (aleft n) l" using n(3) rep_same_off [OF assms(2)] assms(3) by auto
  ultimately show ?thesis using n assms(4-) by (auto simp: upd_def node_at_def)
qed

lemma height_word:
  "size (t :: 'a tree) < 2 ^ 31 \<Longrightarrow> size (t' :: 'a tree) < 2 ^ 31 \<Longrightarrow>
     ((of_nat (height t) :: u32) = of_nat (height t') + 2 \<longleftrightarrow> height t = height t' + 2)"
  "size (t :: 'a tree) < 2 ^ 31 \<Longrightarrow> size (t' :: 'a tree) < 2 ^ 31 \<Longrightarrow>
     ((of_nat (height t) :: u32) < of_nat (height t') \<longleftrightarrow> height t < height t')"
proof -
  assume "size t < 2 ^ 31" "size t' < 2 ^ 31"
  with height_le_size_tree [of t] height_le_size_tree [of t'] have h: "height t < 2 ^ 31" "height t' < 2 ^ 31" by auto
  have u: "unat (of_nat k :: u32) = k" if "k < 2 ^ 32" for k using that by (simp add: unat_of_nat)
  have "unat (of_nat (height t) :: u32) = height t" "unat (of_nat (height t') :: u32) = height t'"
    "unat (of_nat (height t' + 2) :: u32) = height t' + 2" by (rule u, use h in simp)+
  then show "(of_nat (height t) :: u32) = of_nat (height t') + 2 \<longleftrightarrow> height t = height t' + 2"
    "(of_nat (height t) :: u32) < of_nat (height t') \<longleftrightarrow> height t < height t'"
    by (metis of_nat_add of_nat_numeral, simp add: word_less_nat_alt)
qed

lemma small_height: "size (t :: 'a tree) < 2 ^ 31 \<Longrightarrow> height t < 2 ^ 32"
  using height_le_size_tree [of t] by simp

text \<open>The first, inner rotation of the two double-rotation cases.\<close>

lemma fix_left_rep:
  assumes na: "node_at s par (Node ll b lr) a r" and dist: "distinct (inorder (Node (Node ll b lr) a r))"
    and small: "size (Node (Node ll b lr) a r) < 2 ^ 31"
  shows "\<exists>s'. (if height ll < height lr then do {
                (x, s) \<leftarrow> rotate_left b s;
                upd (\<lambda>n. n\<lparr>aleft := Some x\<rparr>) a s
              } else Some s) = Some s' \<and> node_at s' par (bal_left (Node ll b lr)) a r
     \<and> same_off (set_tree (Node (Node ll b lr) a r)) s s'"
proof (cases "height ll < height lr")
  case True
  then obtain x c y where lr: "lr = Node x c y" by (cases lr) auto
  have inner: "node_at s (Some a) ll b (Node x c y)"
    using na lr by (auto simp: node_at_def split: option.splits)
  have "size (Node (Node ll b x) c y) < 2 ^ 31" using small lr by simp
  from rotate_left_node [OF inner _ small_height [OF this]] dist lr obtain s1 where
    s1: "rotate_left b s = Some (c, s1)" "rep s1 (Some a) (Some c) (rotl ll b lr)"
      "same_off (set_tree (Node ll b lr)) s s1" by auto
  have "\<exists>s2. upd (\<lambda>n. n\<lparr>aleft := Some c\<rparr>) a s1 = Some s2 \<and> node_at s2 par (rotl ll b lr) a r \<and> same_off {a} s1 s2"
    using node_at_set_left [OF na s1(3) _ s1(2)] dist lr by (auto simp: distinct_node)
  then obtain s2 where s2: "upd (\<lambda>n. n\<lparr>aleft := Some c\<rparr>) a s1 = Some s2" "node_at s2 par (rotl ll b lr) a r" "same_off {a} s1 s2"
    by blast
  have "same_off (set_tree (Node (Node ll b lr) a r)) s s2"
    using same_off_trans [OF s1(3) s2(3)] by (rule same_off_mono) auto
  with True s1(1) s2 show ?thesis by (auto simp: bal_left_def)
qed (use na in \<open>simp add: bal_left_def\<close>)

lemma fix_right_rep:
  assumes na: "node_at s par l a (Node rl b rr)" and dist: "distinct (inorder (Node l a (Node rl b rr)))"
    and small: "size (Node l a (Node rl b rr)) < 2 ^ 31"
  shows "\<exists>s'. (if height rr < height rl then do {
                (x, s) \<leftarrow> rotate_right b s;
                upd (\<lambda>n. n\<lparr>aright := Some x\<rparr>) a s
              } else Some s) = Some s' \<and> node_at s' par l a (bal_right (Node rl b rr))
     \<and> same_off (set_tree (Node l a (Node rl b rr))) s s'"
proof (cases "height rr < height rl")
  case True
  then obtain x c y where rl: "rl = Node x c y" by (cases rl) auto
  have inner: "node_at s (Some a) (Node x c y) b rr"
    using na rl by (auto simp: node_at_def split: option.splits)
  have "size (Node x c (Node y b rr)) < 2 ^ 31" using small rl by simp
  from rotate_right_node [OF inner _ small_height [OF this]] dist rl obtain s1 where
    s1: "rotate_right b s = Some (c, s1)" "rep s1 (Some a) (Some c) (rotr rl b rr)"
      "same_off (set_tree (Node rl b rr)) s s1" by auto
  have "\<exists>s2. upd (\<lambda>n. n\<lparr>aright := Some c\<rparr>) a s1 = Some s2 \<and> node_at s2 par l a (rotr rl b rr) \<and> same_off {a} s1 s2"
    using node_at_set_right [OF na s1(3) _ s1(2)] dist rl by (auto simp: distinct_node)
  then obtain s2 where s2: "upd (\<lambda>n. n\<lparr>aright := Some c\<rparr>) a s1 = Some s2" "node_at s2 par l a (rotr rl b rr)" "same_off {a} s1 s2"
    by blast
  have "same_off (set_tree (Node l a (Node rl b rr))) s s2"
    using same_off_trans [OF s1(3) s2(3)] by (rule same_off_mono) auto
  with True s1(1) s2 show ?thesis by (auto simp: bal_right_def)
qed (use na in \<open>simp add: bal_right_def\<close>)


lemma bal_left_node: "bal_left (Node ll b lr) \<noteq> Leaf"
  by (cases lr) (auto simp: bal_left_def)

lemma bal_right_node: "bal_right (Node rl b rr) \<noteq> Leaf"
  by (cases rl) (auto simp: bal_right_def)

text \<open>The two branches and a whole round of \<open>avl_fix\<close> implement \<open>bal\<close>.\<close>

lemma fix_left_heavy_rep:
  assumes na: "node_at s par (Node ll b lr) a r" and dist: "distinct (inorder (Node (Node ll b lr) a r))"
    and small: "size (Node (Node ll b lr) a r) < 2 ^ 31"
  shows "\<exists>c s'. fix_left_heavy a b s = Some (c, s') \<and> rep s' par (Some c) (rotr (bal_left (Node ll b lr)) a r)
     \<and> same_off (set_tree (Node (Node ll b lr) a r)) s s'"
proof -
  have sm: "size ll < 2 ^ 31" "size lr < 2 ^ 31" using small by auto
  obtain k where k: "s b = Some k" "rep s (Some b) (aleft k) ll" "rep s (Some b) (aright k) lr"
    using na by (auto simp: node_at_def split: option.splits)
  have hk: "avl_height s (aleft k) = Some (of_nat (height ll))" "avl_height s (aright k) = Some (of_nat (height lr))"
    using rep_height [OF k(2) small_height [OF sm(1)]] rep_height [OF k(3) small_height [OF sm(2)]] .
  from fix_left_rep [OF assms] obtain s2 where
    s2: "(if height ll < height lr then do {
              (x, s) \<leftarrow> rotate_left b s;
              upd (\<lambda>n. n\<lparr>aleft := Some x\<rparr>) a s
            } else Some s) = Some s2" "node_at s2 par (bal_left (Node ll b lr)) a r"
      "same_off (set_tree (Node (Node ll b lr) a r)) s s2" by blast
  obtain x c y where bl: "bal_left (Node ll b lr) = Node x c y"
    using bal_left_node [of ll b lr] by (cases "bal_left (Node ll b lr)") auto
  have in2: "inorder (Node (Node x c y) a r) = inorder (Node (Node ll b lr) a r)"
    using inorder_bal_side(1) [of "Node ll b lr"] bl by simp
  have "size (Node x c (Node y a r)) < 2 ^ 31" using size_eq_inorder [OF in2] small by simp
  then obtain s3 where s3: "rotate_right a s2 = Some (c, s3)" "rep s3 par (Some c) (rotr (Node x c y) a r)"
      "same_off (set_tree (Node (Node ll b lr) a r)) s2 s3"
    using rotate_right_node [OF s2(2) [unfolded bl] _ small_height] in2 dist set_tree_eq_inorder [OF in2] by metis
  have "fix_left_heavy a b s = Some (c, s3)"
    using k(1) hk s2(1) s3(1) height_word(2) [OF sm] by (simp add: fix_left_heavy_def)
  then show ?thesis using s3 bl same_off_trans [OF s2(3) s3(3)] by auto
qed

lemma fix_right_heavy_rep:
  assumes na: "node_at s par l a (Node rl b rr)" and dist: "distinct (inorder (Node l a (Node rl b rr)))"
    and small: "size (Node l a (Node rl b rr)) < 2 ^ 31"
  shows "\<exists>c s'. fix_right_heavy a b s = Some (c, s') \<and> rep s' par (Some c) (rotl l a (bal_right (Node rl b rr)))
     \<and> same_off (set_tree (Node l a (Node rl b rr))) s s'"
proof -
  have sm: "size rr < 2 ^ 31" "size rl < 2 ^ 31" using small by auto
  obtain k where k: "s b = Some k" "rep s (Some b) (aright k) rr" "rep s (Some b) (aleft k) rl"
    using na by (auto simp: node_at_def split: option.splits)
  have hk: "avl_height s (aright k) = Some (of_nat (height rr))" "avl_height s (aleft k) = Some (of_nat (height rl))"
    using rep_height [OF k(2) small_height [OF sm(1)]] rep_height [OF k(3) small_height [OF sm(2)]] .
  from fix_right_rep [OF assms] obtain s2 where
    s2: "(if height rr < height rl then do {
              (x, s) \<leftarrow> rotate_right b s;
              upd (\<lambda>n. n\<lparr>aright := Some x\<rparr>) a s
            } else Some s) = Some s2" "node_at s2 par l a (bal_right (Node rl b rr))"
      "same_off (set_tree (Node l a (Node rl b rr))) s s2" by blast
  obtain x c y where br: "bal_right (Node rl b rr) = Node x c y"
    using bal_right_node [of rl b rr] by (cases "bal_right (Node rl b rr)") auto
  have in2: "inorder (Node l a (Node x c y)) = inorder (Node l a (Node rl b rr))"
    using inorder_bal_side(2) [of "Node rl b rr"] br by simp
  have "size (Node (Node l a x) c y) < 2 ^ 31" using size_eq_inorder [OF in2] small by simp
  then obtain s3 where s3: "rotate_left a s2 = Some (c, s3)" "rep s3 par (Some c) (rotl l a (Node x c y))"
      "same_off (set_tree (Node l a (Node rl b rr))) s2 s3"
    using rotate_left_node [OF s2(2) [unfolded br] _ small_height] in2 dist set_tree_eq_inorder [OF in2] by metis
  have "fix_right_heavy a b s = Some (c, s3)"
    using k(1) hk s2(1) s3(1) height_word(2) [OF sm] by (simp add: fix_right_heavy_def)
  then show ?thesis using s3 br same_off_trans [OF s2(3) s3(3)] by auto
qed

lemma fix_node_rep:
  assumes na: "node_at s par l a r" and dist: "distinct (inorder (Node l a r))" and small: "size (Node l a r) < 2 ^ 31"
  shows "\<exists>a' s'. fix_node a s = Some (a', s') \<and> rep s' par (Some a') (bal l a r) \<and> same_off (set_tree (Node l a r)) s s'"
proof -
  have sm: "size l < 2 ^ 31" "size r < 2 ^ 31" using small by auto
  obtain n where n: "s a = Some n" "rep s (Some a) (aleft n) l" "rep s (Some a) (aright n) r"
    using na by (auto simp: node_at_def split: option.splits)
  have h: "avl_height s (aleft n) = Some (of_nat (height l))" "avl_height s (aright n) = Some (of_nat (height r))"
    using rep_height [OF n(2) small_height [OF sm(1)]] rep_height [OF n(3) small_height [OF sm(2)]] .
  obtain s1 where s1: "update_node a s = Some s1" "rep s1 par (Some a) (Node l a r)" "same_off {a} s s1"
    using update_node_rep [OF na _ _ small_height [OF small]] dist by (auto simp: distinct_node)
  have s1': "same_off (set_tree (Node l a r)) s s1" using s1(3) by (rule same_off_mono) simp
  note na1 = rep_node_at [OF s1(2)]
  consider (L) ll b lr where "height l = height r + 2" "l = Node ll b lr" "aleft n = Some b"
    | (R) rl b rr where "height l \<noteq> height r + 2" "height r = height l + 2" "r = Node rl b rr" "aright n = Some b"
    | (N) "height l \<noteq> height r + 2" "height r \<noteq> height l + 2"
    using n by (cases l; cases r) auto
  then show ?thesis
  proof cases
    case L
    from fix_left_heavy_rep [OF na1 [unfolded L] dist [unfolded L] small [unfolded L]] obtain c s' where
      "fix_left_heavy a b s1 = Some (c, s')" "rep s' par (Some c) (bal l a r)" "same_off (set_tree (Node l a r)) s1 s'"
      using L by (auto simp: bal_def)
    then show ?thesis using n(1) h s1(1) L height_word(1) [OF sm] same_off_trans [OF s1']
      by (fastforce simp: fix_node_def)
  next
    case R
    from fix_right_heavy_rep [OF na1 [unfolded R] dist [unfolded R] small [unfolded R]] obtain c s' where
      "fix_right_heavy a b s1 = Some (c, s')" "rep s' par (Some c) (bal l a r)" "same_off (set_tree (Node l a r)) s1 s'"
      using R by (auto simp: bal_def)
    then show ?thesis using n(1) h s1(1) R height_word(1) [OF sm] height_word(1) [OF sm(2,1)] same_off_trans [OF s1']
      by (fastforce simp: fix_node_def)
  next
    case N
    then show ?thesis using n(1) h s1 s1' height_word(1) [OF sm] height_word(1) [OF sm(2,1)]
      by (simp add: fix_node_def bal_def)
  qed
qed


section \<open>The walk to the root\<close>

text \<open>A tree with a hole, as the path from the hole to the root: the node, its other
  subtree, and the side the hole is on.\<close>

datatype 'a frame = FL 'a "'a tree" | FR "'a tree" 'a

primrec frame_tree :: "'a frame \<Rightarrow> 'a tree \<Rightarrow> 'a tree" where
  "frame_tree (FL a r) t = Node t a r"
| "frame_tree (FR l a) t = Node l a t"

primrec frame_addr :: "'a frame \<Rightarrow> 'a" where
  "frame_addr (FL a r) = a"
| "frame_addr (FR l a) = a"

primrec fill :: "'a frame list \<Rightarrow> 'a tree \<Rightarrow> 'a tree" where
  "fill [] t = t"
| "fill (f # c) t = fill c (frame_tree f t)"

primrec ctx_set :: "'a frame list \<Rightarrow> 'a set" where
  "ctx_set [] = {}"
| "ctx_set (f # c) = set_tree (frame_tree f Leaf) \<union> ctx_set c"

primrec ctx_par :: "addr frame list \<Rightarrow> ptr" where
  "ctx_par [] = None"
| "ctx_par (f # c) = Some (frame_addr f)"

text \<open>The path is in the store, and \<open>p\<close> is what stands in the hole; the height and size
  fields along the path may be stale.\<close>

primrec ctx_at :: "astore \<Rightarrow> addr frame list \<Rightarrow> ptr \<Rightarrow> bool" where
  "ctx_at s [] p = True"
| "ctx_at s (f # c) p = ((case s (frame_addr f) of None \<Rightarrow> False | Some n \<Rightarrow> aparent n = ctx_par c \<and>
      (case f of FL a r \<Rightarrow> aleft n = p \<and> rep s (Some a) (aright n) r
               | FR l a \<Rightarrow> aright n = p \<and> rep s (Some a) (aleft n) l))
     \<and> ctx_at s c (Some (frame_addr f)))"

text \<open>The tree that the walk of \<open>avl_fix\<close> from the hole to the root builds.\<close>

primrec fixup :: "'a frame list \<Rightarrow> 'a tree \<Rightarrow> 'a tree" where
  "fixup [] t = t"
| "fixup (f # c) t = fixup c (case f of FL a r \<Rightarrow> bal t a r | FR l a \<Rightarrow> bal l a t)"

lemma frame_addr_in [simp]: "frame_addr f \<in> set_tree (frame_tree f t)"
  by (cases f) auto

lemma set_frame_tree: "set_tree (frame_tree f t) = set_tree (frame_tree f Leaf) \<union> set_tree t"
  by (cases f) auto

lemma set_fill: "set_tree (fill c t) = ctx_set c \<union> set_tree t"
proof (induction c arbitrary: t)
  case (Cons f c)
  then show ?case using set_frame_tree [of f t] by auto
qed simp

lemma fill_cong_inorder: "inorder t = inorder t' \<Longrightarrow> inorder (fill c t) = inorder (fill c t')"
proof (induction c arbitrary: t t')
  case (Cons f c)
  then show ?case by (cases f) auto
qed simp

lemma inorder_fixup: "inorder (fixup c t) = inorder (fill c t)"
proof (induction c arbitrary: t)
  case (Cons f c)
  then show ?case by (cases f) (auto intro: fill_cong_inorder)
qed simp

lemma distinct_fill: "distinct (inorder (fill c t)) \<Longrightarrow> distinct (inorder t) \<and> ctx_set c \<inter> set_tree t = {}"
proof (induction c arbitrary: t)
  case (Cons f c)
  from Cons.IH [of "frame_tree f t"] Cons.prems show ?case by (cases f) (auto simp: distinct_node)
qed simp

lemma size_fill: "size t \<le> size (fill c t)"
proof (induction c arbitrary: t)
  case (Cons f c)
  have "size t \<le> size (frame_tree f t)" by (cases f) auto
  with Cons [of "frame_tree f t"] show ?case by simp
qed simp

lemma ctx_at_same_off: "ctx_at s c p \<Longrightarrow> same_off A s s' \<Longrightarrow> A \<inter> ctx_set c = {} \<Longrightarrow> ctx_at s' c p"
proof (induction c arbitrary: p)
  case (Cons f c)
  then have d: "A \<inter> set_tree (frame_tree f Leaf) = {}" "s' (frame_addr f) = s (frame_addr f)"
    using frame_addr_in [of f Leaf] by (auto simp: same_off_def)
  from Cons d show ?case
    by (cases f) (auto simp: rep_same_off [OF Cons.prems(2)] Int_Un_distrib split: option.splits)
qed simp

text \<open>Putting a rebuilt subtree into the hole.\<close>

lemma ctx_at_step:
  assumes "ctx_at s (f # c) p" and "rep s (ctx_par (f # c)) x t" and d: "distinct (inorder (fill (f # c) t))"
  shows "\<exists>s' l r. upd (\<lambda>n. case f of FL _ _ \<Rightarrow> n\<lparr>aleft := x\<rparr> | FR _ _ \<Rightarrow> n\<lparr>aright := x\<rparr>) (frame_addr f) s = Some s'
     \<and> frame_tree f t = Node l (frame_addr f) r \<and> node_at s' (ctx_par c) l (frame_addr f) r
     \<and> ctx_at s' c (Some (frame_addr f)) \<and> same_off {frame_addr f} s s'"
proof -
  have df: "distinct (inorder (frame_tree f t))" "ctx_set c \<inter> set_tree (frame_tree f t) = {}"
    using distinct_fill [of c "frame_tree f t"] d by auto
  obtain n where n: "s (frame_addr f) = Some n" "aparent n = ctx_par c" using assms(1) by (auto split: option.splits)
  define s' where "s' = s(frame_addr f \<mapsto> (case f of FL _ _ \<Rightarrow> n\<lparr>aleft := x\<rparr> | FR _ _ \<Rightarrow> n\<lparr>aright := x\<rparr>))"
  have so: "same_off {frame_addr f} s s'" by (simp add: s'_def)
  have "ctx_at s' c (Some (frame_addr f))"
    using assms(1) df(2) frame_addr_in [of f t] by (intro ctx_at_same_off [OF _ so]) auto
  moreover have "upd (\<lambda>n. case f of FL _ _ \<Rightarrow> n\<lparr>aleft := x\<rparr> | FR _ _ \<Rightarrow> n\<lparr>aright := x\<rparr>) (frame_addr f) s = Some s'"
    using n by (simp add: upd_def s'_def)
  moreover have "\<exists>l r. frame_tree f t = Node l (frame_addr f) r \<and> node_at s' (ctx_par c) l (frame_addr f) r"
    using assms(1,2) df n by (cases f) (auto simp: node_at_def s'_def distinct_node)
  ultimately show ?thesis using so by blast
qed

lemma ctx_side:
  assumes "ctx_at s (f # c) (Some a)" and "distinct (inorder (fill (f # c) (Node l a r)))"
  shows "\<exists>p. s (frame_addr f) = Some p \<and> (aleft p = Some a \<longleftrightarrow> (case f of FL _ _ \<Rightarrow> True | FR _ _ \<Rightarrow> False))"
proof -
  have d: "distinct (inorder (frame_tree f (Node l a r)))" using distinct_fill assms(2) by fastforce
  obtain n where n: "s (frame_addr f) = Some n" using assms(1) by (auto split: option.splits)
  have "aleft n = Some a \<longleftrightarrow> (case f of FL _ _ \<Rightarrow> True | FR _ _ \<Rightarrow> False)"
  proof (cases f)
    case (FR l' b)
    with assms(1) n have "rep s (Some b) (aleft n) l'" by simp
    with FR d show ?thesis by (cases l') (auto simp: distinct_node)
  qed (use assms(1) n in auto)
  with n show ?thesis by blast
qed

lemma ctx_from_left:
  assumes "ctx_at s (f # c) (Some a)" and "distinct (inorder (fill (f # c) (Node l a r)))"
  shows "\<exists>p. s (frame_addr f) = Some p \<and> (\<forall>b s'. upd (\<lambda>n. if aleft p = Some a then n\<lparr>aleft := x\<rparr> else n\<lparr>aright := x\<rparr>) b s' =
     upd (\<lambda>n. case f of FL _ _ \<Rightarrow> n\<lparr>aleft := x\<rparr> | FR _ _ \<Rightarrow> n\<lparr>aright := x\<rparr>) b s')"
  using ctx_side [OF assms] by (cases f) auto

lemma ctx_relink:
  assumes "ctx_at s (f # c) (Some a)" and "distinct (inorder (fill (f # c) (Node l a r)))"
  shows "upd (relink a x) (frame_addr f) s =
     upd (\<lambda>n. case f of FL _ _ \<Rightarrow> n\<lparr>aleft := x\<rparr> | FR _ _ \<Rightarrow> n\<lparr>aright := x\<rparr>) (frame_addr f) s"
  using ctx_side [OF assms] by (cases f) (auto simp: upd_def relink_def)

lemma avl_fix_walk:
  assumes "node_at s (ctx_par c) l a r" and "ctx_at s c (Some a)"
    and "distinct (inorder (fill c (Node l a r)))" and "size (fill c (Node l a r)) < 2 ^ 31"
  shows "\<exists>root s'. avl_fix a s = Some (root, s') \<and> rep s' None (Some root) (fixup c (bal l a r))
     \<and> same_off (set_tree (fill c (Node l a r))) s s'"
  using assms
proof (induction c arbitrary: s l a r)
  case Nil
  obtain n where n: "s a = Some n" "aparent n = None" using Nil(1) by (auto simp: node_at_def split: option.splits)
  from fix_node_rep [OF Nil(1)] Nil(3,4) n show ?case
    by (subst avl_fix.simps) auto
next
  case (Cons f c)
  let ?p = "frame_addr f"
  have df: "distinct (inorder (Node l a r))" "ctx_set (f # c) \<inter> set_tree (Node l a r) = {}"
    and sz: "size (Node l a r) < 2 ^ 31"
    using distinct_fill [OF Cons.prems(3)] Cons.prems(4) size_fill [of "Node l a r" "f # c"] by auto
  obtain n where n: "s a = Some n" "aparent n = Some ?p" using Cons.prems(1) by (auto simp: node_at_def split: option.splits)
  from fix_node_rep [OF Cons.prems(1) df(1) sz] obtain x s1 where
    s1: "fix_node a s = Some (x, s1)" "rep s1 (Some ?p) (Some x) (bal l a r)" "same_off (set_tree (Node l a r)) s s1" by auto
  have in1: "inorder (fill (f # c) (bal l a r)) = inorder (fill (f # c) (Node l a r))" by (rule fill_cong_inorder) simp
  have "ctx_at s1 (f # c) (Some a)" using ctx_at_same_off [OF Cons.prems(2) s1(3)] df(2) by blast
  from ctx_at_step [OF this, of "Some x" "bal l a r"] s1(2) in1 Cons.prems(3) obtain s2 l' r' where
    s2: "upd (\<lambda>n. case f of FL _ _ \<Rightarrow> n\<lparr>aleft := Some x\<rparr> | FR _ _ \<Rightarrow> n\<lparr>aright := Some x\<rparr>) ?p s1 = Some s2"
      "frame_tree f (bal l a r) = Node l' ?p r'" "node_at s2 (ctx_par c) l' ?p r'" "ctx_at s2 c (Some ?p)"
      "same_off {?p} s1 s2" by auto
  have eqf: "fill (f # c) (bal l a r) = fill c (Node l' ?p r')" using s2(2) by simp
  have "distinct (inorder (fill c (Node l' ?p r')))" "size (fill c (Node l' ?p r')) < 2 ^ 31"
    using in1 size_eq_inorder [OF in1] Cons.prems(3,4) unfolding eqf by simp_all
  from Cons.IH [OF s2(3,4) this] obtain root s3 where
    s3: "avl_fix ?p s2 = Some (root, s3)" "rep s3 None (Some root) (fixup c (bal l' ?p r'))"
      "same_off (set_tree (fill c (Node l' ?p r'))) s2 s3" by blast
  have "fixup (f # c) (bal l a r) = fixup c (bal l' ?p r')" using s2(2) by (cases f) auto
  moreover have "avl_fix a s = Some (root, s3)"
  proof -
    obtain q where "s ?p = Some q" "upd (\<lambda>n. if aleft q = Some a then n\<lparr>aleft := Some x\<rparr> else n\<lparr>aright := Some x\<rparr>) ?p s1 = Some s2"
      using ctx_from_left [OF Cons.prems(2,3), of "Some x"] s2(1) by auto
    then show ?thesis
      using n s1(1) s3(1) by (subst avl_fix.simps) simp
  qed
  moreover have "same_off (set_tree (fill (f # c) (Node l a r))) s s3"
  proof (rule same_off_mono [OF same_off_trans [OF s1(3) same_off_trans [OF s2(5) s3(3)]]])
    have "set_tree (fill c (Node l' ?p r')) = set_tree (fill (f # c) (Node l a r))"
      using set_tree_eq_inorder [OF in1] by (simp only: eqf)
    then show "set_tree (Node l a r) \<union> ({?p} \<union> set_tree (fill c (Node l' ?p r'))) \<subseteq> set_tree (fill (f # c) (Node l a r))"
      using set_fill [of c "Node l' ?p r'"] set_fill [of "f # c" "Node l a r"] by auto
  qed
  ultimately show ?case using s3(2) by auto
qed


section \<open>Whole trees and their paths\<close>

primrec ctx_fields :: "astore \<Rightarrow> addr frame list \<Rightarrow> nat \<Rightarrow> nat \<Rightarrow> bool" where
  "ctx_fields s [] h k = True"
| "ctx_fields s (f # c) h k = (let h' = (case f of FL a r \<Rightarrow> Suc (max h (height r)) | FR l a \<Rightarrow> Suc (max (height l) h));
       k' = Suc (case f of FL a r \<Rightarrow> k + size r | FR l a \<Rightarrow> size l + k)
     in (case s (frame_addr f) of None \<Rightarrow> False | Some n \<Rightarrow> aheight n = of_nat h' \<and> asize n = of_nat k')
        \<and> ctx_fields s c h' k')"

definition ctx_root :: "addr frame list \<Rightarrow> ptr \<Rightarrow> ptr" where
  "ctx_root c p = (if c = [] then p else Some (frame_addr (last c)))"

lemma ctx_root_simps [simp]: "ctx_root [] p = p" "ctx_root (f # c) p = ctx_root c (Some (frame_addr f))"
  by (simp_all add: ctx_root_def)

lemma rep_frame:
  "rep s par p (frame_tree f t) \<longleftrightarrow> p = Some (frame_addr f) \<and> (\<exists>q n. rep s (Some (frame_addr f)) q t \<and> s (frame_addr f) = Some n
     \<and> aparent n = par \<and> aheight n = of_nat (height (frame_tree f t)) \<and> asize n = of_nat (size (frame_tree f t))
     \<and> (case f of FL a r \<Rightarrow> aleft n = q \<and> rep s (Some a) (aright n) r | FR l a \<Rightarrow> aright n = q \<and> rep s (Some a) (aleft n) l))"
  by (cases f) (auto split: option.splits)

lemma rep_fill:
  "rep s None root (fill c t) \<longleftrightarrow> (\<exists>p. rep s (ctx_par c) p t \<and> ctx_at s c p \<and> ctx_fields s c (height t) (size t) \<and> root = ctx_root c p)"
proof (induction c arbitrary: t)
  case (Cons f c)
  show ?case
    by (simp add: Cons.IH rep_frame) (cases f; auto split: option.splits simp: Let_def)
qed simp

lemma fill_append: "fill (c @ c') t = fill c' (fill c t)"
  by (induction c arbitrary: t) auto

lemma path_to: "d \<in> set_tree t \<Longrightarrow> \<exists>c l r. t = fill c (Node l d r)"
proof (induction t)
  case (Node l a r)
  then consider "d = a" | c l' r' where "l = fill c (Node l' d r')" | c l' r' where "r = fill c (Node l' d r')" by auto
  then show ?case
  proof cases
    case 1
    then show ?thesis by (metis fill.simps(1))
  next
    case (2 c)
    then have "Node l a r = fill (c @ [FL a r]) (Node l' d r')" by (simp add: fill_append)
    then show ?thesis by blast
  next
    case (3 c)
    then have "Node l a r = fill (c @ [FR l a]) (Node l' d r')" by (simp add: fill_append)
    then show ?thesis by blast
  qed
qed simp

lemma inorder_fill: "\<exists>xs ys. \<forall>t. inorder (fill c t) = xs @ inorder t @ ys"
proof (induction c)
  case Nil
  show ?case by (metis append_Nil append_Nil2 fill.simps(1))
next
  case (Cons f c)
  then obtain xs ys where "\<forall>t. inorder (fill c t) = xs @ inorder t @ ys" by blast
  then have "\<forall>t. inorder (fill (f # c) t) = (case f of FL a r \<Rightarrow> xs | FR l a \<Rightarrow> xs @ inorder l @ [a]) @ inorder t
     @ (case f of FL a r \<Rightarrow> a # inorder r @ ys | FR l a \<Rightarrow> ys)"
    by (cases f) auto
  then show ?case by blast
qed

primrec ctx_avl :: "'a frame list \<Rightarrow> nat \<Rightarrow> bool" where
  "ctx_avl [] h = True"
| "ctx_avl (f # c) h = (let t = (case f of FL a r \<Rightarrow> r | FR l a \<Rightarrow> l)
     in avl t \<and> h \<le> height t + 1 \<and> height t \<le> h + 1 \<and> ctx_avl c (Suc (max h (height t))))"

lemma avl_fill: "avl (fill c t) \<longleftrightarrow> avl t \<and> ctx_avl c (height t)"
proof (induction c arbitrary: t)
  case (Cons f c)
  show ?case by (cases f) (auto simp: Cons.IH max.commute)
qed simp

lemma fixup_avl: "ctx_avl c h \<Longrightarrow> avl t \<Longrightarrow> height t \<le> h + 1 \<Longrightarrow> h \<le> height t + 1 \<Longrightarrow> avl (fixup c t)"
proof (induction c arbitrary: h t)
  case (Cons f c)
  show ?case
  proof (cases f)
    case (FL a r)
    with Cons.prems bal_avl [of t r a] Cons.IH [of "Suc (max h (height r))" "bal t a r"] show ?thesis
      by (cases "height t \<le> height r + 1 \<and> height r \<le> height t + 1") (auto simp: max_def split: if_splits)
  next
    case (FR l a)
    with Cons.prems bal_avl [of l t a] Cons.IH [of "Suc (max h (height l))" "bal l a t"] show ?thesis
      by (cases "height t \<le> height l + 1 \<and> height l \<le> height t + 1") (auto simp: max_def split: if_splits)
  qed
qed simp


section \<open>Removal\<close>

text \<open>Unlinking a node with at most one child, then rebalancing from its parent to the root.\<close>

lemma del_simple_rep:
  assumes rp: "rep s None root (fill c (Node l d r))" and one: "l = Leaf \<or> r = Leaf"
    and dist: "distinct (inorder (fill c (Node l d r)))" and small: "size (fill c (Node l d r)) < 2 ^ 31"
  defines "t \<equiv> if l \<noteq> Leaf then l else r"
  shows "\<exists>root' s'. del_simple d s = Some (root', s') \<and> rep s' None root' (fixup c t) \<and> same_off (set_tree (fill c t)) s s'"
proof -
  from rp obtain n where n: "s d = Some n" "aparent n = ctx_par c" "rep s (Some d) (aleft n) l" "rep s (Some d) (aright n) r"
    and ca: "ctx_at s c (Some d)" by (auto simp: rep_fill split: option.splits)
  define ch where "ch = (if aleft n \<noteq> None then aleft n else aright n)"
  have ch: "rep s (Some d) ch t" "\<not> (aleft n \<noteq> None \<and> aright n \<noteq> None)"
    using rep_leaf_iff [OF n(3)] rep_leaf_iff [OF n(4)] n(3,4) one by (auto simp: t_def ch_def)
  have in1: "\<exists>xs ys. inorder (fill c (Node l d r)) = xs @ inorder (Node l d r) @ ys \<and> inorder (fill c t) = xs @ inorder t @ ys"
    using inorder_fill [of c] by metis
  have "size (fill c t) \<le> size (fill c (Node l d r))"
    using in1 one unfolding length_inorder [symmetric] by (auto simp: t_def simp del: length_inorder)
  then have dt: "distinct (inorder t)" "ctx_set c \<inter> set_tree t = {}" "distinct (inorder (fill c t))" "size (fill c t) < 2 ^ 31"
    using distinct_fill [OF dist] in1 dist small one by (auto simp: t_def split: if_splits)
  from rep_set_parent [OF ch(1) dt(1), of "ctx_par c"] obtain s1 where
    s1: "upd_opt (\<lambda>n. n\<lparr>aparent := ctx_par c\<rparr>) ch s = Some s1" "rep s1 (ctx_par c) ch t" "same_off (set_tree t) s s1" by blast
  have ca1: "ctx_at s1 c (Some d)" using ctx_at_same_off [OF ca s1(3)] dt(2) by blast
  show ?thesis
  proof (cases c)
    case Nil
    then have "del_simple d s = Some (ch, s1)" using n(1,2) s1(1) ch(2) unfolding del_simple_def ch_def by auto
    then show ?thesis using Nil s1 by auto
  next
    case (Cons f c')
    from ctx_at_step [OF ca1 [unfolded Cons] s1(2) [unfolded Cons] dt(3) [unfolded Cons]] obtain s2 l' r' where
      s2: "upd (\<lambda>n. case f of FL _ _ \<Rightarrow> n\<lparr>aleft := ch\<rparr> | FR _ _ \<Rightarrow> n\<lparr>aright := ch\<rparr>) (frame_addr f) s1 = Some s2"
        "frame_tree f t = Node l' (frame_addr f) r'" "node_at s2 (ctx_par c') l' (frame_addr f) r'"
        "ctx_at s2 c' (Some (frame_addr f))" "same_off {frame_addr f} s1 s2" by blast
    have e: "fill c t = fill c' (Node l' (frame_addr f) r')" using Cons s2(2) by simp
    from avl_fix_walk [OF s2(3,4)] dt(3,4) obtain root' s3 where
      s3: "avl_fix (frame_addr f) s2 = Some (root', s3)" "rep s3 None (Some root') (fixup c' (bal l' (frame_addr f) r'))"
        "same_off (set_tree (fill c t)) s2 s3" unfolding e by blast
    have "fixup c t = fixup c' (bal l' (frame_addr f) r')" using Cons s2(2) by (cases f) auto
    moreover have s2': "upd (relink d ch) (frame_addr f) s1 = Some s2"
      using ctx_relink [OF ca1 [unfolded Cons] dist [unfolded Cons], of ch] s2(1) by simp
    moreover have "same_off (set_tree (fill c t)) s s3"
      using same_off_trans [OF s1(3) same_off_trans [OF s2(5) s3(3)]]
      by (elim same_off_mono) (use set_frame_tree [of f t] in \<open>auto simp: set_fill Cons\<close>)
    moreover have "del_simple d s = Some (Some root', s3)"
      using n(1,2) ch(2) s1(1) s2' s3(1) Cons unfolding del_simple_def ch_def by (cases "aleft n") auto
    ultimately show ?thesis using s3(2) by auto
  qed
qed


lemma leftmost_rep:
  assumes "rep s par (Some a) t"
  shows "\<exists>v c r ys. leftmost s a = Some v \<and> t = fill c (Node Leaf v r) \<and> (\<forall>u. inorder (fill c u) = inorder u @ ys)"
  using assms
proof (induction t arbitrary: par a)
  case (Node l b r)
  then obtain n where n: "a = b" "s b = Some n" "rep s (Some b) (aleft n) l" by (auto split: option.splits)
  show ?case
  proof (cases "aleft n")
    case None
    with n rep_leaf_iff [OF n(3)] have "leftmost s a = Some b" "Node l b r = fill [] (Node Leaf b r)"
      by (subst leftmost.simps, auto)
    then show ?thesis by (metis append_Nil2 fill.simps(1))
  next
    case (Some a')
    from Node.IH(1) [OF n(3) [unfolded Some]] obtain v c r' ys where
      v: "leftmost s a' = Some v" "l = fill c (Node Leaf v r')" "\<forall>u. inorder (fill c u) = inorder u @ ys" by blast
    then have "leftmost s a = Some v" "Node l b r = fill (c @ [FL b r]) (Node Leaf v r')"
      "\<forall>u. inorder (fill (c @ [FL b r]) u) = inorder u @ (ys @ b # inorder r)"
      using n Some by (subst leftmost.simps, auto simp: fill_append)
    then show ?thesis by blast
  qed
qed simp

lemma ctx_fields_same_off: "ctx_fields s c h k \<Longrightarrow> same_off A s s' \<Longrightarrow> A \<inter> ctx_set c = {} \<Longrightarrow> ctx_fields s' c h k"
proof (induction c arbitrary: h k)
  case (Cons f c)
  then have "s' (frame_addr f) = s (frame_addr f)" using frame_addr_in [of f Leaf] by (auto simp: same_off_def)
  with Cons show ?case by (auto simp: Let_def)
qed simp

lemma ctx_set_link:
  assumes "ctx_at s (f # c) p" and "ctx_fields s (f # c) h k" and d: "distinct (inorder (fill (f # c) t))"
  shows "\<exists>s'. upd (\<lambda>n. case f of FL _ _ \<Rightarrow> n\<lparr>aleft := x\<rparr> | FR _ _ \<Rightarrow> n\<lparr>aright := x\<rparr>) (frame_addr f) s = Some s'
     \<and> ctx_at s' (f # c) x \<and> ctx_fields s' (f # c) h k \<and> same_off {frame_addr f} s s'"
proof -
  have df: "distinct (inorder (frame_tree f t))" "ctx_set c \<inter> set_tree (frame_tree f t) = {}"
    using distinct_fill [of c "frame_tree f t"] d by auto
  obtain n where n: "s (frame_addr f) = Some n" using assms(1) by (auto split: option.splits)
  define s' where "s' = s(frame_addr f \<mapsto> (case f of FL _ _ \<Rightarrow> n\<lparr>aleft := x\<rparr> | FR _ _ \<Rightarrow> n\<lparr>aright := x\<rparr>))"
  have so: "same_off {frame_addr f} s s'" by (simp add: s'_def)
  have nin: "frame_addr f \<notin> ctx_set c" using df(2) frame_addr_in [of f t] by blast
  have "ctx_at s' c (Some (frame_addr f))" using assms(1) nin by (intro ctx_at_same_off [OF _ so]) auto
  moreover have "ctx_fields s c h' k' \<Longrightarrow> ctx_fields s' c h' k'" for h' k'
    using nin by (intro ctx_fields_same_off [OF _ so]) auto
  ultimately have "ctx_at s' (f # c) x \<and> ctx_fields s' (f # c) h k"
    using assms(1,2) n df(1) by (cases f) (auto simp: s'_def distinct_node Let_def)
  moreover have "upd (\<lambda>n. case f of FL _ _ \<Rightarrow> n\<lparr>aleft := x\<rparr> | FR _ _ \<Rightarrow> n\<lparr>aright := x\<rparr>) (frame_addr f) s = Some s'"
    using n by (simp add: upd_def s'_def)
  ultimately show ?thesis using so by blast
qed

lemma take_over_rep:
  assumes rp: "rep s None root (fill c (Node l d r))" and dist: "distinct (inorder (fill c (Node l d r)))"
    and v: "v \<notin> set_tree (fill c (Node l d r))" "s v \<noteq> None"
  shows "\<exists>root' s'. take_over d v root s = Some (root', s') \<and> rep s' None root' (fill c (Node l v r))
     \<and> same_off (insert v (set_tree (fill c (Node l d r)))) s s'"
proof -
  from rp obtain n where n: "s d = Some n" "aparent n = ctx_par c" "rep s (Some d) (aleft n) l" "rep s (Some d) (aright n) r"
    and ca: "ctx_at s c (Some d)" "ctx_fields s c (height (Node l d r)) (size (Node l d r))" "root = ctx_root c (Some d)"
    and hs: "aheight n = of_nat (height (Node l v r))" "asize n = of_nat (size (Node l v r))"
    by (auto simp: rep_fill split: option.splits)
  have D: "distinct (inorder l)" "distinct (inorder r)" "d \<notin> set_tree l" "d \<notin> set_tree r" "set_tree l \<inter> set_tree r = {}"
    "ctx_set c \<inter> set_tree (Node l d r) = {}" "v \<notin> ctx_set c" "v \<notin> set_tree (Node l d r)"
    using distinct_fill [OF dist] v(1) by (auto simp: distinct_node set_fill)
  let ?s1 = "s(v \<mapsto> n)"
  have "rep ?s1 (Some d) (aleft n) l" "rep ?s1 (Some d) (aright n) r" using n D by auto
  note r1 = this
  from rep_set_parent [OF r1(1) D(1), of "Some v"] obtain s2 where
    s2: "upd_opt (\<lambda>n. n\<lparr>aparent := Some v\<rparr>) (aleft n) ?s1 = Some s2" "rep s2 (Some v) (aleft n) l" "same_off (set_tree l) ?s1 s2"
    by blast
  have "rep s2 (Some d) (aright n) r" using rep_same_off [OF s2(3) D(5)] r1(2) by blast
  from rep_set_parent [OF this D(2), of "Some v"] obtain s3 where
    s3: "upd_opt (\<lambda>n. n\<lparr>aparent := Some v\<rparr>) (aright n) s2 = Some s3" "rep s3 (Some v) (aright n) r" "same_off (set_tree r) s2 s3"
    by blast
  have l3: "rep s3 (Some v) (aleft n) l" using rep_same_off [OF s3(3), of l] D(5) s2(2) by (simp add: Int_commute)
  have so: "same_off (insert v (set_tree l \<union> set_tree r)) s s3"
    using s2(3) s3(3) by (auto simp: same_off_def)
  have "s3 v = Some n" using s2(3) s3(3) D by (auto simp: same_off_def)
  then have rv: "rep s3 (ctx_par c) (Some v) (Node l v r)" using n hs s3 l3 by simp
  have c3: "ctx_at s3 c (Some d)" "ctx_fields s3 c (height (Node l d r)) (size (Node l d r))"
    using ctx_at_same_off [OF ca(1) so] ctx_fields_same_off [OF ca(2) so] D by auto
  have st: "upd (\<lambda>_. n) v s = Some ?s1" using v(2) by (auto simp: upd_def)
  show ?thesis
  proof (cases c)
    case Nil
    then show ?thesis using n st s2(1) s3(1) rv so
      by (auto simp: take_over_def elim: same_off_mono)
  next
    case (Cons f c')
    let ?fa = "frame_addr f"
    from ctx_set_link [OF c3 [unfolded Cons] dist [unfolded Cons], of "Some v"] obtain s4 where
      s4: "upd (\<lambda>n. case f of FL _ _ \<Rightarrow> n\<lparr>aleft := Some v\<rparr> | FR _ _ \<Rightarrow> n\<lparr>aright := Some v\<rparr>) ?fa s3 = Some s4"
        "ctx_at s4 c (Some v)" "ctx_fields s4 c (height (Node l d r)) (size (Node l d r))" "same_off {?fa} s3 s4"
      unfolding Cons by blast
    have "?fa \<in> ctx_set c" using Cons by simp
    then have "{?fa} \<inter> set_tree (Node l v r) = {}" using D by auto
    then have "rep s4 (ctx_par c) (Some v) (Node l v r)" using rep_same_off [OF s4(4)] rv by blast
    then have "rep s4 None (ctx_root c (Some v)) (fill c (Node l v r))" using s4 by (auto simp: rep_fill)
    moreover have "ctx_root c (Some v) = root" using Cons ca(3) by simp
    moreover have "same_off (insert v (set_tree (fill c (Node l d r)))) s s4"
      using same_off_trans [OF so s4(4)] \<open>?fa \<in> ctx_set c\<close> by (elim same_off_mono) (auto simp: set_fill)
    ultimately show ?thesis
      using n st s2(1) s3(1) s4(1) Cons ctx_relink [OF c3(1) [unfolded Cons] dist [unfolded Cons], of "Some v"]
      by (auto simp: take_over_def)
  qed
qed


lemma swap_inorder:
  assumes "inorder (fill c (Node l d r)) = xs @ d # ys" and "distinct (xs @ d # ys)"
  shows "inorder (fill c (Node l v r)) = xs @ v # ys"
proof -
  obtain ps qs where pq: "\<forall>u. inorder (fill c u) = ps @ inorder u @ qs" using inorder_fill by blast
  then have "(ps @ inorder l) @ d # inorder r @ qs = xs @ d # ys" using assms(1) by simp
  moreover have "d \<notin> set (ps @ inorder l)" "d \<notin> set (inorder r @ qs)"
    using assms(2) unfolding calculation [symmetric] by auto
  ultimately show ?thesis using pq append_Cons_eq_iff [of d "ps @ inorder l" "inorder r @ qs" xs ys] by simp
qed

lemma avl_fix_root:
  assumes "rep s None root T" and "T \<noteq> Leaf" and "distinct (inorder T)" and "size T < 2 ^ 31"
  shows "\<exists>x x' s' T'. root = Some x \<and> avl_fix x s = Some (x', s') \<and> rep s' None (Some x') T' \<and> inorder T' = inorder T
     \<and> (avl T \<longrightarrow> avl T') \<and> same_off (set_tree T) s s'"
proof -
  obtain l x r where T: "T = Node l x r" using assms(2) by (cases T) auto
  with assms(1) have "root = Some x" "node_at s None l x r" using rep_node_at [of s None root l x r] by auto
  moreover obtain x' s' where "avl_fix x s = Some (x', s')" "rep s' None (Some x') (bal l x r)" "same_off (set_tree T) s s'"
    using avl_fix_walk [of s "[]" l x r] calculation(2) assms(3,4) T by auto
  moreover have "avl T \<longrightarrow> avl (bal l x r)" using bal_avl(4) [of l r x] T by auto
  ultimately show ?thesis using T by (auto intro!: exI [of _ "bal l x r"])
qed

lemma del_two_children:
  assumes rp: "rep s None root (fill c (Node l d r))" and two: "l \<noteq> Leaf" "r \<noteq> Leaf"
    and dist: "distinct (inorder (fill c (Node l d r)))" and small: "size (fill c (Node l d r)) < 2 ^ 31"
  shows "\<exists>root' s' T'. avl_del d s = Some (root', s') \<and> rep s' None root' T'
     \<and> inorder T' = remove1 d (inorder (fill c (Node l d r))) \<and> (avl (fill c (Node l d r)) \<longrightarrow> avl T')
     \<and> same_off (set_tree (fill c (Node l d r))) s s'"
proof -
  let ?T = "fill c (Node l d r)"
  from rp obtain n where n: "s d = Some n" "rep s (Some d) (aleft n) l" "rep s (Some d) (aright n) r"
    by (auto simp: rep_fill split: option.splits)
  obtain la ra where lr: "aleft n = Some la" "aright n = Some ra"
    using two rep_leaf_iff [OF n(2)] rep_leaf_iff [OF n(3)] by auto
  from leftmost_rep [OF n(3) [unfolded lr]] obtain v cv vr ys where
    v: "leftmost s ra = Some v" "r = fill cv (Node Leaf v vr)" "\<forall>u. inorder (fill cv u) = inorder u @ ys" by blast
  let ?C = "cv @ FR l d # c"
  have T: "?T = fill ?C (Node Leaf v vr)" by (simp add: v(2) fill_append)
  obtain xs zs where xz: "\<forall>u. inorder (fill c u) = xs @ inorder u @ zs" using inorder_fill by blast
  have inT: "inorder ?T = (xs @ inorder l) @ d # v # inorder vr @ ys @ zs"
    and inV: "inorder (fill ?C vr) = (xs @ inorder l) @ d # inorder vr @ ys @ zs"
    using xz v(3) by (simp_all add: v(2) fill_append)
  from del_simple_rep [OF rp [unfolded T] _ dist [unfolded T] small [unfolded T]] obtain root1 s1 where
    s1: "del_simple v s = Some (root1, s1)" "rep s1 None root1 (fixup ?C vr)" "same_off (set_tree (fill ?C vr)) s s1" by auto
  define T1 where "T1 = fixup ?C vr"
  have in1: "inorder T1 = (xs @ inorder l) @ d # inorder vr @ ys @ zs" by (simp add: T1_def inorder_fixup inV)
  have av1: "avl ?T \<Longrightarrow> avl T1"
    unfolding T1_def T avl_fill by (rule fixup_avl [where h = "height (Node Leaf v vr)"]) auto
  have setT1: "set_tree T1 = set_tree (fill ?C vr)" using in1 inV by (intro set_tree_eq_inorder) simp
  have dT1: "distinct (inorder T1)" "v \<notin> set_tree T1" "d \<in> set_tree T1"
    using dist inT in1 unfolding set_inorder [symmetric] by (auto simp del: set_inorder)
  obtain c1 l1 r1 where c1: "T1 = fill c1 (Node l1 d r1)" using path_to [OF dT1(3)] by blast
  have sv: "s1 v \<noteq> None" using s1(3) dT1(2) setT1 rep_dom [OF rp, of v] by (auto simp: same_off_def T set_fill)
  have r1: "rep s1 None root1 (fill c1 (Node l1 d r1))" "distinct (inorder (fill c1 (Node l1 d r1)))"
    "v \<notin> set_tree (fill c1 (Node l1 d r1))" using s1(2) dT1 c1 T1_def by auto
  from take_over_rep [OF r1 sv] obtain root2 s2 where
    s2: "take_over d v root1 s1 = Some (root2, s2)" "rep s2 None root2 (fill c1 (Node l1 v r1))" "same_off (insert v (set_tree T1)) s1 s2"
    using c1 by auto
  define T2 where "T2 = fill c1 (Node l1 v r1)"
  have in2: "inorder T2 = (xs @ inorder l) @ v # inorder vr @ ys @ zs"
    unfolding T2_def using swap_inorder in1 dT1(1) c1 by metis
  have T2: "T2 \<noteq> Leaf" "distinct (inorder T2)" "size T2 < 2 ^ 31"
    using in2 dist inT small unfolding length_inorder [symmetric] by (auto simp del: length_inorder)
  from avl_fix_root [OF s2(2) [folded T2_def] T2] obtain x x' s3 T3 where
    s3: "root2 = Some x" "avl_fix x s2 = Some (x', s3)" "rep s3 None (Some x') T3" "inorder T3 = inorder T2"
      "avl T2 \<longrightarrow> avl T3" "same_off (set_tree T2) s2 s3" by blast
  have "avl_del d s = Some (Some x', s3)"
    using n(1) lr v(1) s1(1) s2(1) s3(1,2) by (simp add: avl_del_def)
  moreover have "inorder T3 = remove1 d (inorder ?T)"
    using in2 inT s3(4) dist by (simp add: remove1_append)
  moreover have "avl ?T \<longrightarrow> avl T3"
    using av1 s3(5) unfolding c1 T2_def avl_fill by simp
  moreover have "same_off (set_tree ?T) s s3"
    using same_off_trans [OF s1(3) same_off_trans [OF s2(3) s3(6)]] inT in2 in1 setT1
    unfolding set_inorder [symmetric] by (elim same_off_mono) (auto simp del: set_inorder)
  ultimately show ?thesis using s3(3) by blast
qed

lemma avl_del_rep:
  assumes rp: "rep s None root T" and d: "d \<in> set_tree T" and dist: "distinct (inorder T)" and small: "size T < 2 ^ 31"
  shows "\<exists>root' s' T'. avl_del d s = Some (root', s') \<and> rep s' None root' T'
     \<and> inorder T' = remove1 d (inorder T) \<and> (avl T \<longrightarrow> avl T') \<and> same_off (set_tree T) s s'"
proof -
  obtain c l r where T: "T = fill c (Node l d r)" using path_to [OF d] by blast
  show ?thesis
  proof (cases "l \<noteq> Leaf \<and> r \<noteq> Leaf")
    case True
    then show ?thesis using del_two_children assms T by blast
  next
    case False
    let ?t = "if l \<noteq> Leaf then l else r"
    from del_simple_rep rp False dist small T obtain root' s' where
      s': "del_simple d s = Some (root', s')" "rep s' None root' (fixup c ?t)" "same_off (set_tree (fill c ?t)) s s'" by blast
    from rp T obtain n where n: "s d = Some n" "rep s (Some d) (aleft n) l" "rep s (Some d) (aright n) r"
      by (auto simp: rep_fill split: option.splits)
    then have "avl_del d s = Some (root', s')"
      using s'(1) False rep_leaf_iff [OF n(2)] rep_leaf_iff [OF n(3)] by (auto simp: avl_del_def split: option.splits)
    moreover obtain xs ys where xy: "\<forall>u. inorder (fill c u) = xs @ inorder u @ ys" using inorder_fill by blast
    then have "inorder (fixup c ?t) = remove1 d (inorder T)"
      using dist False by (auto simp: inorder_fixup T remove1_append)
    moreover have "avl T \<Longrightarrow> avl (fixup c ?t)"
      using False unfolding T avl_fill by (intro fixup_avl [where h = "height (Node l d r)"]) auto
    moreover have "same_off (set_tree T) s s'"
      using s'(3) by (rule same_off_mono) (auto simp: T set_fill)
    ultimately show ?thesis using s'(2) by blast
  qed
qed


lemma avl_fix_spec:
  assumes "node_at s (ctx_par c) l a r" and "ctx_at s c (Some a)"
    and "distinct (inorder (fill c (Node l a r)))" and "size (fill c (Node l a r)) < 2 ^ 31"
  shows "\<exists>root s' T. avl_fix a s = Some (root, s') \<and> rep s' None (Some root) T
     \<and> inorder T = inorder (fill c (Node l a r)) \<and> same_off (set_tree T) s s'
     \<and> (\<forall>h. ctx_avl c h \<and> avl (Node l a r) \<and> height (Node l a r) \<le> h + 1 \<and> h \<le> height (Node l a r) + 1 \<longrightarrow> avl T)"
proof -
  from avl_fix_walk [OF assms] obtain root s' where
    "avl_fix a s = Some (root, s')" "rep s' None (Some root) (fixup c (bal l a r))" "same_off (set_tree (fill c (Node l a r))) s s'"
    by blast
  moreover have in1: "inorder (fixup c (bal l a r)) = inorder (fill c (Node l a r))"
    by (simp add: inorder_fixup fill_cong_inorder)
  moreover have "avl (fixup c (bal l a r))"
    if "ctx_avl c h" "avl (Node l a r)" "height (Node l a r) \<le> h + 1" "h \<le> height (Node l a r) + 1" for h
    using that fixup_avl [of c h "Node l a r"] bal_avl(4) [of l r a] by simp
  ultimately show ?thesis using set_tree_eq_inorder [OF in1] by metis
qed

section \<open>Properties\<close>

text \<open>C17: \<open>avl_fix\<close>, called on a changed node, ends at the root and
  leaves a tree with the same nodes in the same order, with exact parent pointers, heights and
  sizes everywhere; no node outside the tree changes.  If the tree was balanced before the
  change and the height below the node changed by at most one, the result is balanced.\<close>

theorem avl_fix_rebalances:
  assumes "node_at s (ctx_par c) l a r" and "ctx_at s c (Some a)"
    and "distinct (inorder (fill c (Node l a r)))" and "size (fill c (Node l a r)) < 2 ^ 31"
  shows "\<exists>root s' T. avl_fix a s = Some (root, s') \<and> rep s' None (Some root) T
     \<and> inorder T = inorder (fill c (Node l a r)) \<and> same_off (set_tree T) s s'
     \<and> (\<forall>h. ctx_avl c h \<and> avl (Node l a r) \<and> height (Node l a r) \<le> h + 1 \<and> h \<le> height (Node l a r) + 1 \<longrightarrow> avl T)"
  using assms by (rule avl_fix_spec)

theorem avl_fix_rebalances_witness:
  "\<exists>root s' T. avl_fix 3 [1 \<mapsto> \<lparr>aparent = None, aleft = None, aright = Some 2, aheight = 2, asize = 2\<rparr>,
       2 \<mapsto> \<lparr>aparent = Some 1, aleft = None, aright = Some 3, aheight = 1, asize = 1\<rparr>,
       3 \<mapsto> \<lparr>aparent = Some 2, aleft = None, aright = None, aheight = 1, asize = 1\<rparr>] = Some (root, s')
     \<and> rep s' None (Some root) T \<and> inorder T = [1, 2, 3] \<and> avl T"
proof -
  let ?s = "[1 \<mapsto> \<lparr>aparent = None, aleft = None, aright = Some 2, aheight = 2, asize = 2\<rparr>,
       2 \<mapsto> \<lparr>aparent = Some 1, aleft = None, aright = Some 3, aheight = 1, asize = 1\<rparr>,
       3 \<mapsto> \<lparr>aparent = Some 2, aleft = None, aright = None, aheight = 1, asize = 1\<rparr>] :: astore"
  have "ctx_avl [FR Leaf (2 :: addr), FR Leaf 1] 0" by simp
  then show ?thesis
    using avl_fix_rebalances [of ?s "[FR Leaf 2, FR Leaf 1]" Leaf 3 Leaf] by (auto simp: node_at_def)
qed

text \<open>C16: \<open>avl_del\<close> removes exactly the given node, whatever its children:
  the other nodes keep their order, all pointers, heights and sizes are exact afterwards, a
  balanced tree stays balanced, and no node outside the tree changes.\<close>

theorem avl_del_removes_node:
  assumes "rep s None root T" and "d \<in> set_tree T" and "distinct (inorder T)" and "size T < 2 ^ 31"
  shows "\<exists>root' s' T'. avl_del d s = Some (root', s') \<and> rep s' None root' T'
     \<and> inorder T' = remove1 d (inorder T) \<and> (avl T \<longrightarrow> avl T') \<and> same_off (set_tree T) s s'"
  using assms by (rule avl_del_rep)

theorem avl_del_removes_node_witness:
  "\<exists>root' s' T'. avl_del 2 [1 \<mapsto> \<lparr>aparent = Some 2, aleft = None, aright = None, aheight = 1, asize = 1\<rparr>,
       2 \<mapsto> \<lparr>aparent = None, aleft = Some 1, aright = Some 3, aheight = 2, asize = 3\<rparr>,
       3 \<mapsto> \<lparr>aparent = Some 2, aleft = None, aright = None, aheight = 1, asize = 1\<rparr>] = Some (root', s')
     \<and> rep s' None root' T' \<and> inorder T' = [1, 3] \<and> avl T'"
  using avl_del_removes_node [of "[1 \<mapsto> \<lparr>aparent = Some 2, aleft = None, aright = None, aheight = 1, asize = 1\<rparr>,
       2 \<mapsto> \<lparr>aparent = None, aleft = Some 1, aright = Some 3, aheight = 2, asize = 3\<rparr>,
       3 \<mapsto> \<lparr>aparent = Some 2, aleft = None, aright = None, aheight = 1, asize = 1\<rparr>]" "Some 2" "Node (Node Leaf 1 Leaf) 2 (Node Leaf 3 Leaf)" 2]
  by auto

end
