(* ===== verification/Zset.thy ===== *)
theory Zset
  imports Avl Hashmap "HOL-Library.List_Lexorder" "HOL-Library.Product_Lexorder"
begin

text \<open>
  Sorted sets (\<open>src/src/data_structures/zset.cpp\<close>, \<open>zset.h\<close>): a hash map from member names
  and an AVL tree ordered by score and name over the same \<open>ZNode\<close> objects.  Every \<open>ZNode\<close>
  belongs to one set, so the stores of tree nodes and of scores and names are kept with the
  set; the hash map holds the address of the \<open>ZNode\<close> around each \<open>HNode\<close>
  (\<open>container_of\<close>).
\<close>

section \<open>Double comparison\<close>

text \<open>A score is the bit pattern of a double.  Comparison follows IEEE 754: NaN compares
  unequal to everything and below nothing, the two zeros are equal, and otherwise the order is
  that of the sign-magnitude integers the patterns spell.\<close>

definition is_nan :: "u64 \<Rightarrow> bool" where
  "is_nan x \<longleftrightarrow> unat x mod 2 ^ 63 > 0x7FF0000000000000"

definition dbl_key :: "u64 \<Rightarrow> int" where
  "dbl_key x = (if unat x < 2 ^ 63 then int (unat x) else - int (unat x - 2 ^ 63))"

definition dbl_less :: "u64 \<Rightarrow> u64 \<Rightarrow> bool" where
  "dbl_less x y \<longleftrightarrow> \<not> is_nan x \<and> \<not> is_nan y \<and> dbl_key x < dbl_key y"

definition dbl_eq :: "u64 \<Rightarrow> u64 \<Rightarrow> bool" where
  "dbl_eq x y \<longleftrightarrow> \<not> is_nan x \<and> \<not> is_nan y \<and> dbl_key x = dbl_key y"

section \<open>Definitions\<close>

record ZNode =
  zscore :: u64
  zkey :: dstr
  zhcode :: u64

record ZSet =
  avl_root :: ptr
  zhmap :: "addr hmap"
  zavl :: astore
  znodes :: "addr \<rightharpoonup> ZNode"

definition new_zset :: ZSet where
  "new_zset = \<lparr>avl_root = None, zhmap = empty_hmap, zavl = Map.empty, znodes = Map.empty\<rparr>"

text \<open>The sign of \<open>memcmp\<close> on two byte sequences of equal length.\<close>

fun memcmp :: "bytes \<Rightarrow> bytes \<Rightarrow> int" where
  "memcmp (x # xs) (y # ys) = (if x < y then - 1 else if y < x then 1 else memcmp xs ys)"
| "memcmp _ _ = 0"

definition zless :: "ZNode \<Rightarrow> u64 \<Rightarrow> dstr \<Rightarrow> bool" where
  "zless node score key =
     (if \<not> dbl_eq score (zscore node) then dbl_less (zscore node) score
      else let n = min (dsize key) (dsize (zkey node));
               ret = memcmp (take n (dstr_bytes (zkey node))) (take n (dstr_bytes key))
           in if ret \<noteq> 0 then ret < 0 else dsize (zkey node) < dsize key)"

text \<open>The object \<open>new_znode\<close> fills in at the address \<open>a\<close> that \<open>malloc\<close> gave, and the hash node inside it.\<close>

definition new_znode :: "addr \<Rightarrow> u64 \<Rightarrow> dstr \<Rightarrow> ZSet \<Rightarrow> (addr hnode \<times> ZSet) option" where
  "new_znode a score key z = do {
     hk \<leftarrow> dstr_copy always (dstr_bytes key) (dsize key);
     zk \<leftarrow> dstr_copy always (dstr_bytes key) (dsize key);
     let hc = str_hash (dstr_bytes key);
     Some (\<lparr>hcode = hc, hkey = hk, hval = a\<rparr>,
       z\<lparr>zavl := (zavl z)(a \<mapsto> \<lparr>aparent = None, aleft = None, aright = None, aheight = 1, asize = 1\<rparr>),
         znodes := (znodes z)(a \<mapsto> \<lparr>zscore = score, zkey = zk, zhcode = hc\<rparr>)\<rparr>)
   }"

definition zset_lookup :: "ZSet \<Rightarrow> dstr \<Rightarrow> ptr option" where
  "zset_lookup z key =
     (if avl_root z = None then Some None
      else do {
        p \<leftarrow> mk_probe key;
        n \<leftarrow> hm_lookup (zhmap z) p;
        Some (map_option hval n)
      })"

definition zset_delete :: "ZSet \<Rightarrow> addr \<Rightarrow> ZSet option" where
  "zset_delete z a = do {
     zn \<leftarrow> znodes z a;
     k \<leftarrow> dstr_copy always (dstr_bytes (zkey zn)) (dsize (zkey zn));
     (root, s) \<leftarrow> avl_del a (zavl z);
     (hm, _, _) \<leftarrow> hm_delete plain_ops (zhmap z) \<lparr>pcode = zhcode zn, pkey = Some k\<rparr>;
     Some \<lparr>avl_root = root, zhmap = hm, zavl = s(a := None), znodes = (znodes z)(a := None)\<rparr>
   }"

text \<open>The search loops of \<open>zset_insert\<close> and \<open>zset_lower_bound\<close>.  The first ends with the link
  that is to point at the new node: that of the root, or a side of \<open>curr\<close>.\<close>

partial_function (option) insert_walk :: "ZSet \<Rightarrow> u64 \<Rightarrow> dstr \<Rightarrow> ptr \<Rightarrow> (addr \<times> bool) option \<Rightarrow> (addr \<times> bool) option option" where
  "insert_walk z score key from cur = (case from of
     None \<Rightarrow> Some cur
   | Some c \<Rightarrow> do {
       n \<leftarrow> zavl z c;
       zn \<leftarrow> znodes z c;
       if zless zn score key then insert_walk z score key (aright n) (Some (c, True))
       else insert_walk z score key (aleft n) (Some (c, False))
     })"

partial_function (option) lower_walk :: "ZSet \<Rightarrow> u64 \<Rightarrow> dstr \<Rightarrow> ptr \<Rightarrow> ptr \<Rightarrow> ptr option" where
  "lower_walk z score key from lb = (case from of
     None \<Rightarrow> Some lb
   | Some c \<Rightarrow> do {
       n \<leftarrow> zavl z c;
       zn \<leftarrow> znodes z c;
       if zless zn score key then lower_walk z score key (aright n) lb
       else lower_walk z score key (aleft n) (Some c)
     })"

text \<open>\<open>*from = &znode->avl_node; znode->avl_node.parent = curr\<close>\<close>

definition link_node :: "(addr \<times> bool) option \<Rightarrow> addr \<Rightarrow> astore \<Rightarrow> astore option" where
  "link_node from a s = (case from of
     None \<Rightarrow> upd (\<lambda>n. n\<lparr>aparent := None\<rparr>) a s
   | Some (c, r) \<Rightarrow> do {
       s \<leftarrow> upd (\<lambda>n. if r then n\<lparr>aright := Some a\<rparr> else n\<lparr>aleft := Some a\<rparr>) c s;
       upd (\<lambda>n. n\<lparr>aparent := Some c\<rparr>) a s
     })"

text \<open>The second half of \<open>zset_insert\<close>: a new member under a name the set does not have.\<close>

definition zset_add :: "ZSet \<Rightarrow> addr \<Rightarrow> u64 \<Rightarrow> dstr \<Rightarrow> ZSet option" where
  "zset_add z a score key = do {
     (h, z) \<leftarrow> new_znode a score key z;
     (hm, _) \<leftarrow> hm_insert plain_ops (zhmap z) h;
     from \<leftarrow> insert_walk z score key (avl_root z) None;
     s \<leftarrow> link_node from a (zavl z);
     (root, s) \<leftarrow> avl_fix a s;
     Some (z\<lparr>avl_root := Some root, zhmap := hm, zavl := s\<rparr>)
   }"

definition zset_insert :: "ZSet \<Rightarrow> addr \<Rightarrow> u64 \<Rightarrow> dstr \<Rightarrow> (bool \<times> ZSet) option" where
  "zset_insert z a score key = do {
     node \<leftarrow> zset_lookup z key;
     (is_insert, z) \<leftarrow> (case node of
        Some n \<Rightarrow> do { z \<leftarrow> zset_delete z n; Some (False, z) }
      | None \<Rightarrow> Some (True, z));
     z \<leftarrow> zset_add z a score key;
     Some (is_insert, z)
   }"

text \<open>\<open>del_avl_tree\<close> frees every node it reaches from the root.\<close>

partial_function (option) del_avl_tree :: "ptr \<Rightarrow> astore \<Rightarrow> astore option" where
  "del_avl_tree p s = (case p of
     None \<Rightarrow> Some s
   | Some a \<Rightarrow> do {
       n \<leftarrow> s a;
       s \<leftarrow> del_avl_tree (aleft n) s;
       n \<leftarrow> s a;
       s \<leftarrow> del_avl_tree (aright n) s;
       (case s a of None \<Rightarrow> None | Some _ \<Rightarrow> Some (s(a := None)))
     })"

definition zset_clear :: "ZSet \<Rightarrow> ZSet option" where
  "zset_clear z = do {
     s \<leftarrow> del_avl_tree (avl_root z) (zavl z);
     Some \<lparr>avl_root = None, zhmap = hm_clear (zhmap z), zavl = s, znodes = znodes z |` dom s\<rparr>
   }"

definition zset_lower_bound :: "ZSet \<Rightarrow> u64 \<Rightarrow> dstr \<Rightarrow> ptr option" where
  "zset_lower_bound z score key = lower_walk z score key (avl_root z) None"

text \<open>Signed 32-bit arithmetic: overflow of a signed operation is undefined, a conversion wraps.\<close>

definition chk32 :: "int \<Rightarrow> int option" where
  "chk32 i = (if - (2 ^ 31) \<le> i \<and> i < 2 ^ 31 then Some i else None)"

definition wrap32 :: "int \<Rightarrow> int" where
  "wrap32 i = sint (word_of_int i :: u32)"

partial_function (option) offset_walk :: "astore \<Rightarrow> addr \<Rightarrow> int \<Rightarrow> int \<Rightarrow> ptr option" where
  "offset_walk s node rank offset =
     (if rank = offset then Some (Some node)
      else do {
        n \<leftarrow> s node;
        sl \<leftarrow> avl_size s (aleft n);
        sr \<leftarrow> avl_size s (aright n);
        lo \<leftarrow> (if rank > offset then chk32 (rank - sint sl) else Some 0);
        hi \<leftarrow> (if rank < offset then chk32 (rank + sint sr) else Some 0);
        if rank > offset \<and> lo \<le> offset then do {
          l \<leftarrow> aleft n;
          ln \<leftarrow> s l;
          k \<leftarrow> avl_size s (aright ln);
          offset_walk s l (wrap32 (rank - uint (1 + k))) offset
        }
        else if rank < offset \<and> hi \<ge> offset then do {
          r \<leftarrow> aright n;
          rn \<leftarrow> s r;
          k \<leftarrow> avl_size s (aleft rn);
          offset_walk s r (wrap32 (rank + uint (1 + k))) offset
        }
        else (case aparent n of
          None \<Rightarrow> Some None
        | Some par \<Rightarrow> do {
            p \<leftarrow> s par;
            if aleft p = Some node then offset_walk s par (wrap32 (rank + uint (1 + sr))) offset
            else offset_walk s par (wrap32 (rank - uint (1 + sl))) offset
          })
      })"

definition zset_offset :: "ZSet \<Rightarrow> addr \<Rightarrow> int \<Rightarrow> ptr option" where
  "zset_offset z a offset = offset_walk (zavl z) a 0 offset"


section \<open>The order\<close>

definition zpair :: "ZNode \<Rightarrow> int \<times> bytes" where
  "zpair n = (dbl_key (zscore n), dstr_bytes (zkey n))"

lemma nil_less: "[] < (ys :: 'a :: linorder list) \<longleftrightarrow> ys \<noteq> []"
  by (cases ys) auto

lemma memcmp_less:
  "(let ret = memcmp (take (min (length ys) (length xs)) xs) (take (min (length ys) (length xs)) ys)
    in if ret \<noteq> 0 then ret < 0 else length xs < length ys) \<longleftrightarrow> xs < ys"
  by (induction xs ys rule: memcmp.induct) (auto simp: Let_def nil_less)

lemma zless_iff:
  assumes "wf_dstr key" and "wf_dstr (zkey n)" and "\<not> is_nan score" and "\<not> is_nan (zscore n)"
  shows "zless n score key \<longleftrightarrow> zpair n < (dbl_key score, dstr_bytes key)"
  using memcmp_less [where xs = "dstr_bytes (zkey n)" and ys = "dstr_bytes key"] assms
  by (auto simp: zless_def zpair_def dbl_eq_def dbl_less_def less_prod_def' Let_def)

section \<open>Invariant and abstraction\<close>

definition key_ok :: "dstr \<Rightarrow> bool" where
  "key_ok k \<longleftrightarrow> wf_dstr k \<and> 2 * dsize k \<le> MAX_STR_SIZE"

text \<open>What the hash map compares, and the name under which a member is found.\<close>

definition kof :: "dstr \<Rightarrow> u64 \<times> bytes" where
  "kof k = (str_hash (dstr_bytes k), cstr (dstr_bytes k))"

definition zord :: "ZSet \<Rightarrow> addr \<Rightarrow> int \<times> bytes" where
  "zord z a = zpair (the (znodes z a))"

definition zset_inv :: "ZSet \<Rightarrow> addr tree \<Rightarrow> bool" where
  "zset_inv z T \<longleftrightarrow> rep (zavl z) None (avl_root z) T \<and> distinct (inorder T) \<and> avl T \<and> size T < 2 ^ 31
     \<and> set_tree T = dom (znodes z) \<and> sorted_wrt (<) (map (zord z) (inorder T)) \<and> hm_ok (zhmap z)
     \<and> (\<forall>a zn. znodes z a = Some zn \<longrightarrow> key_ok (zkey zn) \<and> \<not> is_nan (zscore zn) \<and> zhcode zn = str_hash (dstr_bytes (zkey zn))
          \<and> map_option hval (hm_abs (zhmap z) (kof (zkey zn))) = Some a)
     \<and> (\<forall>k n. hm_abs (zhmap z) k = Some n \<longrightarrow> (\<exists>zn. znodes z (hval n) = Some zn \<and> kof (zkey zn) = k))"

text \<open>The score of a member, as the map the set represents.\<close>

definition zabs :: "ZSet \<Rightarrow> u64 \<times> bytes \<rightharpoonup> u64" where
  "zabs z k = Option.bind (hm_abs (zhmap z) k) (\<lambda>n. map_option zscore (znodes z (hval n)))"

lemma mk_probe_ok:
  assumes "key_ok key"
  shows "\<exists>p. mk_probe key = Some p \<and> pkey p \<noteq> None \<and> pkeyof p = kof key"
  using dstr_copy_ok [of "dstr_bytes key" "dsize key"] assms
  by (auto simp: mk_probe_def key_ok_def pkeyof_def kof_def)

lemma zset_inv_new: "zset_inv new_zset Leaf"
  by (simp add: zset_inv_def new_zset_def)

lemma zset_inv_hm: "zset_inv z T \<Longrightarrow> hm_abs (zhmap z) k = Some n \<Longrightarrow> \<exists>zn. znodes z (hval n) = Some zn \<and> kof (zkey zn) = k"
  unfolding zset_inv_def by blast

lemma zset_inv_node:
  "zset_inv z T \<Longrightarrow> znodes z a = Some zn \<Longrightarrow> key_ok (zkey zn) \<and> \<not> is_nan (zscore zn) \<and> zhcode zn = str_hash (dstr_bytes (zkey zn))
     \<and> map_option hval (hm_abs (zhmap z) (kof (zkey zn))) = Some a \<and> a \<in> set_tree T"
  unfolding zset_inv_def by blast

lemma zset_inv_empty_map:
  assumes "zset_inv z T" and "avl_root z = None"
  shows "hm_abs (zhmap z) k = None"
proof (rule ccontr)
  assume "hm_abs (zhmap z) k \<noteq> None"
  then obtain n where n: "hm_abs (zhmap z) k = Some n" by auto
  from zset_inv_hm [OF assms(1) n] obtain a where "a \<in> set_tree T" using zset_inv_node [OF assms(1)] by blast
  moreover have "T = Leaf" using assms rep_leaf_iff by (metis zset_inv_def)
  ultimately show False by simp
qed

lemma zset_lookup_spec:
  assumes "zset_inv z T" and "key_ok key"
  shows "zset_lookup z key = Some (map_option hval (hm_abs (zhmap z) (kof key)))"
proof -
  obtain p where "mk_probe key = Some p" "pkey p \<noteq> None" "pkeyof p = kof key" using mk_probe_ok [OF assms(2)] by blast
  moreover have "hm_ok (zhmap z)" using assms(1) by (simp add: zset_inv_def)
  ultimately show ?thesis
    using zset_inv_empty_map [OF assms(1)] hm_lookup_abs [of "zhmap z" p] by (auto simp: zset_lookup_def)
qed

text \<open>The members as the map and as the tree see them.\<close>

lemma zset_member:
  assumes "zset_inv z T"
  shows "map_option hval (hm_abs (zhmap z) k) = Some a \<longleftrightarrow> (\<exists>zn. znodes z a = Some zn \<and> kof (zkey zn) = k)"
proof
  assume "map_option hval (hm_abs (zhmap z) k) = Some a"
  then obtain n where "hm_abs (zhmap z) k = Some n" "hval n = a" by auto
  with zset_inv_hm [OF assms] show "\<exists>zn. znodes z a = Some zn \<and> kof (zkey zn) = k" by blast
next
  assume "\<exists>zn. znodes z a = Some zn \<and> kof (zkey zn) = k"
  with zset_inv_node [OF assms] show "map_option hval (hm_abs (zhmap z) k) = Some a" by blast
qed


lemma rep_remove: "rep s par p t \<Longrightarrow> a \<notin> set_tree t \<Longrightarrow> rep (s(a := None)) par p t"
  using rep_cong [of t "s(a := None)" s par p] by auto

lemma zset_inv_I:
  assumes "rep (zavl z) None (avl_root z) T" "distinct (inorder T)" "avl T" "size T < 2 ^ 31"
    "set_tree T = dom (znodes z)" "sorted_wrt (<) (map (zord z) (inorder T))" "hm_ok (zhmap z)"
    and "\<And>a zn. znodes z a = Some zn \<Longrightarrow> key_ok (zkey zn) \<and> \<not> is_nan (zscore zn) \<and> zhcode zn = str_hash (dstr_bytes (zkey zn))
          \<and> map_option hval (hm_abs (zhmap z) (kof (zkey zn))) = Some a"
    and "\<And>k n. hm_abs (zhmap z) k = Some n \<Longrightarrow> \<exists>zn. znodes z (hval n) = Some zn \<and> kof (zkey zn) = k"
  shows "zset_inv z T"
  using assms unfolding zset_inv_def by blast

lemma zset_delete_spec:
  assumes inv: "zset_inv z T" and a: "znodes z a = Some zn"
  shows "\<exists>z' T'. zset_delete z a = Some z' \<and> zset_inv z' T' \<and> inorder T' = remove1 a (inorder T)
     \<and> znodes z' = (znodes z)(a := None) \<and> hm_abs (zhmap z') = (hm_abs (zhmap z))(kof (zkey zn) := None)"
proof -
  note node = zset_inv_node [OF inv]
  have I: "rep (zavl z) None (avl_root z) T" "distinct (inorder T)" "avl T" "size T < 2 ^ 31" "set_tree T = dom (znodes z)"
    "sorted_wrt (<) (map (zord z) (inorder T))" "hm_ok (zhmap z)" using inv unfolding zset_inv_def by blast+
  obtain root s T' where del: "avl_del a (zavl z) = Some (root, s)" "rep s None root T'" "inorder T' = remove1 a (inorder T)" "avl T'"
    using avl_del_rep [OF I(1) _ I(2,4)] node [OF a] I(3) by blast
  obtain k where k: "dstr_copy always (dstr_bytes (zkey zn)) (dsize (zkey zn)) = Some k" "dstr_bytes k = dstr_bytes (zkey zn)"
    using dstr_copy_ok [of "dstr_bytes (zkey zn)" "dsize (zkey zn)"] node [OF a] by (auto simp: key_ok_def)
  let ?p = "\<lparr>pcode = zhcode zn, pkey = Some k\<rparr>"
  have pk: "pkeyof ?p = kof (zkey zn)" using k node [OF a] by (simp add: pkeyof_def kof_def)
  from hm_delete_abs [OF I(7), of ?p plain_ops] obtain hm n q where
    hm: "hm_delete plain_ops (zhmap z) ?p = Some (hm, n, q)" "hm_ok hm" "hm_abs hm = (hm_abs (zhmap z))(kof (zkey zn) := None)"
    using pk by auto
  define z' where "z' = \<lparr>avl_root = root, zhmap = hm, zavl = s(a := None), znodes = (znodes z)(a := None)\<rparr>"
  have setT': "set_tree T' = set_tree T - {a}"
    using del(3) I(2) unfolding set_inorder [symmetric] by (simp del: set_inorder)
  have "zset_delete z a = Some z'" using a k(1) del(1) hm(1) by (simp add: zset_delete_def z'_def)
  moreover have "zset_inv z' T'"
  proof (rule zset_inv_I)
    show "rep (zavl z') None (avl_root z') T'" using del(2) setT' by (simp add: z'_def rep_remove)
    show "distinct (inorder T')" "avl T'" using del I(2) by simp_all
    show "size T' < 2 ^ 31" using I(4) del(3) unfolding length_inorder [symmetric] by (auto simp: length_remove1 simp del: length_inorder)
    show "set_tree T' = dom (znodes z')" using setT' I(5) by (auto simp: z'_def)
    have "sorted_wrt (<) (map (zord z) (remove1 a (inorder T)))"
      using I(2,6) by (simp add: sorted_wrt_map distinct_remove1_removeAll sorted_wrt_filter removeAll_filter_not_eq)
    moreover have "map (zord z') (inorder T') = map (zord z) (inorder T')"
      using setT' by (auto simp: zord_def z'_def)
    ultimately show "sorted_wrt (<) (map (zord z') (inorder T'))" using del(3) by metis
    show "hm_ok (zhmap z')" using hm by (simp add: z'_def)
    show "key_ok (zkey yn) \<and> \<not> is_nan (zscore yn) \<and> zhcode yn = str_hash (dstr_bytes (zkey yn))
          \<and> map_option hval (hm_abs (zhmap z') (kof (zkey yn))) = Some b" if "znodes z' b = Some yn" for b yn
    proof -
      have b: "znodes z b = Some yn" "b \<noteq> a" using that by (auto simp: z'_def split: if_splits)
      then have "kof (zkey yn) \<noteq> kof (zkey zn)" using node [OF b(1)] node [OF a] by auto
      then show ?thesis using node [OF b(1)] hm(3) by (simp add: z'_def)
    qed
    show "\<exists>yn. znodes z' (hval m) = Some yn \<and> kof (zkey yn) = k'" if "hm_abs (zhmap z') k' = Some m" for k' m
    proof -
      have m: "hm_abs (zhmap z) k' = Some m" "k' \<noteq> kof (zkey zn)" using that hm(3) by (auto simp: z'_def split: if_splits)
      from zset_inv_hm [OF inv m(1)] m(2) a show ?thesis by (auto simp: z'_def)
    qed
  qed
  ultimately show ?thesis using del(3) hm(3) by (auto simp: z'_def)
qed


section \<open>Searching and inserting\<close>

text \<open>The path on which a search with the downward closed predicate \<open>P\<close> leaves the tree.\<close>

primrec ins_ctx :: "('a \<Rightarrow> bool) \<Rightarrow> 'a tree \<Rightarrow> 'a frame list" where
  "ins_ctx P Leaf = []"
| "ins_ctx P (Node l a r) = (if P a then ins_ctx P r @ [FR l a] else ins_ctx P l @ [FL a r])"

definition last_link :: "'a frame list \<Rightarrow> ('a \<times> bool) option \<Rightarrow> ('a \<times> bool) option" where
  "last_link c cur = (case c of [] \<Rightarrow> cur | f # _ \<Rightarrow> Some (frame_addr f, case f of FL _ _ \<Rightarrow> False | FR _ _ \<Rightarrow> True))"

lemma fill_ins_ctx: "fill (ins_ctx P t) Leaf = t"
  by (induction t) (auto simp: fill_append)

lemma last_link_snoc: "last_link (c @ [f]) cur = last_link c (Some (frame_addr f, case f of FL _ _ \<Rightarrow> False | FR _ _ \<Rightarrow> True))"
  by (cases c) (auto simp: last_link_def)

lemma inorder_ins_ctx:
  assumes "sorted_wrt (\<lambda>x y. P y \<longrightarrow> P x) (inorder t)"
  shows "inorder (fill (ins_ctx P t) u) = filter P (inorder t) @ inorder u @ filter (\<lambda>x. \<not> P x) (inorder t)"
  using assms
proof (induction t)
  case (Node l a r)
  then have s: "sorted_wrt (\<lambda>x y. P y \<longrightarrow> P x) (inorder l)" "sorted_wrt (\<lambda>x y. P y \<longrightarrow> P x) (inorder r)"
    "\<forall>x \<in> set_tree l. P a \<longrightarrow> P x" "\<forall>y \<in> set_tree r. P y \<longrightarrow> P a"
    by (auto simp: sorted_wrt_append)
  show ?case
  proof (cases "P a")
    case True
    then have "filter P (inorder l) = inorder l" "filter (\<lambda>x. \<not> P x) (inorder l) = []"
      using s(3) by (auto simp: filter_id_conv filter_empty_conv)
    with True Node.IH(2) s(2) show ?thesis by (simp add: fill_append)
  next
    case False
    then have "filter (\<lambda>x. \<not> P x) (inorder r) = inorder r" "filter P (inorder r) = []"
      using s(4) by (auto simp: filter_id_conv filter_empty_conv)
    with False Node.IH(1) s(1) show ?thesis by (simp add: fill_append)
  qed
qed simp

lemma insert_walk_path:
  assumes "rep (zavl z) par p t" and "\<forall>a \<in> set_tree t. \<exists>zn. znodes z a = Some zn \<and> P a = zless zn score key"
  shows "insert_walk z score key p cur = Some (last_link (ins_ctx P t) cur)"
  using assms
proof (induction t arbitrary: par p cur)
  case Leaf
  then show ?case by (subst insert_walk.simps) (simp add: last_link_def)
next
  case (Node l a r)
  then obtain n zn where n: "p = Some a" "zavl z a = Some n" "rep (zavl z) (Some a) (aleft n) l" "rep (zavl z) (Some a) (aright n) r"
    "znodes z a = Some zn" "P a = zless zn score key" by (auto split: option.splits)
  then show ?case
    using Node.IH(1) [OF n(3)] Node.IH(2) [OF n(4)] Node.prems(2)
    by (subst insert_walk.simps) (simp add: last_link_snoc)
qed

lemma lower_walk_find:
  assumes "rep (zavl z) par p t" and "\<forall>a \<in> set_tree t. \<exists>zn. znodes z a = Some zn \<and> P a = zless zn score key"
    and "sorted_wrt (\<lambda>x y. P y \<longrightarrow> P x) (inorder t)"
  shows "lower_walk z score key p lb = Some (case find (\<lambda>a. \<not> P a) (inorder t) of None \<Rightarrow> lb | Some x \<Rightarrow> Some x)"
  using assms
proof (induction t arbitrary: par p lb)
  case Leaf
  then show ?case by (subst lower_walk.simps) simp
next
  case (Node l a r)
  then obtain n zn where n: "p = Some a" "zavl z a = Some n" "rep (zavl z) (Some a) (aleft n) l" "rep (zavl z) (Some a) (aright n) r"
    "znodes z a = Some zn" "P a = zless zn score key" by (auto split: option.splits)
  have s: "sorted_wrt (\<lambda>x y. P y \<longrightarrow> P x) (inorder l)" "sorted_wrt (\<lambda>x y. P y \<longrightarrow> P x) (inorder r)"
    "\<forall>x \<in> set (inorder l). P a \<longrightarrow> P x" using Node.prems(3) by (auto simp: sorted_wrt_append)
  have "P a \<Longrightarrow> find (\<lambda>a. \<not> P a) (inorder l) = None" using s(3) by (auto simp: find_None_iff)
  then show ?case
    using n Node.IH(1) [OF n(3) _ s(1)] Node.IH(2) [OF n(4) _ s(2)] Node.prems(2)
    by (subst lower_walk.simps) (auto simp: find_append split: option.splits)
qed

lemma link_node_spec:
  assumes rp: "rep s None root (fill c Leaf)" and a: "s a = Some n" "aleft n = None" "aright n = None" "a \<notin> set_tree (fill c Leaf)"
    and dist: "distinct (inorder (fill c Leaf))"
  shows "\<exists>s'. link_node (last_link c None) a s = Some s' \<and> node_at s' (ctx_par c) Leaf a Leaf \<and> ctx_at s' c (Some a)
     \<and> same_off (insert a (ctx_set c)) s s'"
proof -
  from rp have c: "ctx_at s c None" "ctx_fields s c 0 0" by (auto simp: rep_fill)
  have ac: "a \<notin> ctx_set c" using a(4) by (simp add: set_fill)
  show ?thesis
  proof (cases c)
    case Nil
    then show ?thesis using a by (auto simp: link_node_def last_link_def upd_def node_at_def)
  next
    case (Cons f c')
    from ctx_set_link [OF c [unfolded Cons] dist [unfolded Cons], of "Some a"] obtain s1 where
      s1: "upd (\<lambda>n. case f of FL _ _ \<Rightarrow> n\<lparr>aleft := Some a\<rparr> | FR _ _ \<Rightarrow> n\<lparr>aright := Some a\<rparr>) (frame_addr f) s = Some s1"
        "ctx_at s1 c (Some a)" "same_off {frame_addr f} s s1" unfolding Cons by blast
    have fa: "frame_addr f \<in> ctx_set c" using Cons by simp
    then have "a \<noteq> frame_addr f" using ac by blast
    then have "s1 a = Some n" using s1(3) a(1) by (simp add: same_off_def)
    then have s2: "upd (\<lambda>n. n\<lparr>aparent := Some (frame_addr f)\<rparr>) a s1 = Some (s1(a \<mapsto> n\<lparr>aparent := Some (frame_addr f)\<rparr>))"
      by (simp add: upd_def)
    let ?s2 = "s1(a \<mapsto> n\<lparr>aparent := Some (frame_addr f)\<rparr>)"
    have so: "same_off {a} s1 ?s2" by simp
    have "ctx_at ?s2 c (Some a)" using ctx_at_same_off [OF s1(2) so] ac by blast
    moreover have "node_at ?s2 (ctx_par c) Leaf a Leaf" using a Cons by (simp add: node_at_def)
    moreover have "same_off (insert a (ctx_set c)) s ?s2"
      using same_off_trans [OF s1(3) so] fa by (elim same_off_mono) auto
    moreover have "link_node (last_link c None) a s = Some ?s2"
      using s1(1) s2 Cons by (cases f) (auto simp: link_node_def last_link_def)
    ultimately show ?thesis by blast
  qed
qed


lemma zset_add_sorted:
  assumes sorted: "sorted_wrt (<) (map f xs)" and "\<forall>x \<in> set xs. f x \<noteq> v"
  shows "sorted_wrt (<) (map (f(a := v)) (filter (\<lambda>x. f x < (v :: 'b :: linorder)) xs @ a # filter (\<lambda>x. \<not> f x < v) xs))
    \<or> a \<in> set xs"
proof (cases "a \<in> set xs")
  case False
  then have m: "map (f(a := v)) (filter P xs) = map f (filter P xs)" for P by auto
  have "sorted_wrt (<) (map f (filter P xs))" for P
    using sorted by (simp add: sorted_wrt_map sorted_wrt_filter)
  then show ?thesis
    using assms(2) by (auto simp: m sorted_wrt_append)
qed simp

lemma zset_inv_less:
  assumes inv: "zset_inv z T" and key: "key_ok key" and nn: "\<not> is_nan score"
  shows "\<forall>x \<in> set_tree T. \<exists>zn. znodes z x = Some zn \<and> (zord z x < (dbl_key score, dstr_bytes key)) = zless zn score key"
proof
  fix x assume "x \<in> set_tree T"
  then obtain zn where zn: "znodes z x = Some zn" using inv by (auto simp: zset_inv_def)
  with zless_iff [of key zn score] zset_inv_node [OF inv zn] key nn
  show "\<exists>zn. znodes z x = Some zn \<and> (zord z x < (dbl_key score, dstr_bytes key)) = zless zn score key"
    by (auto simp: key_ok_def zord_def)
qed

lemma zset_inv_mono:
  assumes "zset_inv z T"
  shows "sorted_wrt (\<lambda>x y. zord z y < v \<longrightarrow> zord z x < v) (inorder T)"
proof -
  have "sorted_wrt (\<lambda>x y. zord z x < zord z y) (inorder T)" using assms by (simp add: zset_inv_def sorted_wrt_map)
  then show ?thesis by (rule sorted_wrt_mono_rel [rotated]) auto
qed


text \<open>The tree part of an insertion: the new node is linked where the search ended and the tree
  is rebalanced.\<close>

lemma tree_insert_spec:
  assumes rp: "rep s None root T" and dist: "distinct (inorder T)" and small: "size T + 1 < 2 ^ 31" and av: "avl T"
    and a: "s a = Some n" "aleft n = None" "aright n = None" "a \<notin> set_tree T"
    and mono: "sorted_wrt (\<lambda>x y. P y \<longrightarrow> P x) (inorder T)"
  shows "\<exists>s1 root' s' T'. link_node (last_link (ins_ctx P T) None) a s = Some s1 \<and> avl_fix a s1 = Some (root', s')
     \<and> rep s' None (Some root') T' \<and> inorder T' = filter P (inorder T) @ a # filter (\<lambda>x. \<not> P x) (inorder T) \<and> avl T'"
proof -
  let ?c = "ins_ctx P T"
  note T = fill_ins_ctx [of P T]
  obtain s1 where s1: "link_node (last_link ?c None) a s = Some s1" "node_at s1 (ctx_par ?c) Leaf a Leaf" "ctx_at s1 ?c (Some a)"
    using link_node_spec [of s root ?c a n] T assms by auto
  have in1: "inorder (fill ?c (Node Leaf a Leaf)) = filter P (inorder T) @ a # filter (\<lambda>x. \<not> P x) (inorder T)"
    using inorder_ins_ctx [OF mono, of "Node Leaf a Leaf"] by simp
  have d1: "distinct (inorder (fill ?c (Node Leaf a Leaf)))" using dist a(4) by (auto simp: in1)
  have "length (inorder (fill ?c (Node Leaf a Leaf))) = length (inorder T) + 1"
    using sum_length_filter_compl [of P "inorder T"] by (simp add: in1 del: length_inorder)
  then have "size (fill ?c (Node Leaf a Leaf)) < 2 ^ 31" using small by simp
  from avl_fix_spec [OF s1(2,3) d1 this] obtain root' s' T' where
    s': "avl_fix a s1 = Some (root', s')" "rep s' None (Some root') T'" "inorder T' = inorder (fill ?c (Node Leaf a Leaf))"
      "\<forall>h. ctx_avl ?c h \<and> avl (Node Leaf a Leaf) \<and> height (Node Leaf a Leaf) \<le> h + 1 \<and> h \<le> height (Node Leaf a Leaf) + 1 \<longrightarrow> avl T'"
    by blast
  have "ctx_avl ?c 0" using av avl_fill [of ?c Leaf] T by simp
  then have "avl T'" using s'(4) by auto
  with s1(1) s' in1 show ?thesis by auto
qed

lemma zset_add_spec:
  assumes inv: "zset_inv z T" and key: "key_ok key" and nn: "\<not> is_nan score" and a: "a \<notin> dom (znodes z)"
    and small: "size T + 1 < 2 ^ 31" and new: "hm_abs (zhmap z) (kof key) = None"
  shows "\<exists>z' T' zk h. zset_add z a score key = Some z' \<and> zset_inv z' T'
     \<and> inorder T' = filter (\<lambda>x. zord z x < (dbl_key score, dstr_bytes key)) (inorder T) @ a
         # filter (\<lambda>x. \<not> zord z x < (dbl_key score, dstr_bytes key)) (inorder T)
     \<and> znodes z' = (znodes z)(a \<mapsto> \<lparr>zscore = score, zkey = zk, zhcode = str_hash (dstr_bytes key)\<rparr>) \<and> dstr_bytes zk = dstr_bytes key
     \<and> hm_abs (zhmap z') = (hm_abs (zhmap z))(kof key \<mapsto> h) \<and> hval h = a"
proof -
  let ?v = "(dbl_key score, dstr_bytes key)"
  let ?P = "\<lambda>x. zord z x < ?v"
  note node = zset_inv_node [OF inv]
  have I: "rep (zavl z) None (avl_root z) T" "distinct (inorder T)" "avl T" "set_tree T = dom (znodes z)"
    "sorted_wrt (<) (map (zord z) (inorder T))" "hm_ok (zhmap z)" using inv unfolding zset_inv_def by blast+
  obtain k where k: "dstr_copy always (dstr_bytes key) (dsize key) = Some k" "dstr_bytes k = dstr_bytes key" "key_ok k"
    using dstr_copy_ok [of "dstr_bytes key" "dsize key"] key by (fastforce simp: key_ok_def dest: length_dstr_bytes)
  define n0 where "n0 = \<lparr>aparent = None, aleft = None, aright = None, aheight = 1, asize = 1 :: u32\<rparr>"
  define zn where "zn = \<lparr>zscore = score, zkey = k, zhcode = str_hash (dstr_bytes key)\<rparr>"
  define h where "h = \<lparr>hcode = str_hash (dstr_bytes key), hkey = k, hval = a\<rparr>"
  define z1 where "z1 = z\<lparr>zavl := (zavl z)(a \<mapsto> n0), znodes := (znodes z)(a \<mapsto> zn)\<rparr>"
  have nw: "new_znode a score key z = Some (h, z1)" using k by (simp add: new_znode_def h_def z1_def zn_def n0_def Let_def)
  have nk: "nkey h = kof key" by (simp add: nkey_def h_def kof_def k)
  obtain hm where hm: "hm_insert plain_ops (zhmap z1) h = Some (hm, [])" "hm_ok hm" "hm_abs hm = (hm_abs (zhmap z))(kof key \<mapsto> h)"
    using hm_insert_plain [OF I(6), of h] new nk by (auto simp: z1_def)
  have aT: "a \<notin> set_tree T" using a I(4) by simp
  have rep1: "rep (zavl z1) None (avl_root z1) T" using I(1) aT by (simp add: z1_def)
  have "\<forall>x \<in> set_tree T. \<exists>zn. znodes z1 x = Some zn \<and> ?P x = zless zn score key"
    using zset_inv_less [OF inv key nn] aT by (auto simp: z1_def)
  from insert_walk_path [OF rep1 this] have walk: "insert_walk z1 score key (avl_root z1) None = Some (last_link (ins_ctx ?P T) None)" .
  have n1: "zavl z1 a = Some n0" "aleft n0 = None" "aright n0 = None" by (simp_all add: z1_def n0_def)
  from tree_insert_spec [OF rep1 I(2) small I(3) n1 aT zset_inv_mono [OF inv, of ?v]] obtain s1 root' s' T' where
    t: "link_node (last_link (ins_ctx ?P T) None) a (zavl z1) = Some s1" "avl_fix a s1 = Some (root', s')"
      "rep s' None (Some root') T'" "inorder T' = filter ?P (inorder T) @ a # filter (\<lambda>x. \<not> ?P x) (inorder T)" "avl T'" by blast
  define z' where "z' = z1\<lparr>avl_root := Some root', zhmap := hm, zavl := s'\<rparr>"
  have add: "zset_add z a score key = Some z'" using nw hm(1) walk t(1,2) by (simp add: zset_add_def z'_def)
  have neq: "kof (zkey yn) \<noteq> kof key" if "znodes z b = Some yn" for b yn using node [OF that] new by auto
  have nodes': "znodes z' = (znodes z)(a \<mapsto> zn)" "zhmap z' = hm" by (simp_all add: z'_def z1_def)
  have setT': "set_tree T' = insert a (set_tree T)" using t(4) unfolding set_inorder [symmetric] by (auto simp del: set_inorder)
  have "zset_inv z' T'"
  proof (rule zset_inv_I)
    show "rep (zavl z') None (avl_root z') T'" "avl T'" "hm_ok (zhmap z')" using t hm by (simp_all add: z'_def)
    show "distinct (inorder T')" using t(4) I(2) aT by auto
    show "set_tree T' = dom (znodes z')" using setT' I(4) by (auto simp: nodes')
    have "length (inorder T') = length (inorder T) + 1"
      using sum_length_filter_compl [of ?P "inorder T"] by (simp add: t(4) del: length_inorder)
    then show "size T' < 2 ^ 31" using small by simp
    have "zord z' = (zord z)(a := ?v)" by (auto simp: zord_def nodes' zn_def zpair_def k fun_eq_iff)
    moreover have "\<forall>x \<in> set (inorder T). zord z x \<noteq> ?v"
    proof
      fix x assume "x \<in> set (inorder T)"
      then obtain yn where "znodes z x = Some yn" using I(4) by auto
      with neq [OF this] show "zord z x \<noteq> ?v" by (auto simp: zord_def zpair_def kof_def)
    qed
    ultimately show "sorted_wrt (<) (map (zord z') (inorder T'))"
      using zset_add_sorted [OF I(5), of ?v a] aT unfolding t(4) by simp
    show "key_ok (zkey yn) \<and> \<not> is_nan (zscore yn) \<and> zhcode yn = str_hash (dstr_bytes (zkey yn))
          \<and> map_option hval (hm_abs (zhmap z') (kof (zkey yn))) = Some b" if "znodes z' b = Some yn" for b yn
    proof (cases "b = a")
      case True
      with that k(3) nn show ?thesis by (auto simp: nodes' zn_def h_def hm(3) k(2) kof_def)
    next
      case False
      then have b: "znodes z b = Some yn" using that by (simp add: nodes')
      with node [OF b] neq [OF b] show ?thesis by (simp add: nodes' hm(3))
    qed
    show "\<exists>yn. znodes z' (hval m) = Some yn \<and> kof (zkey yn) = k'" if m: "hm_abs (zhmap z') k' = Some m" for k' m
    proof (cases "k' = kof key")
      case True
      with m show ?thesis by (auto simp: nodes' hm(3) h_def zn_def kof_def k(2))
    next
      case False
      then have "hm_abs (zhmap z) k' = Some m" using m by (simp add: nodes' hm(3))
      from zset_inv_hm [OF inv this] a show ?thesis by (auto simp: nodes')
    qed
  qed
  with add t(4) k(2) hm(3) show ?thesis
    by (intro exI [of _ z'] exI [of _ T'] exI [of _ k] exI [of _ h]) (simp add: nodes' zn_def h_def)
qed


lemma zabs_delete:
  assumes inv: "zset_inv z T" and a: "znodes z a = Some zn" and z': "znodes z' = (znodes z)(a := None)"
    "hm_abs (zhmap z') = (hm_abs (zhmap z))(kof (zkey zn) := None)"
  shows "zabs z' = (zabs z)(kof (zkey zn) := None)"
proof
  fix k
  show "zabs z' k = ((zabs z)(kof (zkey zn) := None)) k"
  proof (cases "hm_abs (zhmap z) k")
    case (Some m)
    from zset_inv_hm [OF inv Some] a show ?thesis
      by (cases "k = kof (zkey zn)") (auto simp: zabs_def z' Some)
  qed (simp add: zabs_def z')
qed

lemma zabs_add:
  assumes inv: "zset_inv z T" and a: "a \<notin> dom (znodes z)" and z': "znodes z' = (znodes z)(a \<mapsto> zn)"
    "hm_abs (zhmap z') = (hm_abs (zhmap z))(k \<mapsto> h)" "hval h = a"
  shows "zabs z' = (zabs z)(k \<mapsto> zscore zn)"
proof
  fix k'
  show "zabs z' k' = ((zabs z)(k \<mapsto> zscore zn)) k'"
  proof (cases "hm_abs (zhmap z) k'")
    case (Some m)
    from zset_inv_hm [OF inv Some] a show ?thesis by (auto simp: zabs_def z' Some)
  qed (simp add: zabs_def z')
qed

lemma zabs_member:
  assumes "zset_inv z T"
  shows "zabs z k = None \<longleftrightarrow> hm_abs (zhmap z) k = None"
  using zset_inv_hm [OF assms, of k] by (cases "hm_abs (zhmap z) k") (auto simp: zabs_def)

lemma zset_insert_spec:
  assumes inv: "zset_inv z T" and key: "key_ok key" and nn: "\<not> is_nan score" and a: "a \<notin> dom (znodes z)"
    and small: "size T + 1 < 2 ^ 31"
  shows "\<exists>z' T'. zset_insert z a score key = Some (zabs z (kof key) = None, z') \<and> zset_inv z' T'
     \<and> zabs z' = (zabs z)(kof key \<mapsto> score)"
proof (cases "hm_abs (zhmap z) (kof key)")
  case None
  from zset_add_spec [OF inv key nn a small None] obtain z' T' zk h where
    add: "zset_add z a score key = Some z'" "zset_inv z' T'"
      "znodes z' = (znodes z)(a \<mapsto> \<lparr>zscore = score, zkey = zk, zhcode = str_hash (dstr_bytes key)\<rparr>)"
      "hm_abs (zhmap z') = (hm_abs (zhmap z))(kof key \<mapsto> h)" "hval h = a" by blast
  from zabs_add [OF inv a add(3-5)] add(1,2) show ?thesis
    using None zset_lookup_spec [OF inv key] zabs_member [OF inv] by (auto simp: zset_insert_def)
next
  case (Some n)
  from zset_inv_hm [OF inv Some] obtain yn where yn: "znodes z (hval n) = Some yn" "kof (zkey yn) = kof key" by blast
  from zset_delete_spec [OF inv yn(1)] obtain z0 T0 where
    z0: "zset_delete z (hval n) = Some z0" "zset_inv z0 T0" "inorder T0 = remove1 (hval n) (inorder T)"
      "znodes z0 = (znodes z)(hval n := None)" "hm_abs (zhmap z0) = (hm_abs (zhmap z))(kof key := None)" using yn(2) by metis
  have "length (inorder T0) \<le> length (inorder T)" by (auto simp: z0(3) length_remove1 simp del: length_inorder)
  then have sm: "size T0 + 1 < 2 ^ 31" using small by simp
  have a0: "a \<notin> dom (znodes z0)" using a by (simp add: z0(4))
  from zset_add_spec [OF z0(2) key nn a0 sm] obtain z' T' zk h where
    add: "zset_add z0 a score key = Some z'" "zset_inv z' T'"
      "znodes z' = (znodes z0)(a \<mapsto> \<lparr>zscore = score, zkey = zk, zhcode = str_hash (dstr_bytes key)\<rparr>)"
      "hm_abs (zhmap z') = (hm_abs (zhmap z0))(kof key \<mapsto> h)" "hval h = a" using z0(5) by auto
  have "zabs z0 = (zabs z)(kof key := None)" using zabs_delete [OF inv yn(1) z0(4)] z0(5) yn(2) by simp
  then have "zabs z' = (zabs z)(kof key \<mapsto> score)" using zabs_add [OF z0(2) a0 add(3-5)] by simp
  then show ?thesis using Some zset_lookup_spec [OF inv key] zabs_member [OF inv, of "kof key"] z0(1) add(1,2)
    by (auto simp: zset_insert_def)
qed

section \<open>Moving by an offset\<close>

primrec pre :: "'a frame list \<Rightarrow> nat" where
  "pre [] = 0"
| "pre (f # c) = (case f of FL a r \<Rightarrow> pre c | FR l a \<Rightarrow> pre c + size l + 1)"

lemma inorder_fill_pre: "\<exists>xs ys. length xs = pre c \<and> (\<forall>t. inorder (fill c t) = xs @ inorder t @ ys)"
proof (induction c)
  case Nil
  show ?case by (metis append_Nil append_Nil2 fill.simps(1) list.size(3) pre.simps(1))
next
  case (Cons f c)
  then obtain xs ys where xy: "length xs = pre c" "\<forall>t. inorder (fill c t) = xs @ inorder t @ ys" by blast
  then have "\<forall>t. inorder (fill (f # c) t) = (case f of FL a r \<Rightarrow> xs | FR l a \<Rightarrow> xs @ inorder l @ [a]) @ inorder t
     @ (case f of FL a r \<Rightarrow> a # inorder r @ ys | FR l a \<Rightarrow> ys)"
    by (cases f) auto
  moreover have "length (case f of FL a r \<Rightarrow> xs | FR l a \<Rightarrow> xs @ inorder l @ [a]) = pre (f # c)"
    using xy(1) by (cases f) auto
  ultimately show ?case by blast
qed

lemma nth_fill: "m < size t \<Longrightarrow> inorder (fill c t) ! (pre c + m) = inorder t ! m"
  using inorder_fill_pre [of c] by (auto simp: nth_append)

lemma pre_size: "pre c + size t \<le> size (fill c t)"
proof -
  obtain xs ys where "length xs = pre c" "inorder (fill c t) = xs @ inorder t @ ys" using inorder_fill_pre by blast
  then have "length (inorder (fill c t)) = pre c + length (inorder t) + length ys" by (simp del: length_inorder)
  then show ?thesis by simp
qed

lemma chk32_ok: "- (2 ^ 31) \<le> i \<Longrightarrow> i < 2 ^ 31 \<Longrightarrow> chk32 i = Some i"
  by (simp add: chk32_def)

lemma wrap32_ok: "- (2 ^ 31) \<le> i \<Longrightarrow> i < 2 ^ 31 \<Longrightarrow> wrap32 i = i"
  by (simp add: wrap32_def signed_of_int signed_take_bit_int_eq_self)

lemma size_word:
  assumes "k < 2 ^ 31"
  shows "sint (of_nat k :: u32) = int k" and "uint (1 + of_nat k :: u32) = 1 + int k"
proof -
  show "sint (of_nat k :: u32) = int k"
    using wrap32_ok [of "int k"] assms by (simp add: wrap32_def)
  have "uint (of_nat (k + 1) :: u32) = int (k + 1)"
    using assms by (subst unsigned_of_nat) (simp add: take_bit_nat_eq_self del: of_nat_add of_nat_Suc)
  then show "uint (1 + of_nat k :: u32) = 1 + int k" by simp
qed

text \<open>Once the target is known to be below a node, the walk goes straight down to it.\<close>

lemma offset_walk_down:
  assumes "rep s par (Some a) t" and "size t < 2 ^ 31" and "t = Node l a r"
    and "0 \<le> i0" and "i0 < 2 ^ 31" and "0 \<le> b" and "b + int (size t) < 2 ^ 31" and "b \<le> j" and "j < b + int (size t)"
  shows "offset_walk s a (b + int (size l) - i0) (j - i0) = Some (Some (inorder t ! nat (j - b)))"
  using assms
proof (induction t arbitrary: par a l r b)
  case (Node l' a' r')
  then have eq: "l' = l" "a' = a" "r' = r" by auto
  from Node.prems(1) obtain n where n: "s a = Some n" "rep s (Some a) (aleft n) l" "rep s (Some a) (aright n) r"
    by (auto simp: eq split: option.splits)
  note sz = rep_size [OF n(2)] rep_size [OF n(3)]
  have sm: "size l < 2 ^ 31" "size r < 2 ^ 31" using Node.prems(2) by (auto simp: eq)
  have lo: "chk32 (b - i0) = Some (b - i0)" and hi: "chk32 (b + int (size l) - i0 + int (size r)) = Some (b + int (size l) - i0 + int (size r))"
    using Node.prems by (auto intro!: chk32_ok simp: eq)
  consider (here) "j = b + int (size l)" | (left) "j < b + int (size l)" | (right) "j > b + int (size l)" by linarith
  then show ?case
  proof cases
    case here
    then show ?thesis by (subst offset_walk.simps) (simp add: eq nth_append)
  next
    case left
    with Node.prems(8) obtain ll x lr where l: "l = Node ll x lr" by (cases l) auto
    with n(2) obtain m where m: "aleft n = Some x" "s x = Some m" "rep s (Some x) (aright m) lr" by (auto split: option.splits)
    have w: "wrap32 (b + int (size l) - i0 - (1 + int (size lr))) = b + int (size ll) - i0"
      using Node.prems l by (subst wrap32_ok) (auto simp: eq)
    have "offset_walk s x (b + int (size ll) - i0) (j - i0) = Some (Some (inorder l ! nat (j - b)))"
      using Node.IH(1) [of "Some a" x ll lr b] n(2) m(1) l Node.prems left by (auto simp: eq)
    moreover have "size lr < 2 ^ 31" using sm l by simp
    ultimately show ?thesis
      using left n(1) sz m rep_size [OF m(3)] lo w size_word [OF sm(1)] size_word [of "size lr"] Node.prems(8)
      by (subst offset_walk.simps) (simp add: eq nth_append nat_less_iff)
  next
    case right
    with Node.prems(9) obtain rl x rr where r: "r = Node rl x rr" by (cases r) (auto simp: eq)
    with n(3) obtain m where m: "aright n = Some x" "s x = Some m" "rep s (Some x) (aleft m) rl" by (auto split: option.splits)
    have w: "wrap32 (b + int (size l) - i0 + (1 + int (size rl))) = (b + int (size l) + 1) + int (size rl) - i0"
      using Node.prems r by (subst wrap32_ok) (auto simp: eq)
    have "offset_walk s x ((b + int (size l) + 1) + int (size rl) - i0) (j - i0) = Some (Some (inorder r ! nat (j - (b + int (size l) + 1))))"
      using Node.IH(2) [of "Some a" x rl rr "b + int (size l) + 1"] n(3) m(1) r Node.prems right by (auto simp: eq)
    moreover have "size rl < 2 ^ 31" using sm r by simp
    moreover have "inorder (Node l a r) ! nat (j - b) = inorder r ! nat (j - (b + int (size l) + 1))"
    proof -
      have "nat (j - b) = Suc (size l + nat (j - (b + int (size l) + 1)))" using right by linarith
      then show ?thesis by (simp add: nth_append)
    qed
    ultimately show ?thesis
      using right n(1) sz m rep_size [OF m(3)] hi w size_word [OF sm(2)] size_word [of "size rl"] Node.prems(9)
      by (subst offset_walk.simps) (simp add: eq)
  qed
qed simp


text \<open>Otherwise it goes to the parent.\<close>

lemma offset_walk_leave:
  assumes n: "s a = Some n" "rep s (Some a) (aleft n) l" "rep s (Some a) (aright n) r"
    and i0: "0 \<le> i0" "i0 < 2 ^ 31" and b: "0 \<le> b" "b + int (size (Node l a r)) < 2 ^ 31"
    and j: "\<not> (b \<le> j \<and> j < b + int (size (Node l a r)))"
  shows "offset_walk s a (b + int (size l) - i0) (j - i0) =
     (case aparent n of None \<Rightarrow> Some None | Some par \<Rightarrow> do {
        p \<leftarrow> s par;
        if aleft p = Some a then offset_walk s par (b + int (size (Node l a r)) - i0) (j - i0)
        else offset_walk s par (b - 1 - i0) (j - i0) })"
proof -
  have sm: "size l < 2 ^ 31" "size r < 2 ^ 31" using b by auto
  have "chk32 (b - i0) = Some (b - i0)" "chk32 (b + int (size l) - i0 + int (size r)) = Some (b + int (size l) - i0 + int (size r))"
    using i0 b by (auto intro!: chk32_ok)
  moreover have "wrap32 (b + int (size l) - i0 + (1 + int (size r))) = b + int (size (Node l a r)) - i0"
    "wrap32 (b + int (size l) - i0 - (1 + int (size l))) = b - 1 - i0"
    using i0 b by (subst wrap32_ok, auto)+
  ultimately show ?thesis
    using n(1) rep_size [OF n(2)] rep_size [OF n(3)] size_word [OF sm(1)] size_word [OF sm(2)] j
    by (subst offset_walk.simps) (auto split: option.splits cong: if_cong)
qed

lemma offset_walk_up:
  assumes "rep s None root (fill c (Node l a r))" and "distinct (inorder (fill c (Node l a r)))" and "size (fill c (Node l a r)) < 2 ^ 31"
    and "0 \<le> i0" and "i0 < 2 ^ 31"
  shows "offset_walk s a (int (pre c) + int (size l) - i0) (j - i0) =
     Some (if 0 \<le> j \<and> j < int (size (fill c (Node l a r))) then Some (inorder (fill c (Node l a r)) ! nat j) else None)"
  using assms(1-3)
proof (induction c arbitrary: l a r)
  case Nil
  let ?t = "Node l a r"
  from Nil obtain n where n: "s a = Some n" "aparent n = None" "rep s (Some a) (aleft n) l" "rep s (Some a) (aright n) r"
    and ra: "rep s None (Some a) ?t" by (auto split: option.splits)
  show ?case
    using offset_walk_down [OF ra, of l r i0 0 j] offset_walk_leave [OF n(1,3,4), of i0 0 j] n(2) Nil.prems(3) assms(4,5)
    by (cases "0 \<le> j \<and> j < int (size ?t)") auto
next
  case (Cons f c)
  let ?t = "Node l a r"
  let ?T = "fill (f # c) ?t"
  let ?b = "int (pre (f # c))"
  from Cons.prems(1) have "\<exists>p. rep s (Some (frame_addr f)) p ?t \<and> ctx_at s (f # c) p" unfolding rep_fill by auto
  then have ra: "rep s (Some (frame_addr f)) (Some a) ?t" and ca: "ctx_at s (f # c) (Some a)" by auto
  from ra obtain n where n: "s a = Some n" "aparent n = Some (frame_addr f)" "rep s (Some a) (aleft n) l" "rep s (Some a) (aright n) r"
    by (auto split: option.splits)
  have ps: "?b + int (size ?t) < 2 ^ 31"
    using le_less_trans [OF pre_size [of "f # c" ?t] Cons.prems(3)] by (metis of_nat_add of_nat_less_numeral_power_cancel_iff)
  show ?case
  proof (cases "?b \<le> j \<and> j < ?b + int (size ?t)")
    case True
    then have "nat (j - ?b) < size ?t" "pre (f # c) + nat (j - ?b) = nat j" by linarith+
    then have "inorder ?T ! nat j = inorder ?t ! nat (j - ?b)" by (metis nth_fill)
    moreover have "j < int (size ?T)" using True pre_size [of "f # c" ?t] by linarith
    ultimately show ?thesis
      using True offset_walk_down [OF ra _ refl, of i0 ?b j] ps assms(4,5) by simp
  next
    case False
    note leave = offset_walk_leave [OF n(1,3,4) assms(4,5) _ ps False]
    obtain p where p: "s (frame_addr f) = Some p" "aleft p = Some a \<longleftrightarrow> (case f of FL _ _ \<Rightarrow> True | FR _ _ \<Rightarrow> False)"
      using ctx_side [OF ca Cons.prems(2)] by blast
    show ?thesis
    proof (cases f)
      case (FL q r')
      then show ?thesis using leave p n(2) Cons.IH [of ?t q r'] Cons.prems by simp
    next
      case (FR l' q)
      then show ?thesis using leave p n(2) Cons.IH [of l' q ?t] Cons.prems by simp
    qed
  qed
qed


lemma zset_insert_node:
  assumes inv: "zset_inv z T" and key: "key_ok key" and nn: "\<not> is_nan score" and a: "a \<notin> dom (znodes z)"
    and small: "size T + 1 < 2 ^ 31" and ins: "zset_insert z a score key = Some (b, z')"
  shows "\<exists>zn. znodes z' a = Some zn \<and> zscore zn = score \<and> dstr_bytes (zkey zn) = dstr_bytes key"
proof (cases "hm_abs (zhmap z) (kof key)")
  case None
  with zset_add_spec [OF inv key nn a small None] ins zset_lookup_spec [OF inv key] show ?thesis
    by (auto simp: zset_insert_def)
next
  case (Some n)
  from zset_inv_hm [OF inv Some] obtain yn where yn: "znodes z (hval n) = Some yn" "kof (zkey yn) = kof key" by blast
  from zset_delete_spec [OF inv yn(1)] obtain z0 T0 where
    z0: "zset_delete z (hval n) = Some z0" "zset_inv z0 T0" "inorder T0 = remove1 (hval n) (inorder T)"
      "znodes z0 = (znodes z)(hval n := None)" "hm_abs (zhmap z0) = (hm_abs (zhmap z))(kof key := None)" using yn(2) by metis
  have "length (inorder T0) \<le> length (inorder T)" by (auto simp: z0(3) length_remove1 simp del: length_inorder)
  then have "size T0 + 1 < 2 ^ 31" "a \<notin> dom (znodes z0)" using small a by (auto simp: z0(4))
  with zset_add_spec [OF z0(2) key nn] ins zset_lookup_spec [OF inv key] Some z0(1,5) show ?thesis
    by (fastforce simp: zset_insert_def)
qed

lemma del_avl_tree_spec:
  assumes "rep s par p t" and "distinct (inorder t)"
  shows "del_avl_tree p s = Some (s |` (- set_tree t))"
  using assms
proof (induction t arbitrary: par p s)
  case Leaf
  then show ?case by (subst del_avl_tree.simps) (simp add: restrict_map_def)
next
  case (Node l a r)
  then obtain n where n: "p = Some a" "s a = Some n" "rep s (Some a) (aleft n) l" "rep s (Some a) (aright n) r"
    by (auto split: option.splits)
  have D: "distinct (inorder l)" "distinct (inorder r)" "a \<notin> set_tree l" "a \<notin> set_tree r" "set_tree l \<inter> set_tree r = {}"
    using Node.prems(2) by (auto simp: distinct_node)
  let ?s1 = "s |` (- set_tree l)"
  have "rep ?s1 (Some a) (aright n) r" using n(4) D(5) by (subst rep_cong [of _ _ s]) (auto simp: restrict_map_def)
  then have "del_avl_tree (aright n) ?s1 = Some (?s1 |` (- set_tree r))" using Node.IH(2) D(2) by blast
  moreover have "((?s1 |` (- set_tree r))(a := None)) = s |` (- set_tree (Node l a r))"
    by (auto simp: restrict_map_def fun_eq_iff)
  ultimately show ?case
    using n Node.IH(1) [OF n(3) D(1)] D(3,4) by (subst del_avl_tree.simps) (simp add: restrict_in)
qed

lemma tree_index:
  assumes "rep s None root T" and "a \<in> set_tree T" and "distinct (inorder T)"
  shows "\<exists>c l r. T = fill c (Node l a r) \<and> inorder T ! (pre c + size l) = a \<and> pre c + size l < size T"
proof -
  obtain c l r where T: "T = fill c (Node l a r)" using path_to [OF assms(2)] by blast
  have "inorder T ! (pre c + size l) = inorder (Node l a r) ! size l" unfolding T by (rule nth_fill) simp
  moreover have "pre c + size (Node l a r) \<le> size T" unfolding T by (rule pre_size)
  ultimately have "inorder T ! (pre c + size l) = a" "pre c + size l < size T" by (simp_all add: nth_append)
  with T show ?thesis by blast
qed

lemma zset_lower_bound_spec:
  assumes "zset_inv z T" and "key_ok key" and "\<not> is_nan score"
  shows "zset_lower_bound z score key = Some (find (\<lambda>a. \<not> zord z a < (dbl_key score, dstr_bytes key)) (inorder T))"
proof -
  have "rep (zavl z) None (avl_root z) T" using assms(1) by (simp add: zset_inv_def)
  from lower_walk_find [OF this zset_inv_less [OF assms] zset_inv_mono [OF assms(1)]] show ?thesis
    by (simp add: zset_lower_bound_def option.case_eq_if)
qed

lemma zset_offset_spec:
  assumes "rep (zavl z) None (avl_root z) T" and "distinct (inorder T)" and "size T < 2 ^ 31" and "a \<in> set_tree T"
  shows "\<exists>i < size T. inorder T ! i = a \<and> zset_offset z a offset =
     Some (if 0 \<le> int i + offset \<and> int i + offset < int (size T) then Some (inorder T ! nat (int i + offset)) else None)"
proof -
  obtain c l r where c: "T = fill c (Node l a r)" "inorder T ! (pre c + size l) = a" "pre c + size l < size T"
    using tree_index [OF assms(1,4,2)] by blast
  have "int (pre c + size l) < 2 ^ 31" using less_trans [OF c(3) assms(3)] by simp
  then show ?thesis
    using offset_walk_up [of "zavl z" "avl_root z" c l a r "int (pre c + size l)" "int (pre c + size l) + offset"] assms c
    by (intro exI [of _ "pre c + size l"]) (simp add: zset_offset_def)
qed

section \<open>Properties\<close>

text \<open>C1: on a well-formed sorted set, \<open>zset_insert\<close> returns normally and is the map update
  of the member's score, reporting whether the member is new; the result is well-formed again:
  the tree is balanced, in strict (score, name) order, with exact sizes and parent
  pointers, and the hash map and the tree hold the same members.\<close>

theorem zset_insert_refines_update:
  assumes "zset_inv z T" and "key_ok key" and "\<not> is_nan score" and "a \<notin> dom (znodes z)" and "size T + 1 < 2 ^ 31"
  shows "\<exists>z' T'. zset_insert z a score key = Some (zabs z (kof key) = None, z') \<and> zset_inv z' T'
     \<and> zabs z' = (zabs z)(kof key \<mapsto> score)"
  using assms by (rule zset_insert_spec)

theorem zset_insert_refines_update_witness:
  "\<exists>z' T'. zset_insert new_zset 1 0x3FF0000000000000 \<lparr>dsize = 1, dfree = 0, dbuf = [Some 97, Some 0]\<rparr> = Some (True, z')
     \<and> zset_inv z' T' \<and> zabs z' = [kof \<lparr>dsize = 1, dfree = 0, dbuf = [Some 97, Some 0]\<rparr> \<mapsto> 0x3FF0000000000000]"
proof -
  let ?k = "\<lparr>dsize = 1, dfree = 0, dbuf = [Some 97, Some 0]\<rparr>"
  have e: "zabs new_zset = Map.empty" "znodes new_zset = Map.empty" by (auto simp: zabs_def new_zset_def)
  have "key_ok ?k" "\<not> is_nan 0x3FF0000000000000" by (simp_all add: key_ok_def wf_dstr_def MAX_STR_SIZE_def is_nan_def)
  from zset_insert_refines_update [OF zset_inv_new this, of 1] show ?thesis by (simp add: e)
qed

text \<open>C20: deleting a member returns normally, removes exactly that member from the map and from
  the rank order, and keeps the set well-formed.\<close>

theorem zset_delete_refines_remove:
  assumes "zset_inv z T" and "znodes z a = Some zn"
  shows "\<exists>z' T'. zset_delete z a = Some z' \<and> zset_inv z' T' \<and> inorder T' = remove1 a (inorder T)
     \<and> zabs z' = (zabs z)(kof (zkey zn) := None)"
  using zset_delete_spec [OF assms] zabs_delete [OF assms] by metis

theorem zset_delete_refines_remove_witness:
  "\<exists>z z'. zset_insert new_zset 1 0 \<lparr>dsize = 1, dfree = 0, dbuf = [Some 97, Some 0]\<rparr> = Some (True, z)
     \<and> zset_delete z 1 = Some z' \<and> zabs z' = Map.empty"
proof -
  let ?k = "\<lparr>dsize = 1, dfree = 0, dbuf = [Some 97, Some 0]\<rparr>"
  have e: "zabs new_zset = Map.empty" "znodes new_zset = Map.empty" by (auto simp: zabs_def new_zset_def)
  have k: "key_ok ?k" "\<not> is_nan 0" by (simp_all add: key_ok_def wf_dstr_def MAX_STR_SIZE_def is_nan_def)
  obtain z T where z: "zset_insert new_zset 1 0 ?k = Some (True, z)" "zset_inv z T" "zabs z = [kof ?k \<mapsto> 0]"
    using zset_insert_spec [OF zset_inv_new k, of 1] e by auto
  from zset_insert_node [OF zset_inv_new k _ _ z(1)] e obtain zn where
    "znodes z 1 = Some zn" "dstr_bytes (zkey zn) = dstr_bytes ?k" by auto
  with zset_delete_refines_remove [OF z(2)] z show ?thesis by (force simp: kof_def)
qed

text \<open>C19: \<open>zset_lower_bound\<close> returns the first member, in rank order, that is not below the
  given (score, name) pair, and NULL when every member is below it.\<close>

theorem zset_lower_bound_first:
  assumes "zset_inv z T" and "key_ok key" and "\<not> is_nan score"
  shows "zset_lower_bound z score key = Some (find (\<lambda>a. \<not> zord z a < (dbl_key score, dstr_bytes key)) (inorder T))"
  using assms by (rule zset_lower_bound_spec)

theorem zset_lower_bound_first_witness:
  "\<exists>z a. zset_insert new_zset 1 0 \<lparr>dsize = 1, dfree = 0, dbuf = [Some 97, Some 0]\<rparr> = Some (True, z)
     \<and> zset_lower_bound z 0 \<lparr>dsize = 1, dfree = 0, dbuf = [Some 97, Some 0]\<rparr> = Some (Some a) \<and> \<not> zord z a < (0, [97])"
proof -
  let ?k = "\<lparr>dsize = 1, dfree = 0, dbuf = [Some 97, Some 0]\<rparr>"
  have e: "zabs new_zset = Map.empty" "znodes new_zset = Map.empty" by (auto simp: zabs_def new_zset_def)
  have k: "key_ok ?k" "\<not> is_nan 0" by (simp_all add: key_ok_def wf_dstr_def MAX_STR_SIZE_def is_nan_def)
  have p: "(dbl_key 0, dstr_bytes ?k) = (0, [97])" by (simp add: dbl_key_def dstr_bytes_def)
  obtain z T where z: "zset_insert new_zset 1 0 ?k = Some (True, z)" "zset_inv z T"
    using zset_insert_spec [OF zset_inv_new k, of 1] e by auto
  from zset_insert_node [OF zset_inv_new k _ _ z(1)] e obtain zn where
    zn: "znodes z 1 = Some zn" "zscore zn = 0" "dstr_bytes (zkey zn) = dstr_bytes ?k" by auto
  have "zord z 1 = (0, [97])" unfolding p [symmetric] using zn by (simp add: zord_def zpair_def)
  moreover have "1 \<in> set (inorder T)" using z(2) zn(1) by (auto simp: zset_inv_def)
  ultimately obtain a where "find (\<lambda>a. \<not> zord z a < (0, [97])) (inorder T) = Some a"
    by (cases "find (\<lambda>a. \<not> zord z a < (0, [97])) (inorder T)") (auto simp: find_None_iff)
  moreover from this have "\<not> zord z a < (0, [97])" by (auto simp: find_Some_iff)
  ultimately show ?thesis using z(1) zset_lower_bound_first [OF z(2) k, unfolded p] by auto
qed

text \<open>C18: from the member of rank \<open>i\<close>, \<open>zset_offset\<close> reaches the member of rank \<open>i + offset\<close>
  and returns NULL exactly when there is none, for every 32-bit offset: the walk over parents,
  children and subtree sizes terminates, faults nowhere and never overflows.\<close>

theorem zset_offset_reaches_rank:
  assumes "rep (zavl z) None (avl_root z) T" and "distinct (inorder T)" and "size T < 2 ^ 31" and "a \<in> set_tree T"
  shows "\<exists>i < size T. inorder T ! i = a \<and> zset_offset z a offset =
     Some (if 0 \<le> int i + offset \<and> int i + offset < int (size T) then Some (inorder T ! nat (int i + offset)) else None)"
  using assms by (rule zset_offset_spec)

theorem zset_offset_reaches_rank_witness:
  "zset_offset (new_zset\<lparr>avl_root := Some 2, zavl :=
      [1 \<mapsto> \<lparr>aparent = Some 2, aleft = None, aright = None, aheight = 1, asize = 1\<rparr>,
       2 \<mapsto> \<lparr>aparent = None, aleft = Some 1, aright = Some 3, aheight = 2, asize = 3\<rparr>,
       3 \<mapsto> \<lparr>aparent = Some 2, aleft = None, aright = None, aheight = 1, asize = 1\<rparr>]\<rparr>) 1 2 = Some (Some 3)"
  using zset_offset_reaches_rank [of "new_zset\<lparr>avl_root := Some 2, zavl :=
      [1 \<mapsto> \<lparr>aparent = Some 2, aleft = None, aright = None, aheight = 1, asize = 1\<rparr>,
       2 \<mapsto> \<lparr>aparent = None, aleft = Some 1, aright = Some 3, aheight = 2, asize = 3\<rparr>,
       3 \<mapsto> \<lparr>aparent = Some 2, aleft = None, aright = None, aheight = 1, asize = 1\<rparr>]\<rparr>"
     "Node (Node Leaf 1 Leaf) 2 (Node Leaf 3 Leaf)" 1 2]
  by (auto simp: nth_Cons' split: if_splits)

text \<open>\<open>zset_clear\<close> frees every node exactly once and leaves an empty, well-formed set.\<close>

lemma zset_clear_empties:
  assumes "zset_inv z T"
  shows "\<exists>z'. zset_clear z = Some z' \<and> zset_inv z' Leaf \<and> zabs z' = Map.empty \<and> dom (zavl z') = dom (zavl z) - set_tree T"
proof -
  have I: "rep (zavl z) None (avl_root z) T" "distinct (inorder T)" "set_tree T = dom (znodes z)"
    using assms by (simp_all add: zset_inv_def)
  let ?s = "zavl z |` (- set_tree T)"
  have "znodes z |` dom ?s = Map.empty" using I(3) by (auto simp: restrict_map_def fun_eq_iff split: if_splits)
  then show ?thesis
    using del_avl_tree_spec [OF I(1,2)]
    by (auto simp: zset_clear_def zset_inv_def hm_clear_def zabs_def)
qed

lemma zset_clear_empties_witness: "\<exists>z'. zset_clear new_zset = Some z' \<and> zset_inv z' Leaf"
  using zset_clear_empties [OF zset_inv_new] by blast

end
