(* ===== verification/Wire.thy ===== *)
theory Wire
  imports Dstr
begin

text \<open>
  The wire format: the byte buffers (\<open>src/src/buffer_funcs.cpp\<close>), the reply writers
  (\<open>src/src/out_helpers.cpp\<close>), the reply frame and the request parser of the server
  (\<open>before_res_build\<close>, \<open>after_res_build\<close> and \<open>parse_cmd\<close> of \<open>src/src/server.cpp\<close>), and
  the request writer and reply reader of the client (\<open>handle_write\<close>, \<open>handle_read\<close> and
  \<open>print_res\<close> of \<open>src/src/client.cpp\<close>).  A \<open>std::vector<uint8_t>\<close> is a list of bytes.
\<close>

section \<open>Definitions\<close>

subsection \<open>Buffers\<close>

definition TAG_INT :: u8 where "TAG_INT = 0"
definition TAG_STR :: u8 where "TAG_STR = 1"
definition TAG_ARR :: u8 where "TAG_ARR = 2"
definition TAG_NULL :: u8 where "TAG_NULL = 3"
definition TAG_ERROR :: u8 where "TAG_ERROR = 4"
definition TAG_DOUBLE :: u8 where "TAG_DOUBLE = 5"

definition RES_OK :: u32 where "RES_OK = 0"
definition RES_ERR :: u32 where "RES_ERR = 1"
definition RES_NX :: u32 where "RES_NX = 2"

text \<open>\<open>len\<close> bytes are read from \<open>data\<close>, which must have them.\<close>

definition buf_append :: "bytes \<Rightarrow> bytes \<Rightarrow> nat \<Rightarrow> bytes option" where
  "buf_append buf data len = (if len \<le> length data then Some (buf @ take len data) else None)"

definition buf_consume :: "bytes \<Rightarrow> nat \<Rightarrow> bytes option" where
  "buf_consume buf len = (if len \<le> length buf then Some (drop len buf) else None)"

definition buf_append_u8 :: "bytes \<Rightarrow> u8 \<Rightarrow> bytes" where
  "buf_append_u8 buf d = buf @ [d]"

definition buf_append_u32 :: "bytes \<Rightarrow> u32 \<Rightarrow> bytes" where
  "buf_append_u32 buf d = buf @ le32 d"

definition le64 :: "u64 \<Rightarrow> bytes" where
  "le64 w = le32 (ucast w) @ le32 (ucast (drop_bit 32 w))"

definition of_le64 :: "bytes \<Rightarrow> u64" where
  "of_le64 bs = ucast (of_le32 bs) OR push_bit 32 (ucast (of_le32 (drop 4 bs)))"

definition buf_append_double :: "bytes \<Rightarrow> u64 \<Rightarrow> bytes" where
  "buf_append_double buf d = buf @ le64 d"

text \<open>\<open>resize (size () - 4)\<close>: with fewer than four bytes the request underflows and fails.\<close>

definition buf_rem_last_res_code :: "bytes \<Rightarrow> bytes option" where
  "buf_rem_last_res_code buf = (if 4 \<le> length buf then Some (take (length buf - 4) buf) else None)"

subsection \<open>Reply writers\<close>

definition out_arr :: "bytes \<Rightarrow> u32 \<Rightarrow> bytes" where
  "out_arr out len = buf_append_u32 (buf_append_u8 out TAG_ARR) len"

definition out_int :: "bytes \<Rightarrow> u32 \<Rightarrow> bytes" where
  "out_int out nr = buf_append_u32 (buf_append_u8 out TAG_INT) nr"

definition out_double :: "bytes \<Rightarrow> u64 \<Rightarrow> bytes" where
  "out_double out d = buf_append_double (buf_append_u8 out TAG_DOUBLE) d"

text \<open>The length argument is a \<open>uint32_t\<close>; callers pass a \<open>size_t\<close>.\<close>

definition out_str :: "bytes \<Rightarrow> bytes \<Rightarrow> u32 \<Rightarrow> bytes option" where
  "out_str out str sz = buf_append (buf_append_u32 (buf_append_u8 out TAG_STR) sz) str (unat sz)"

definition out_dstr :: "bytes \<Rightarrow> dstr \<Rightarrow> bytes option" where
  "out_dstr out s = out_str out (dstr_bytes s) (of_nat (dsize s))"

definition out_not_found :: "bytes \<Rightarrow> bytes option" where
  "out_not_found out = do {
     out \<leftarrow> buf_rem_last_res_code out;
     Some (buf_append_u8 (buf_append_u32 out RES_NX) TAG_NULL)
   }"

definition out_err :: "bytes \<Rightarrow> bytes \<Rightarrow> bytes option" where
  "out_err out mes = do {
     out \<leftarrow> buf_rem_last_res_code out;
     let out = buf_append_u32 out RES_ERR;
     let out = buf_append_u8 out TAG_ERROR;
     let out = buf_append_u32 out (of_nat (length mes));
     buf_append out mes (length mes)
   }"

definition out_null :: "bytes \<Rightarrow> bytes" where
  "out_null out = buf_append_u8 out TAG_NULL"

definition out_unknown_arr :: "bytes \<Rightarrow> nat \<times> bytes" where
  "out_unknown_arr out =
     (let out = buf_append_u32 (buf_append_u8 out TAG_ARR) 0 in (length out - 4, out))"

subsection \<open>The reply frame\<close>

definition MAX_MESSAGE_LEN :: nat where
  "MAX_MESSAGE_LEN = 32 * 2 ^ 20"

text \<open>\<open>memcpy (&out[pos], &v, 4)\<close> inside the vector.\<close>

definition put_u32 :: "bytes \<Rightarrow> nat \<Rightarrow> u32 \<Rightarrow> bytes option" where
  "put_u32 out pos v = (if pos + 4 \<le> length out then Some (take pos out @ le32 v @ drop (pos + 4) out) else None)"

text \<open>The header position is a \<open>uint32_t\<close>.\<close>

definition before_res_build :: "bytes \<Rightarrow> u32 \<times> bytes" where
  "before_res_build out =
     (let header = of_nat (length out);
          out = buf_append_u32 out 0;
          out = buf_append_u32 (buf_append_u8 out TAG_ARR) 2;
          out = buf_append_u32 (buf_append_u8 out TAG_INT) RES_OK
      in (header, out))"

definition after_res_build :: "bytes \<Rightarrow> u32 \<Rightarrow> bytes option" where
  "after_res_build out header =
     (let mes_len = length out - unat header - 4 in
      if mes_len > MAX_MESSAGE_LEN then Some out
      else put_u32 out (unat header) (of_nat mes_len))"

subsection \<open>The request parser\<close>

text \<open>\<open>n\<close> bytes at the read position, and the rest.\<close>

definition rd :: "nat \<Rightarrow> bytes \<Rightarrow> (bytes \<times> bytes) option" where
  "rd n buf = (if n \<le> length buf then Some (take n buf, drop n buf) else None)"

text \<open>The loop \<open>while (cmd.size () < nstr)\<close> makes \<open>nstr\<close> rounds; a read past the end of the
  vector is undefined.\<close>

fun parse_tokens :: "nat \<Rightarrow> bytes \<Rightarrow> (dstr list \<times> bytes) option" where
  "parse_tokens 0 buf = Some ([], buf)"
| "parse_tokens (Suc n) buf = do {
     (_, buf) \<leftarrow> rd 1 buf;
     (lb, buf) \<leftarrow> rd 4 buf;
     let t_len = unat (of_le32 lb);
     (bs, buf') \<leftarrow> rd t_len buf;
     token \<leftarrow> dstr_copy always bs t_len;
     (ts, buf) \<leftarrow> parse_tokens n buf';
     Some (token # ts, buf)
   }"

definition parse_cmd :: "bytes \<Rightarrow> dstr list option" where
  "parse_cmd buf = do {
     (_, buf) \<leftarrow> rd 1 buf;
     (nb, buf) \<leftarrow> rd 4 buf;
     (ts, _) \<leftarrow> parse_tokens (unat (of_le32 nb)) buf;
     Some ts
   }"

subsection \<open>The client\<close>

definition CLIENT_MAX_MESSAGE_LEN :: nat where
  "CLIENT_MAX_MESSAGE_LEN = 4096"

text \<open>The bytes \<open>handle_write\<close> sends, \<open>Inl ()\<close> for the refusal.\<close>

fun write_tokens :: "bytes \<Rightarrow> dstr list \<Rightarrow> bytes option" where
  "write_tokens buf [] = Some buf"
| "write_tokens buf (t # ts) = do {
     let len = (of_nat (dsize t) :: u32);
     let buf = buf_append_u32 (buf_append_u8 buf TAG_STR) len;
     buf \<leftarrow> buf_append buf (dstr_bytes t) (unat len);
     write_tokens buf ts
   }"

definition client_handle_write :: "dstr list \<Rightarrow> (unit + bytes) option" where
  "client_handle_write query =
     (let total = (5 + sum_list (map (\<lambda>t. 5 + dsize t) query)) mod 2 ^ 32 in
      if total > CLIENT_MAX_MESSAGE_LEN then Some (Inl ())
      else do {
        let buf = buf_append_u32 [] (of_nat total);
        let buf = buf_append_u32 (buf_append_u8 buf TAG_ARR) (of_nat (length query));
        buf \<leftarrow> write_tokens buf query;
        Some (Inr buf)
      })"

text \<open>What \<open>print_res\<close> hands to \<open>printf\<close>, item by item: for strings the freshly allocated
  buffer, whose bytes beyond the copied ones are not initialised.\<close>

datatype item = IArr u32 | IStr cbuf | IErr cbuf | IDbl u64 | IInt u32 | INull

definition str_buf :: "bytes \<Rightarrow> cbuf" where
  "str_buf bs = map Some bs @ [if bs = [] then Some 0 else None]"

text \<open>The outcome of \<open>printf ("%s")\<close> on such a buffer.\<close>

fun print_s :: "cbuf \<Rightarrow> bytes option" where
  "print_s [] = None"
| "print_s (None # _) = None"
| "print_s (Some b # bs) = (if b = 0 then Some [] else map_option (Cons b) (print_s bs))"

function print_res :: "bytes \<Rightarrow> nat \<Rightarrow> nat \<Rightarrow> item list option" where
  "print_res buf cur total_len =
     (if cur \<ge> (4 + total_len) mod 2 ^ 32 then Some []
      else do {
        (tb, r) \<leftarrow> rd 1 (drop cur buf);
        let cur = cur + 1;
        let tag = hd tb;
        if tag = TAG_ARR then do {
          (b, _) \<leftarrow> rd 4 r;
          its \<leftarrow> print_res buf (cur + 4) total_len;
          Some (IArr (of_le32 b) # its)
        }
        else if tag = TAG_STR \<or> tag = TAG_ERROR then do {
          (b, r) \<leftarrow> rd 4 r;
          let n = unat (of_le32 b);
          (bs, _) \<leftarrow> rd n r;
          _ \<leftarrow> (case dstr_init always n of Inl _ \<Rightarrow> None | Inr s \<Rightarrow> Some s);
          its \<leftarrow> print_res buf (cur + 4 + n) total_len;
          Some ((if tag = TAG_STR then IStr (str_buf bs) else IErr (str_buf bs)) # its)
        }
        else if tag = TAG_DOUBLE then do {
          (b, _) \<leftarrow> rd 8 r;
          its \<leftarrow> print_res buf (cur + 8) total_len;
          Some (IDbl (of_le64 b) # its)
        }
        else if tag = TAG_INT then do {
          (b, _) \<leftarrow> rd 4 r;
          its \<leftarrow> print_res buf (cur + 4) total_len;
          Some (IInt (of_le32 b) # its)
        }
        else if tag = TAG_NULL then do {
          its \<leftarrow> print_res buf cur total_len;
          Some (INull # its)
        }
        else print_res buf cur total_len
      })"
  by pat_completeness auto
termination
  by (relation "measure (\<lambda>(_, cur, total_len). (4 + total_len) mod 2 ^ 32 - cur)") auto

declare print_res.simps [simp del]

text \<open>\<open>handle_read\<close> on the bytes that arrive until the connection is closed: \<open>Inl ()\<close> when they
  end early, otherwise the response code, the items and the bytes left for the next reply.  The
  size of the buffer is computed in 32 bits; where it wraps, the read overruns the buffer.\<close>

definition client_handle_read :: "bytes \<Rightarrow> (unit + u32 \<times> item list \<times> bytes) option" where
  "client_handle_read stream =
     (case rd 4 stream of
        None \<Rightarrow> Some (Inl ())
      | Some (hb, r) \<Rightarrow>
          let total_len = unat (of_le32 hb) in
          if 4 + total_len \<ge> 2 ^ 32 then None
          else (case rd total_len r of
             None \<Rightarrow> Some (Inl ())
           | Some (body, rest) \<Rightarrow> do {
               let buf = hb @ body;
               (cb, _) \<leftarrow> rd 4 (drop 10 buf);
               its \<leftarrow> print_res buf 14 total_len;
               Some (Inr (of_le32 cb, its, rest))
             }))"


section \<open>Replies as sequences of items\<close>

datatype ritem = RArr u32 | RInt u32 | RDbl u64 | RStr bytes | RNull

definition write_item :: "bytes \<Rightarrow> ritem \<Rightarrow> bytes option" where
  "write_item out it = (case it of
     RArr n \<Rightarrow> Some (out_arr out n) | RInt n \<Rightarrow> Some (out_int out n) | RDbl d \<Rightarrow> Some (out_double out d)
   | RStr bs \<Rightarrow> out_str out bs (of_nat (length bs)) | RNull \<Rightarrow> Some (out_null out))"

fun write_items :: "bytes \<Rightarrow> ritem list \<Rightarrow> bytes option" where
  "write_items out [] = Some out"
| "write_items out (it # its) = do { out \<leftarrow> write_item out it; write_items out its }"

text \<open>The item as the client receives it.\<close>

definition received :: "ritem \<Rightarrow> item" where
  "received it = (case it of RArr n \<Rightarrow> IArr n | RInt n \<Rightarrow> IInt n | RDbl d \<Rightarrow> IDbl d | RStr bs \<Rightarrow> IStr (str_buf bs) | RNull \<Rightarrow> INull)"

primrec enc :: "ritem \<Rightarrow> bytes" where
  "enc (RArr n) = TAG_ARR # le32 n"
| "enc (RInt n) = TAG_INT # le32 n"
| "enc (RDbl d) = TAG_DOUBLE # le64 d"
| "enc (RStr bs) = TAG_STR # le32 (of_nat (length bs)) @ bs"
| "enc RNull = [TAG_NULL]"

definition short_strs :: "ritem list \<Rightarrow> bool" where
  "short_strs its \<longleftrightarrow> (\<forall>bs. RStr bs \<in> set its \<longrightarrow> length bs < 2 ^ 32)"

lemmas tag_defs = TAG_INT_def TAG_STR_def TAG_ARR_def TAG_NULL_def TAG_ERROR_def TAG_DOUBLE_def
lemma tag_neq [simp]:
  "TAG_INT \<noteq> TAG_STR" "TAG_INT \<noteq> TAG_ARR" "TAG_INT \<noteq> TAG_NULL" "TAG_INT \<noteq>
  TAG_ERROR" "TAG_INT \<noteq> TAG_DOUBLE" "TAG_STR \<noteq> TAG_INT" "TAG_STR \<noteq> TAG_ARR" "TAG_STR
  \<noteq> TAG_NULL" "TAG_STR \<noteq> TAG_ERROR" "TAG_STR \<noteq> TAG_DOUBLE" "TAG_ARR \<noteq> TAG_INT"
  "TAG_ARR \<noteq> TAG_STR" "TAG_ARR \<noteq> TAG_NULL" "TAG_ARR \<noteq> TAG_ERROR" "TAG_ARR \<noteq>
  TAG_DOUBLE" "TAG_NULL \<noteq> TAG_INT" "TAG_NULL \<noteq> TAG_STR" "TAG_NULL \<noteq> TAG_ARR" "TAG_NULL
  \<noteq> TAG_ERROR" "TAG_NULL \<noteq> TAG_DOUBLE" "TAG_ERROR \<noteq> TAG_INT" "TAG_ERROR \<noteq> TAG_STR"
  "TAG_ERROR \<noteq> TAG_ARR" "TAG_ERROR \<noteq> TAG_NULL" "TAG_ERROR \<noteq> TAG_DOUBLE" "TAG_DOUBLE
  \<noteq> TAG_INT" "TAG_DOUBLE \<noteq> TAG_STR" "TAG_DOUBLE \<noteq> TAG_ARR" "TAG_DOUBLE \<noteq> TAG_NULL"
  "TAG_DOUBLE \<noteq> TAG_ERROR"
  by code_simp+

lemmas buf_defs = buf_append_def buf_append_u8_def buf_append_u32_def buf_append_double_def
lemmas out_defs = out_arr_def out_int_def out_double_def out_str_def out_null_def

lemma unat_length [simp]: "k < 2 ^ 32 \<Longrightarrow> unat (of_nat k :: u32) = k"
  by (simp add: unat_of_nat take_bit_nat_eq_self)

lemma length_le64 [simp]: "length (le64 d) = 8"
  by (simp add: le64_def)

lemma of_le64_le64 [simp]: "of_le64 (le64 d @ rest) = d"
proof (rule bit_word_eqI)
  fix n
  assume "n < LENGTH(64)"
  then show "bit (of_le64 (le64 d @ rest)) n = bit d n"
    by (cases "32 \<le> n") (auto simp: of_le64_def le64_def bit_simps)
qed

lemma of_le_exact [simp]: "of_le32 (le32 w) = w" "of_le64 (le64 d) = d"
  using of_le32_le32 [of w "[]"] of_le64_le64 [of d "[]"] by simp_all

lemma rd_append [simp]: "length a = n \<Longrightarrow> rd n (a @ b) = Some (a, b)"
  by (auto simp: rd_def)

lemma rd_1 [simp]: "rd (Suc 0) (x # b) = Some ([x], b)"
  by (simp add: rd_def)

lemma rd_all: "length a = n \<Longrightarrow> rd n a = Some (a, [])"
  by (auto simp: rd_def)

lemma write_item_enc: "short_strs [it] \<Longrightarrow> write_item out it = Some (out @ enc it)"
  by (cases it) (auto simp: write_item_def out_defs buf_defs short_strs_def)

lemma write_items_enc: "short_strs its \<Longrightarrow> write_items out its = Some (out @ concat (map enc its))"
proof (induction its arbitrary: out)
  case (Cons it its)
  then have "short_strs [it]" "short_strs its" by (auto simp: short_strs_def)
  with Cons.IH show ?case by (simp add: write_item_enc)
qed simp

lemma print_res_items:
  assumes "drop cur buf = concat (map enc its)" and "cur \<le> length buf" and "length buf < 2 ^ 32" and "4 \<le> length buf"
    and "length buf \<le> MAX_STR_SIZE"
  shows "print_res buf cur (length buf - 4) = Some (map received its)"
  using assms(1,2)
proof (induction its arbitrary: cur)
  case Nil
  then have "cur = length buf" by simp
  with assms(3,4) show ?case by (subst print_res.simps) simp
next
  case (Cons it its)
  have len: "cur + length (enc it) + length (concat (map enc its)) = length buf"
    using arg_cong [OF Cons.prems(1), of length] Cons.prems(2) by simp
  have nxt: "print_res buf (cur + length (enc it)) (length buf - 4) = Some (map received its)"
  proof (rule Cons.IH)
    have "drop (length (enc it)) (drop cur buf) = concat (map enc its)" using Cons.prems(1) by simp
    then show "drop (cur + length (enc it)) buf = concat (map enc its)" by (simp add: add.commute)
    show "cur + length (enc it) \<le> length buf" using len by simp
  qed
  have cur: "\<not> (4 + (length buf - 4)) mod 2 ^ 32 \<le> cur" using len assms(3,4) by (cases it) auto
  have d: "drop cur buf = enc it @ concat (map enc its)" using Cons.prems(1) by simp
  show ?case
  proof (cases it)
    case (RStr bs)
    have "length bs < 2 ^ 32" "length bs \<le> MAX_STR_SIZE" using len assms(3,5) RStr by auto
    then show ?thesis
      using cur d nxt RStr by (subst print_res.simps) (simp add: received_def dstr_init_def Let_def ac_simps)
  next
    case (RArr n)
    then show ?thesis using cur d nxt by (subst print_res.simps) (simp add: received_def add.commute)
  next
    case (RInt n)
    then show ?thesis using cur d nxt by (subst print_res.simps) (simp add: received_def add.commute)
  next
    case (RDbl x)
    then show ?thesis using cur d nxt by (subst print_res.simps) (simp add: received_def add.commute)
  next
    case RNull
    then show ?thesis using cur d nxt by (subst print_res.simps) (simp add: received_def add.commute)
  qed
qed


lemma before_res_build_eq:
  "before_res_build out = (of_nat (length out), out @ le32 0 @ TAG_ARR # le32 2 @ TAG_INT # le32 RES_OK)"
  by (simp add: before_res_build_def buf_defs Let_def)

text \<open>A complete frame: header, status and items, as \<open>after_res_build\<close> leaves it.\<close>

definition frame :: "u32 \<Rightarrow> bytes \<Rightarrow> bytes" where
  "frame code body = le32 (of_nat (10 + length body)) @ TAG_ARR # le32 2 @ TAG_INT # le32 code @ body"

lemma after_res_build_frame:
  assumes "length out < 2 ^ 32" and "10 + length body \<le> MAX_MESSAGE_LEN"
  shows "after_res_build (out @ le32 0 @ TAG_ARR # le32 2 @ TAG_INT # le32 code @ body) (of_nat (length out)) = Some (out @ frame code body)"
  using assms by (simp add: after_res_build_def put_u32_def frame_def Let_def)


lemma client_reads_frame:
  assumes "10 + length (concat (map enc its)) \<le> MAX_MESSAGE_LEN"
  shows "client_handle_read (frame code (concat (map enc its)) @ rest) = Some (Inr (code, map received its, rest))"
proof -
  let ?b = "concat (map enc its)"
  let ?body = "TAG_ARR # le32 2 @ TAG_INT # le32 code @ ?b"
  let ?buf = "le32 (of_nat (10 + length ?b)) @ ?body"
  have len: "length ?buf = 14 + length ?b" by simp
  have small: "14 + length ?b < 2 ^ 32" "14 + length ?b \<le> MAX_STR_SIZE" using assms by (simp_all add: MAX_MESSAGE_LEN_def MAX_STR_SIZE_def)
  have u: "unat (of_nat (10 + length ?b) :: u32) = 10 + length ?b" using small by (intro unat_length) simp
  have fr: "frame code ?b @ rest = le32 (of_nat (10 + length ?b)) @ (?body @ rest)" by (simp add: frame_def)
  have d14: "drop 14 ?buf = ?b" and d10: "drop 10 ?buf = le32 code @ ?b" by simp_all
  have "print_res ?buf 14 (10 + length ?b) = Some (map received its)"
    using print_res_items [OF d14] small len by simp
  moreover have "rd (10 + length ?b) (?body @ rest) = Some (?body, rest)" by (rule rd_append) simp
  ultimately show ?thesis
    unfolding client_handle_read_def fr
    using u d10 small by (simp add: Let_def)
qed

lemma out_err_frame:
  "out_err (pre @ le32 c) mes = Some (pre @ le32 RES_ERR @ TAG_ERROR # le32 (of_nat (length mes)) @ mes)"
  "out_not_found (pre @ le32 c) = Some (pre @ le32 RES_NX @ [TAG_NULL])"
  by (simp_all add: out_err_def out_not_found_def buf_rem_last_res_code_def buf_defs Let_def)

section \<open>Requests\<close>

definition tok :: "dstr \<Rightarrow> bytes" where
  "tok t = TAG_STR # le32 (of_nat (dsize t)) @ dstr_bytes t"

lemma write_tokens_tok:
  "\<forall>t \<in> set ts. wf_dstr t \<and> dsize t < 2 ^ 32 \<Longrightarrow> write_tokens buf ts = Some (buf @ concat (map tok ts))"
  by (induction buf ts rule: write_tokens.induct) (auto simp: buf_defs tok_def Let_def)

lemma parse_tokens_tok:
  "\<forall>t \<in> set ts. wf_dstr t \<and> 2 * dsize t \<le> MAX_STR_SIZE \<Longrightarrow>
   \<exists>cmd. parse_tokens (length ts) (concat (map tok ts) @ rest) = Some (cmd, rest) \<and> map dstr_bytes cmd = map dstr_bytes ts
     \<and> (\<forall>t \<in> set cmd. wf_dstr t)"
proof (induction ts)
  case (Cons t ts)
  then obtain cmd where cmd: "parse_tokens (length ts) (concat (map tok ts) @ rest) = Some (cmd, rest)"
    "map dstr_bytes cmd = map dstr_bytes ts" "\<forall>t \<in> set cmd. wf_dstr t" by auto
  have t: "dsize t < 2 ^ 32" "length (dstr_bytes t) = dsize t" "2 * dsize t \<le> MAX_STR_SIZE"
    using Cons.prems by (auto simp: MAX_STR_SIZE_def)
  obtain t' where t': "dstr_copy always (dstr_bytes t) (dsize t) = Some t'" "wf_dstr t'" "dstr_bytes t' = dstr_bytes t"
    using dstr_copy_ok [of "dstr_bytes t" "dsize t"] t by auto
  have "rd (dsize t) (dstr_bytes t @ concat (map tok ts) @ rest) = Some (dstr_bytes t, concat (map tok ts) @ rest)"
    using t by simp
  with cmd t t' show ?case by (simp add: tok_def [of t] Let_def)
qed simp

section \<open>Properties\<close>

text \<open>C6: whatever items a handler writes with \<open>out_arr\<close>, \<open>out_int\<close>, \<open>out_double\<close>,
  \<open>out_str\<close> and \<open>out_null\<close> between \<open>before_res_build\<close> and \<open>after_res_build\<close>, the client reads
  back exactly these items with status \<open>RES_OK\<close>, consumes exactly this reply from the stream,
  and everything queued before it is untouched.\<close>

theorem reply_roundtrip:
  assumes "short_strs its" and "length out < 2 ^ 32" and "before_res_build out = (h, out1)"
    and "write_items out1 its = Some out2" and "length out2 \<le> length out + MAX_MESSAGE_LEN"
  shows "\<exists>out3. after_res_build out2 h = Some out3 \<and> take (length out) out3 = out
     \<and> client_handle_read (drop (length out) out3 @ rest) = Some (Inr (RES_OK, map received its, rest))"
proof -
  let ?b = "concat (map enc its)"
  have o1: "out1 = out @ le32 0 @ TAG_ARR # le32 2 @ TAG_INT # le32 RES_OK" "h = of_nat (length out)"
    using assms(3) by (simp_all add: before_res_build_eq)
  have o2: "out2 = out @ le32 0 @ TAG_ARR # le32 2 @ TAG_INT # le32 RES_OK @ ?b"
    using assms(4) write_items_enc [OF assms(1)] by (simp add: o1)
  have len: "10 + length ?b \<le> MAX_MESSAGE_LEN" using assms(5) by (simp add: o2)
  show ?thesis
    using after_res_build_frame [OF assms(2) len, of RES_OK] client_reads_frame [OF len, of RES_OK rest] by (simp add: o1 o2)
qed

theorem reply_roundtrip_witness:
  "\<exists>out1 out2 out3. before_res_build [] = (0, out1) \<and> write_items out1 [RArr 2, RStr [104, 105], RNull] = Some out2
     \<and> after_res_build out2 0 = Some out3
     \<and> client_handle_read (out3 @ [7]) = Some (Inr (RES_OK, [IArr 2, IStr [Some 104, Some 105, None], INull], [7]))"
proof -
  let ?its = "[RArr 2, RStr [104, 105], RNull]"
  have s: "short_strs ?its" by (auto simp: short_strs_def)
  obtain out1 where o1: "before_res_build [] = (0, out1)" by (simp add: before_res_build_eq)
  have len1: "length out1 = 14" using o1 by (auto simp: before_res_build_eq)
  have o2: "write_items out1 ?its = Some (out1 @ concat (map enc ?its))" by (rule write_items_enc [OF s])
  from reply_roundtrip [OF s _ o1 o2, of "[7]"] len1 obtain out3 where
    "after_res_build (out1 @ concat (map enc ?its)) 0 = Some out3"
    "client_handle_read (out3 @ [7]) = Some (Inr (RES_OK, map received ?its, [7]))"
    by (auto simp: MAX_MESSAGE_LEN_def)
  with o1 o2 show ?thesis by (simp add: received_def str_buf_def)
qed

lemma request_parses:
  assumes "\<forall>t \<in> set query. wf_dstr t" and "5 + sum_list (map (\<lambda>t. 5 + dsize t) query) \<le> CLIENT_MAX_MESSAGE_LEN"
  shows "\<exists>bs cmd. client_handle_write query = Some (Inr bs) \<and> length bs = 4 + unat (of_le32 bs)
     \<and> parse_cmd (drop 4 (bs @ rest)) = Some cmd \<and> map dstr_bytes cmd = map dstr_bytes query \<and> (\<forall>t \<in> set cmd. wf_dstr t)"
proof -
  let ?n = "5 + sum_list (map (\<lambda>t. 5 + dsize t) query)"
  let ?b = "concat (map tok query)"
  have each: "dsize t \<le> 4096" if "t \<in> set query" for t
    using member_le_sum_list [of "5 + dsize t" "map (\<lambda>t. 5 + dsize t) query"] that assms(2) by (auto simp: CLIENT_MAX_MESSAGE_LEN_def)
  have "length query \<le> sum_list (map (\<lambda>t. 5 + dsize t) query)" by (induction query) auto
  then have lq: "length query < 2 ^ 32" using assms(2) by (simp add: CLIENT_MAX_MESSAGE_LEN_def)
  have n: "?n < 2 ^ 32" using assms(2) by (simp add: CLIENT_MAX_MESSAGE_LEN_def)
  have lb: "5 + length ?b = ?n" using assms(1) by (induction query) (auto simp: tok_def)
  have "\<forall>t \<in> set query. wf_dstr t \<and> dsize t < 2 ^ 32" using assms(1) each by fastforce
  from write_tokens_tok [OF this] have w: "client_handle_write query = Some (Inr (le32 (of_nat ?n) @ TAG_ARR # le32 (of_nat (length query)) @ ?b))"
    using n assms(2) by (simp add: client_handle_write_def buf_defs Let_def)
  have "\<forall>t \<in> set query. wf_dstr t \<and> 2 * dsize t \<le> MAX_STR_SIZE" using assms(1) each by (fastforce simp: MAX_STR_SIZE_def)
  from parse_tokens_tok [OF this, of rest] obtain cmd where
    cmd: "parse_tokens (length query) (?b @ rest) = Some (cmd, rest)" "map dstr_bytes cmd = map dstr_bytes query" "\<forall>t \<in> set cmd. wf_dstr t" by blast
  have "parse_cmd (TAG_ARR # le32 (of_nat (length query)) @ ?b @ rest) = Some cmd"
    using cmd(1) lq by (simp add: parse_cmd_def)
  moreover have "length (le32 (of_nat ?n) @ TAG_ARR # le32 (of_nat (length query)) @ ?b) = 4 + unat (of_nat ?n :: u32)"
    using lb unat_length [OF n] by simp
  ultimately show ?thesis using w cmd by (intro exI conjI) (assumption, auto)
qed

text \<open>C7: every query the client sends is parsed back by the server into tokens with the same
  bytes, in the same number and order, whatever follows in the stream, and the length
  header covers exactly the request.\<close>

theorem request_roundtrip:
  assumes "\<forall>t \<in> set query. wf_dstr t" and "5 + sum_list (map (\<lambda>t. 5 + dsize t) query) \<le> CLIENT_MAX_MESSAGE_LEN"
  shows "\<exists>bs cmd. client_handle_write query = Some (Inr bs) \<and> length bs = 4 + unat (of_le32 bs)
     \<and> parse_cmd (drop 4 (bs @ rest)) = Some cmd \<and> map dstr_bytes cmd = map dstr_bytes query \<and> (\<forall>t \<in> set cmd. wf_dstr t)"
  using assms by (rule request_parses)

theorem request_roundtrip_witness:
  "\<exists>bs cmd. client_handle_write [\<lparr>dsize = 4, dfree = 0, dbuf = [Some 107, Some 101, Some 121, Some 115, Some 0]\<rparr>] = Some (Inr bs)
     \<and> parse_cmd (drop 4 (bs @ [9])) = Some cmd \<and> map dstr_bytes cmd = [[107, 101, 121, 115]]"
  using request_roundtrip [of "[\<lparr>dsize = 4, dfree = 0, dbuf = [Some 107, Some 101, Some 121, Some 115, Some 0]\<rparr>]" "[9]"]
  by (auto simp: wf_dstr_def CLIENT_MAX_MESSAGE_LEN_def dstr_bytes_def)

text \<open>The string buffer of \<open>print_res\<close> is not terminated: printing any received non-empty
  string without a NUL byte runs into memory that was never written.\<close>

lemma print_res_unterminated:
  assumes "bs \<noteq> []" and "0 \<notin> set bs" and "received (RStr bs) = IStr buf"
  shows "print_s buf = None"
proof -
  have "print_s (map Some xs @ [None]) = None" if "0 \<notin> set xs" for xs
    using that by (induction xs) auto
  with assms show ?thesis by (auto simp: received_def str_buf_def)
qed

lemma print_res_unterminated_witness: "print_s (str_buf [104, 105]) = None"
  using print_res_unterminated [of "[104, 105]" "str_buf [104, 105]"] by (simp add: received_def)

end
