(* ===== verification/Cstdlib.thy ===== *)
theory Cstdlib
  imports Prelude
begin

text \<open>
  The number parsers of the C library that the command handlers call on their arguments:
  \<open>strtol\<close> and \<open>strtoll\<close> in base 10 (both 64 bits wide here) and \<open>strtod\<close>, in the C locale
  and the default rounding mode.  The argument is the text before the terminating NUL byte.
\<close>

section \<open>Characters\<close>

definition isspace :: "u8 \<Rightarrow> bool" where
  "isspace c \<longleftrightarrow> c = 32 \<or> (9 \<le> c \<and> c \<le> 13)"

definition isdigit :: "u8 \<Rightarrow> bool" where
  "isdigit c \<longleftrightarrow> 48 \<le> c \<and> c \<le> 57"

definition tolower :: "u8 \<Rightarrow> u8" where
  "tolower c = (if 65 \<le> c \<and> c \<le> 90 then c + 32 else c)"

definition xdigit :: "u8 \<Rightarrow> nat option" where
  "xdigit c = (if isdigit c then Some (unat c - 48)
     else if 97 \<le> tolower c \<and> tolower c \<le> 102 then Some (unat (tolower c) - 87) else None)"

text \<open>An optional sign.\<close>

definition sign :: "bytes \<Rightarrow> bool \<times> bytes" where
  "sign s = (case s of c # r \<Rightarrow> if c = 45 then (True, r) else if c = 43 then (False, r) else (False, s) | [] \<Rightarrow> (False, s))"

definition dec :: "bytes \<Rightarrow> nat" where
  "dec ds = foldl (\<lambda>n c. 10 * n + (unat c - 48)) 0 ds"

section \<open>Integers\<close>

text \<open>Saturates at the bounds of \<open>long\<close>; no digits give 0.\<close>

definition strtol :: "bytes \<Rightarrow> int" where
  "strtol s =
     (let (neg, r) = sign (dropWhile isspace s);
          n = int (dec (takeWhile isdigit r))
      in if neg then max (- (2 ^ 63)) (- n) else min (2 ^ 63 - 1) n)"

section \<open>Doubles\<close>

text \<open>The bit pattern of the double nearest to \<open>num / den\<close>, ties to even: with the exponent
  \<open>e\<close> chosen such that the quotient by \<open>2 ^ e\<close> has 53 bits (fewer only at the smallest
  exponent), overflow gives infinity.\<close>

definition scale :: "nat \<Rightarrow> nat \<Rightarrow> int \<Rightarrow> nat \<times> nat" where
  "scale num den e = (if e \<ge> 0 then (num, den * 2 ^ nat e) else (num * 2 ^ nat (- e), den))"

definition round_even :: "nat \<Rightarrow> nat \<Rightarrow> nat" where
  "round_even n d = (let q = n div d; r = n mod d in
     if 2 * r < d then q else if 2 * r > d then q + 1 else if even q then q else q + 1)"

definition pick_exp :: "nat \<Rightarrow> nat \<Rightarrow> int" where
  "pick_exp num den = (case find (\<lambda>e. case scale num den e of (n, d) \<Rightarrow> n < d * 2 ^ 53) [-1074..971] of
     None \<Rightarrow> 972 | Some e \<Rightarrow> e)"

definition to_double :: "nat \<Rightarrow> nat \<Rightarrow> u64" where
  "to_double num den =
     (let e = pick_exp num den;
          (n, d) = scale num den e;
          m = round_even n d;
          b = (if m < 2 ^ 52 then m else nat (e + 1074) * 2 ^ 52 + m)
      in if e = 972 \<or> b \<ge> 0x7FF0000000000000 then 0x7FF0000000000000 else of_nat b)"

text \<open>An exponent \<open>e\<close> or \<open>p\<close>, an optional sign and at least one digit; otherwise none.\<close>

definition exponent :: "u8 \<Rightarrow> bytes \<Rightarrow> int" where
  "exponent mark s = (case s of
     c # r \<Rightarrow> if tolower c = mark then
         (let (neg, r) = sign r; n = int (dec (takeWhile isdigit r)) in if neg then - n else n)
       else 0
   | [] \<Rightarrow> 0)"

definition dec_double :: "bytes \<Rightarrow> u64" where
  "dec_double s =
     (let ip = takeWhile isdigit s;
          r = dropWhile isdigit s;
          fp = (case r of c # t \<Rightarrow> if c = 46 then takeWhile isdigit t else [] | [] \<Rightarrow> []);
          r = (case r of c # t \<Rightarrow> if c = 46 then dropWhile isdigit t else r | [] \<Rightarrow> []);
          e = exponent 101 r - int (length fp);
          m = dec (ip @ fp)
      in if ip @ fp = [] then 0
         else if e \<ge> 0 then to_double (m * 10 ^ nat e) 1 else to_double m (10 ^ nat (- e)))"

definition hexval :: "bytes \<Rightarrow> nat" where
  "hexval ds = foldl (\<lambda>n c. 16 * n + the (xdigit c)) 0 ds"

definition hex_double :: "bytes \<Rightarrow> u64" where
  "hex_double s =
     (let h = (\<lambda>c. xdigit c \<noteq> None);
          ip = takeWhile h s;
          r = dropWhile h s;
          fp = (case r of c # t \<Rightarrow> if c = 46 then takeWhile h t else [] | [] \<Rightarrow> []);
          r = (case r of c # t \<Rightarrow> if c = 46 then dropWhile h t else r | [] \<Rightarrow> []);
          e = exponent 112 r - 4 * int (length fp);
          m = hexval (ip @ fp)
      in if ip @ fp = [] then 0
         else if e \<ge> 0 then to_double (m * 2 ^ nat e) 1 else to_double m (2 ^ nat (- e)))"

definition has_prefix :: "bytes \<Rightarrow> bytes \<Rightarrow> bool" where
  "has_prefix p s \<longleftrightarrow> map tolower (take (length p) s) = p"

definition strtod :: "bytes \<Rightarrow> u64" where
  "strtod s =
     (let (neg, r) = sign (dropWhile isspace s);
          v = (if has_prefix [105, 110, 102] r then 0x7FF0000000000000
               else if has_prefix [110, 97, 110] r then 0x7FF8000000000000
               else if has_prefix [48, 120] r then hex_double (drop 2 r)
               else dec_double r)
      in if neg then v OR 0x8000000000000000 else v)"

end
