(* ===== verification/Hll.thy ===== *)
theory Hll
  imports Complex_Main Wire Murmur
begin

text \<open>
  HyperLogLog sketches (\<open>src/src/data_structures/hyperloglog.cpp\<close>, \<open>hyperloglog.h\<close>).

  A sketch is a \<open>dstr\<close> used as a byte array: a header of 16 bytes and then either 16384
  registers of six bits (dense) or a sequence of run-length flags (sparse).  Every access
  \<open>hll->buf[i]\<close> is an access to the allocation behind the string, so that an index outside of
  it, or a byte that was never written, is undefined.  Elements of \<open>buf\<close> are \<open>char\<close>: where the
  code widens one to 32 bits it is sign-extended.  A \<open>uint8_t*\<close> into the buffer is the index it
  points at.  The arithmetic on \<open>long double\<close> and \<open>logl\<close> are a parameter, the record \<open>fpu\<close>.
\<close>

section \<open>Constants\<close>

definition HLL_P :: nat where "HLL_P = 14"
definition HLL_Q :: nat where "HLL_Q = 64 - HLL_P"
definition REGISTER_CNT :: nat where "REGISTER_CNT = 16384"
definition HLL_HEADER_SIZE_BYTES :: nat where "HLL_HEADER_SIZE_BYTES = 16"
definition HLL_DENSE_SIZE_BYTES :: nat where "HLL_DENSE_SIZE_BYTES = 6 * REGISTER_CNT div 8"
definition HLL_SPARSE_MAX_BYTES :: nat where "HLL_SPARSE_MAX_BYTES = 3000"
definition HLL_DENSE :: u8 where "HLL_DENSE = 0"
definition HLL_SPARSE :: u8 where "HLL_SPARSE = 1"

lemmas hll_consts = HLL_P_def HLL_Q_def REGISTER_CNT_def HLL_HEADER_SIZE_BYTES_def HLL_DENSE_SIZE_BYTES_def
  HLL_SPARSE_MAX_BYTES_def HLL_DENSE_def HLL_SPARSE_def

section \<open>General helpers\<close>

text \<open>Reading and writing \<open>hll->buf[i]\<close>\<close>

definition byte_at :: "dstr \<Rightarrow> nat \<Rightarrow> u8 option" where
  "byte_at hll i = (if i < length (dbuf hll) then dbuf hll ! i else None)"

definition put_byte :: "dstr \<Rightarrow> nat \<Rightarrow> u8 \<Rightarrow> dstr option" where
  "put_byte hll i b = (if i < length (dbuf hll) then Some (hll\<lparr>dbuf := (dbuf hll)[i := Some b]\<rparr>) else None)"

definition get_enc :: "dstr \<Rightarrow> u8 option" where
  "get_enc hll = byte_at hll 4"

definition set_enc :: "dstr \<Rightarrow> u8 \<Rightarrow> dstr option" where
  "set_enc hll en = put_byte hll 4 en"

definition cache_valid :: "dstr \<Rightarrow> bool option" where
  "cache_valid hll = do { b \<leftarrow> byte_at hll 15; Some (\<not> bit b 7) }"

definition invalidate_cache :: "dstr \<Rightarrow> dstr option" where
  "invalidate_cache hll = do { b \<leftarrow> byte_at hll 15; put_byte hll 15 (b OR push_bit 7 1) }"

definition is_val :: "u8 \<Rightarrow> bool" where
  "is_val flag = bit flag 7"

definition is_zero :: "u8 \<Rightarrow> bool" where
  "is_zero flag = (\<not> bit flag 7 \<and> \<not> bit flag 6)"

definition val_value :: "u8 \<Rightarrow> u8" where
  "val_value flag = drop_bit 2 (flag AND NOT (push_bit 7 1)) + 1"

definition val_cnt :: "u8 \<Rightarrow> u8" where
  "val_cnt flag = ((flag AND NOT (push_bit 7 1)) AND 3) + 1"

definition zero_cnt :: "u8 \<Rightarrow> u8" where
  "zero_cnt flag = flag + 1"

definition xzero_cnt :: "u8 \<Rightarrow> u8 \<Rightarrow> u32" where
  "xzero_cnt msb lsb = (push_bit 8 (ucast (msb AND NOT (push_bit 6 1))) OR ucast lsb) + 1"

text \<open>The loops of \<open>set_cache\<close> and \<open>get_cache\<close> write and read eight bytes, least significant
  first.  A failed \<open>assert\<close> aborts.\<close>

definition set_cache :: "dstr \<Rightarrow> u64 \<Rightarrow> dstr option" where
  "set_cache hll v =
     (if v < 2 ^ 63 then do { buf \<leftarrow> mem_write (dbuf hll) 8 (le64 v); Some (hll\<lparr>dbuf := buf\<rparr>) } else None)"

definition get_cache :: "dstr \<Rightarrow> u64 option" where
  "get_cache hll = do {
     v \<leftarrow> cache_valid hll;
     if v then map_option of_le64 (mem_read (dbuf hll) 8 8) else None
   }"

section \<open>Dense sketches\<close>

text \<open>The byte and the bit in it where a register starts.\<close>

definition reg_byte :: "u32 \<Rightarrow> nat" where
  "reg_byte reg_no = unat (6 * reg_no div 8 + of_nat HLL_HEADER_SIZE_BYTES)"

definition reg_fb :: "u32 \<Rightarrow> nat" where
  "reg_fb reg_no = unat (6 * reg_no mod 8)"

definition get_reg :: "dstr \<Rightarrow> u32 \<Rightarrow> u8 option" where
  "get_reg hll reg_no = do {
     let b0 = reg_byte reg_no;
     let fb = reg_fb reg_no;
     buf0 \<leftarrow> map_option scast (byte_at hll b0);
     buf1 \<leftarrow> map_option scast (byte_at hll (b0 + 1));
     let reg = (drop_bit fb buf0 OR push_bit (8 - fb) buf1 :: u32);
     Some (ucast (reg AND 255))
   }"

definition set_reg :: "dstr \<Rightarrow> u32 \<Rightarrow> u32 \<Rightarrow> dstr option" where
  "set_reg hll reg_no v = do {
     let b0 = reg_byte reg_no;
     let fb = reg_fb reg_no;
     buf0 \<leftarrow> map_option scast (byte_at hll b0);
     buf1 \<leftarrow> map_option scast (byte_at hll (b0 + 1));
     let buf0 = (buf0 AND NOT (push_bit fb 63) :: u32);
     let buf0 = buf0 OR push_bit fb v;
     hll \<leftarrow> put_byte hll b0 (ucast (buf0 AND 255));
     let buf1 = (buf1 AND NOT (drop_bit (8 - fb) 63) :: u32);
     let buf1 = buf1 OR drop_bit (8 - fb) v;
     put_byte hll (b0 + 1) (ucast (buf1 AND 255))
   }"

definition add_dense :: "dstr \<Rightarrow> u32 \<Rightarrow> u8 \<Rightarrow> (bool \<times> dstr) option" where
  "add_dense hll reg_no val = do {
     reg \<leftarrow> get_reg hll reg_no;
     if reg < val then do {
       hll \<leftarrow> set_reg hll reg_no (ucast val);
       hll \<leftarrow> invalidate_cache hll;
       Some (True, hll)
     }
     else Some (False, hll)
   }"

text \<open>\<open>iszero\<close> is the macro of \<open>math.h\<close>, a comparison with zero, and not \<open>is_zero\<close>.\<close>

fun cnt_zero_dense :: "nat \<Rightarrow> u32 \<Rightarrow> dstr \<Rightarrow> u32 \<Rightarrow> u32 option" where
  "cnt_zero_dense 0 reg_no hll acc = Some acc"
| "cnt_zero_dense (Suc n) reg_no hll acc = do {
     reg \<leftarrow> get_reg hll reg_no;
     cnt_zero_dense n (reg_no + 1) hll (if reg = 0 then acc + 1 else acc)
   }"

function cnt_zero_sparse :: "dstr \<Rightarrow> nat \<Rightarrow> u32 \<Rightarrow> u32 option" where
  "cnt_zero_sparse hll fn acc =
     (if fn < dsize hll then do {
        flag \<leftarrow> byte_at hll fn;
        if flag = 0 then cnt_zero_sparse hll (fn + 1) (acc + ucast (zero_cnt flag))
        else if \<not> is_val flag then do {
          lsb \<leftarrow> byte_at hll (fn + 1);
          cnt_zero_sparse hll (fn + 2) (acc + xzero_cnt flag lsb)
        }
        else cnt_zero_sparse hll (fn + 1) acc
      } else Some acc)"
  by pat_completeness auto
termination
  by (relation "measure (\<lambda>(hll, fn, _). dsize hll - fn)") auto

definition cnt_zero_regs :: "dstr \<Rightarrow> u32 option" where
  "cnt_zero_regs hll = do {
     enc \<leftarrow> get_enc hll;
     if enc = HLL_DENSE then cnt_zero_dense REGISTER_CNT 0 hll 0
     else cnt_zero_sparse hll HLL_HEADER_SIZE_BYTES 0
   }"

text \<open>\<open>"HYLL"\<close>\<close>

definition HYLL :: bytes where
  "HYLL = [72, 89, 76, 76]"

text \<open>What \<open>dense_init\<close> and \<open>hll_init\<close> share: an allocation of \<open>n\<close> zero bytes with a header.\<close>

definition blank :: "nat \<Rightarrow> u8 \<Rightarrow> dstr option" where
  "blank n en = do {
     hll \<leftarrow> (case dstr_init always n of Inl _ \<Rightarrow> None | Inr s \<Rightarrow> Some s);
     buf \<leftarrow> mem_write (dbuf hll) 0 (replicate n 0);
     buf \<leftarrow> mem_write buf 0 HYLL;
     hll \<leftarrow> put_byte (hll\<lparr>dbuf := buf\<rparr>) 4 en;
     invalidate_cache hll
   }"

definition dense_init :: "dstr option" where
  "dense_init = do {
     hll \<leftarrow> blank (HLL_HEADER_SIZE_BYTES + HLL_DENSE_SIZE_BYTES) HLL_DENSE;
     let hll = hll\<lparr>dsize := HLL_HEADER_SIZE_BYTES + HLL_DENSE_SIZE_BYTES, dfree := 0\<rparr>;
     put_byte hll (dsize hll) 0
   }"

text \<open>The inner loop of \<open>densify\<close>\<close>

fun set_run :: "nat \<Rightarrow> dstr \<Rightarrow> u32 \<Rightarrow> u8 \<Rightarrow> dstr option" where
  "set_run 0 d reg_no v = Some d"
| "set_run (Suc n) d reg_no v = do { d \<leftarrow> set_reg d reg_no (ucast v); set_run n d (reg_no + 1) v }"

text \<open>After the loop \<open>while (cnt--)\<close> the counter has wrapped around to \<open>2 ^ 32 - 1\<close>, and the
  common \<open>reg_no += cnt\<close> subtracts one from a position that was already advanced.\<close>

function densify_loop :: "dstr \<Rightarrow> nat \<Rightarrow> u32 \<Rightarrow> dstr \<Rightarrow> dstr option" where
  "densify_loop hll flag_no reg_no d =
     (if flag_no < dsize hll then do {
        flag \<leftarrow> byte_at hll flag_no;
        if is_val flag then do {
          d \<leftarrow> set_run (unat (val_cnt flag)) d reg_no (val_value flag);
          densify_loop hll (flag_no + 1) (reg_no + ucast (val_cnt flag) + (- 1)) d
        }
        else if is_zero flag then densify_loop hll (flag_no + 1) (reg_no + ucast (zero_cnt flag)) d
        else do {
          lsb \<leftarrow> byte_at hll (flag_no + 1);
          densify_loop hll (flag_no + 2) (reg_no + xzero_cnt flag lsb) d
        }
      } else Some d)"
  by pat_completeness auto
termination
  by (relation "measure (\<lambda>(hll, flag_no, _). dsize hll - flag_no)") auto

definition densify :: "dstr \<Rightarrow> dstr option" where
  "densify hll = do {
     enc \<leftarrow> get_enc hll;
     if enc = HLL_DENSE then Some hll
     else do { d \<leftarrow> dense_init; densify_loop hll HLL_HEADER_SIZE_BYTES 0 d }
   }"

section \<open>Adding to a sparse sketch\<close>

text \<open>What the search loop of \<open>add_sparse\<close> leaves in its variables.\<close>

record scan =
  sc_start :: u32
  sc_end :: u32
  sc_prev :: "nat option"
  sc_curr :: "nat option"
  sc_next :: "nat option"
  sc_ival :: bool
  sc_izero :: bool
  sc_ixzero :: bool

function find_flag :: "dstr \<Rightarrow> u32 \<Rightarrow> nat \<Rightarrow> u32 \<Rightarrow> scan \<Rightarrow> scan option" where
  "find_flag hll reg_no fn idx s =
     (if fn < dsize hll then do {
        flag \<leftarrow> byte_at hll fn;
        let s = s\<lparr>sc_curr := Some fn, sc_start := idx\<rparr>;
        (more, cnt) \<leftarrow> (if is_val flag then Some (0, ucast (val_cnt flag))
          else if is_zero flag then Some (0, ucast (zero_cnt flag))
          else do { lsb \<leftarrow> byte_at hll (fn + 1); Some (1, xzero_cnt flag lsb) });
        let last = fn + more;
        let idx = idx + cnt;
        if idx > reg_no then
          Some (s\<lparr>sc_ival := is_val flag, sc_izero := is_zero flag, sc_ixzero := \<not> is_val flag \<and> \<not> is_zero flag,
            sc_end := idx - 1, sc_next := (if last + 1 < dsize hll then Some (last + 1) else sc_next s)\<rparr>)
        else find_flag hll reg_no (last + 1) idx (s\<lparr>sc_prev := Some last, sc_ival := False, sc_izero := False, sc_ixzero := False\<rparr>)
      } else Some s)"
  by pat_completeness auto
termination
  by (relation "measure (\<lambda>(hll, _, fn, _). dsize hll - fn)") auto

definition scan0 :: scan where
  "scan0 = \<lparr>sc_start = 0, sc_end = 0, sc_prev = None, sc_curr = None, sc_next = None,
     sc_ival = False, sc_izero = False, sc_ixzero = False\<rparr>"

text \<open>A run of \<open>count + 1\<close> zero registers as flags.\<close>

definition zero_flags :: "u32 \<Rightarrow> bytes" where
  "zero_flags count = (if count > 64 then [ucast (push_bit 6 1 OR drop_bit 8 count), ucast (count AND 255)] else [ucast count])"

definition val_flag :: "u8 \<Rightarrow> u8 \<Rightarrow> u8" where
  "val_flag v count = push_bit 7 1 OR push_bit 2 v OR count"

text \<open>The flags that replace the current one: the array \<open>tmp\<close>.\<close>

definition split_flags :: "scan \<Rightarrow> u8 \<Rightarrow> u32 \<Rightarrow> u8 \<Rightarrow> bytes" where
  "split_flags s cur reg_no val =
     (if sc_ival s then
        (if sc_start s \<noteq> reg_no then [val_flag (val_value cur) (ucast (reg_no - sc_start s - 1))] else [])
        @ [val_flag val 0]
        @ (if sc_end s \<noteq> reg_no then [val_flag (val_value cur) (ucast (sc_end s - reg_no - 1))] else [])
      else
        (if reg_no \<noteq> sc_start s then zero_flags (reg_no - sc_start s - 1) else [])
        @ [val_flag val 0]
        @ (if reg_no \<noteq> sc_end s then zero_flags (sc_end s - reg_no - 1) else []))"

text \<open>\<open>memmove\<close> copies initialised and uninitialised bytes alike; both ranges are inside.\<close>

definition mem_move :: "cbuf \<Rightarrow> nat \<Rightarrow> nat \<Rightarrow> nat \<Rightarrow> cbuf option" where
  "mem_move buf dst src n =
     (if dst + n \<le> length buf \<and> src + n \<le> length buf
      then Some (take dst buf @ take n (drop src buf) @ drop (dst + n) buf) else None)"

text \<open>\<open>hll->free\<close> is a \<open>size_t\<close>.\<close>

definition splice :: "dstr \<Rightarrow> scan \<Rightarrow> nat \<Rightarrow> bytes \<Rightarrow> dstr option" where
  "splice hll s cp tmp = do {
     let delta = int (length tmp) - (if sc_ixzero s then 2 else 1);
     let hll_end = dsize hll;
     let hll = hll\<lparr>dsize := nat (int (dsize hll) + delta), dfree := nat ((int (dfree hll) - delta) mod 2 ^ 64)\<rparr>;
     buf \<leftarrow> (case sc_next s of
        Some next \<Rightarrow> if delta \<noteq> 0 then mem_move (dbuf hll) (nat (int next + delta)) next (hll_end - next) else Some (dbuf hll)
      | None \<Rightarrow> Some (dbuf hll));
     buf \<leftarrow> mem_write buf cp tmp;
     Some (hll\<lparr>dbuf := buf\<rparr>)
   }"

text \<open>The loop that merges adjacent flags; \<open>n\<close> is \<open>scanlen\<close>, \<open>hll_end\<close> stays as it is.\<close>

fun merge_vals :: "nat \<Rightarrow> nat \<Rightarrow> nat \<Rightarrow> dstr \<Rightarrow> dstr option" where
  "merge_vals 0 p hll_end hll = Some hll"
| "merge_vals (Suc n) p hll_end hll =
     (if p < hll_end then do {
        f \<leftarrow> byte_at hll p;
        if is_zero f then merge_vals n (p + 1) hll_end hll
        else if \<not> is_val f then merge_vals n (p + 2) hll_end hll
        else if p + 1 < hll_end then do {
          g \<leftarrow> byte_at hll (p + 1);
          if is_val g \<and> val_value f = val_value g \<and> val_cnt f + val_cnt g \<le> 4 then do {
            hll \<leftarrow> put_byte hll (p + 1) (val_flag (val_value f) (val_cnt f + val_cnt g));
            buf \<leftarrow> mem_move (dbuf hll) p (p + 1) (hll_end - p);
            let hll = hll\<lparr>dbuf := buf, dsize := dsize hll - 1, dfree := dfree hll + 1\<rparr>;
            hll \<leftarrow> put_byte hll (dsize hll) 0;
            merge_vals n p hll_end hll
          }
          else merge_vals n (p + 1) hll_end hll
        }
        else merge_vals n (p + 1) hll_end hll
      } else Some hll)"

definition reserve_sparse :: "dstr \<Rightarrow> dstr option" where
  "reserve_sparse hll = do {
     let new_cap = dsize hll + 3;
     let new_cap = new_cap + min new_cap 300;
     (_, hll) \<leftarrow> dstr_reserve always hll
       (if new_cap > HLL_SPARSE_MAX_BYTES then HLL_SPARSE_MAX_BYTES - dsize hll else new_cap - dsize hll);
     Some hll
   }"

definition add_sparse :: "dstr \<Rightarrow> u32 \<Rightarrow> u8 \<Rightarrow> (bool \<times> dstr) option" where
  "add_sparse hll reg_no val =
     (if val > 32 \<or> dsize hll + 5 > HLL_SPARSE_MAX_BYTES then do {
        hll \<leftarrow> densify hll;
        add_dense hll reg_no val
      }
      else do {
        let val = val - 1;
        hll \<leftarrow> reserve_sparse hll;
        s \<leftarrow> find_flag hll reg_no HLL_HEADER_SIZE_BYTES 0 scan0;
        cp \<leftarrow> sc_curr s;
        cur \<leftarrow> byte_at hll cp;
        if sc_ival s \<and> val_value cur \<ge> val then Some (False, hll)
        else if sc_ival s \<and> val_cnt cur = 1 then do {
          hll \<leftarrow> put_byte hll cp ((cur AND NOT (push_bit 2 31)) OR push_bit 2 val);
          hll \<leftarrow> invalidate_cache hll;
          Some (True, hll)
        }
        else if sc_izero s \<and> zero_cnt cur = 1 then do {
          hll \<leftarrow> put_byte hll cp (val_flag val 1);
          hll \<leftarrow> invalidate_cache hll;
          Some (True, hll)
        }
        else do {
          hll \<leftarrow> splice hll s cp (split_flags s cur reg_no val);
          hll \<leftarrow> merge_vals 5 (case sc_prev s of Some p \<Rightarrow> p | None \<Rightarrow> HLL_HEADER_SIZE_BYTES) (dsize hll) hll;
          hll \<leftarrow> invalidate_cache hll;
          Some (True, hll)
        }
      })"

section \<open>Estimates\<close>

text \<open>The floating point operations of \<open>hll_count\<close>: \<open>f_pref\<close> is
  \<open>BIAS_CORRECTION * REGISTER_CNT * REGISTER_CNT\<close>, \<open>f_small\<close> is \<open>2.5l * REGISTER_CNT\<close>,
  \<open>f_inv_pow2 n\<close> is \<open>1.0l / (1ull << n)\<close>, \<open>f_ratio a b\<close> is \<open>(long double) a / b\<close>, and \<open>f_trunc\<close> the
  conversion to \<open>uint64_t\<close>.\<close>

record 'f fpu =
  f_zero :: 'f
  f_half :: 'f
  f_pref :: 'f
  f_small :: 'f
  f_inv_pow2 :: "nat \<Rightarrow> 'f"
  f_of_nat :: "nat \<Rightarrow> 'f"
  f_ratio :: "nat \<Rightarrow> nat \<Rightarrow> 'f"
  f_inv :: "'f \<Rightarrow> 'f"
  f_add :: "'f \<Rightarrow> 'f \<Rightarrow> 'f"
  f_mul :: "'f \<Rightarrow> 'f \<Rightarrow> 'f"
  f_le :: "'f \<Rightarrow> 'f \<Rightarrow> bool"
  f_logl :: "'f \<Rightarrow> 'f"
  f_trunc :: "'f \<Rightarrow> u64"

text \<open>Shifting by 64 or more is undefined.\<close>

fun sum_dense :: "'f fpu \<Rightarrow> nat \<Rightarrow> u32 \<Rightarrow> dstr \<Rightarrow> 'f \<Rightarrow> 'f option" where
  "sum_dense F 0 reg_no hll acc = Some acc"
| "sum_dense F (Suc n) reg_no hll acc = do {
     reg \<leftarrow> get_reg hll reg_no;
     if unat reg < 64 then sum_dense F n (reg_no + 1) hll (f_add F acc (f_inv_pow2 F (unat reg))) else None
   }"

definition estimate_cnt_d :: "'f fpu \<Rightarrow> dstr \<Rightarrow> 'f option" where
  "estimate_cnt_d F hll = do {
     sum \<leftarrow> sum_dense F REGISTER_CNT 0 hll (f_zero F);
     Some (f_mul F (f_pref F) (f_inv F sum))
   }"

function sum_sparse :: "'f fpu \<Rightarrow> dstr \<Rightarrow> nat \<Rightarrow> 'f \<Rightarrow> 'f option" where
  "sum_sparse F hll flag_no acc =
     (if flag_no < dsize hll then do {
        flag \<leftarrow> byte_at hll flag_no;
        if is_val flag then
          sum_sparse F hll (flag_no + 1)
            (f_add F acc (f_mul F (f_inv_pow2 F (unat (val_value flag))) (f_of_nat F (unat (val_cnt flag)))))
        else if is_zero flag then
          sum_sparse F hll (flag_no + 1) (f_add F acc (f_mul F (f_inv_pow2 F 0) (f_of_nat F (unat (zero_cnt flag)))))
        else do {
          lsb \<leftarrow> byte_at hll (flag_no + 1);
          sum_sparse F hll (flag_no + 2) (f_add F acc (f_mul F (f_inv_pow2 F 0) (f_of_nat F (unat (xzero_cnt flag lsb)))))
        }
      } else Some acc)"
  by pat_completeness auto
termination
  by (relation "measure (\<lambda>(_, hll, flag_no, _). dsize hll - flag_no)") auto

definition estimate_cnt_s :: "'f fpu \<Rightarrow> dstr \<Rightarrow> 'f option" where
  "estimate_cnt_s F hll = do {
     sum \<leftarrow> sum_sparse F hll HLL_HEADER_SIZE_BYTES (f_zero F);
     Some (f_mul F (f_pref F) (f_inv F sum))
   }"

definition estimate_cnt :: "'f fpu \<Rightarrow> dstr \<Rightarrow> 'f option" where
  "estimate_cnt F hll = do {
     enc \<leftarrow> get_enc hll;
     if enc = HLL_DENSE then estimate_cnt_d F hll else estimate_cnt_s F hll
   }"

section \<open>The interface\<close>

definition hll_init :: "dstr option" where
  "hll_init = do {
     hll \<leftarrow> blank (HLL_HEADER_SIZE_BYTES + 2) HLL_SPARSE;
     let runlen = (of_nat REGISTER_CNT - 1 :: u32);
     hll \<leftarrow> put_byte hll 16 (ucast (push_bit 6 1 OR drop_bit 8 runlen));
     hll \<leftarrow> put_byte hll 17 (ucast (runlen AND 255));
     let hll = hll\<lparr>dsize := HLL_HEADER_SIZE_BYTES + 2, dfree := 0\<rparr>;
     put_byte hll (dsize hll) 0
   }"

definition hll_count :: "'f fpu \<Rightarrow> dstr \<Rightarrow> (u64 \<times> dstr) option" where
  "hll_count F hll = do {
     valid \<leftarrow> cache_valid hll;
     if valid then do { c \<leftarrow> get_cache hll; Some (c, hll) }
     else do {
       estimate \<leftarrow> estimate_cnt F hll;
       estimate \<leftarrow> (if f_le F estimate (f_small F) then do {
            zero_regs \<leftarrow> cnt_zero_regs hll;
            Some (if zero_regs \<noteq> 0 then f_mul F (f_logl F (f_ratio F REGISTER_CNT (unat zero_regs))) (f_of_nat F REGISTER_CNT)
                  else estimate)
          } else Some estimate);
       let estimate = f_add F estimate (f_half F);
       hll \<leftarrow> set_cache hll (f_trunc F estimate);
       Some (f_trunc F estimate, hll)
     }
   }"

text \<open>Leading zeroes of the part of the hash below the register number, plus one.\<close>

fun lead_zeroes :: "nat \<Rightarrow> u64 \<Rightarrow> u8 \<Rightarrow> u8" where
  "lead_zeroes 0 ex zeroes = zeroes"
| "lead_zeroes (Suc n) ex zeroes = (if bit ex 63 then zeroes else lead_zeroes n (push_bit 1 ex) (zeroes + 1))"

definition hll_add :: "dstr \<Rightarrow> dstr \<Rightarrow> (bool \<times> dstr) option" where
  "hll_add hll val = do {
     let hash = str_hash (dstr_bytes val);
     let reg_no = (ucast (drop_bit HLL_Q hash) :: u32);
     let zeroes = lead_zeroes HLL_Q (push_bit HLL_P hash) 1;
     enc \<leftarrow> get_enc hll;
     (ret, hll) \<leftarrow> (if enc = HLL_DENSE then add_dense hll reg_no zeroes else add_sparse hll reg_no zeroes);
     enc \<leftarrow> get_enc hll;
     hll \<leftarrow> (if enc = HLL_SPARSE \<and> dsize hll > HLL_SPARSE_MAX_BYTES then densify hll else Some hll);
     Some (ret, hll)
   }"

fun merge_regs :: "nat \<Rightarrow> u32 \<Rightarrow> bool \<Rightarrow> dstr \<Rightarrow> dstr \<Rightarrow> (bool \<times> dstr) option" where
  "merge_regs 0 reg_no changed dest src = Some (changed, dest)"
| "merge_regs (Suc n) reg_no changed dest src = do {
     reg1 \<leftarrow> get_reg dest reg_no;
     reg2 \<leftarrow> get_reg src reg_no;
     dest \<leftarrow> set_reg dest reg_no (ucast (max reg1 reg2));
     merge_regs n (reg_no + 1) (changed \<or> reg1 < reg2) dest src
   }"

definition hll_merge :: "dstr \<Rightarrow> dstr \<Rightarrow> dstr option" where
  "hll_merge dest src = do {
     (changed, dest) \<leftarrow> merge_regs REGISTER_CNT 0 False dest src;
     if changed then invalidate_cache dest else Some dest
   }"

declare cnt_zero_sparse.simps [simp del] densify_loop.simps [simp del] find_flag.simps [simp del] sum_sparse.simps [simp del]


section \<open>Registers\<close>

text \<open>A dense sketch holds every byte up to its terminator.\<close>

definition dense :: "dstr \<Rightarrow> bool" where
  "dense hll \<longleftrightarrow> length (dbuf hll) = HLL_HEADER_SIZE_BYTES + HLL_DENSE_SIZE_BYTES + 1 \<and> None \<notin> set (dbuf hll)"

text \<open>The bits after the header, and bit \<open>j\<close> of register \<open>r\<close>.\<close>

definition hbit :: "dstr \<Rightarrow> nat \<Rightarrow> bool" where
  "hbit hll k = bit (the (byte_at hll (HLL_HEADER_SIZE_BYTES + k div 8))) (k mod 8)"

definition reg_bit :: "dstr \<Rightarrow> nat \<Rightarrow> nat \<Rightarrow> bool" where
  "reg_bit hll r j = hbit hll (6 * r + j)"

lemma reg_byte_nat:
  assumes "r < REGISTER_CNT" and "q = 6 * r"
  shows "reg_byte (of_nat r) = 16 + q div 8" "reg_fb (of_nat r) = q mod 8"
proof -
  have r: "q < 2 ^ 32" "q div 8 + 16 < 2 ^ 32" using assms by (simp_all add: hll_consts)
  have q: "(6 * of_nat r :: u32) = of_nat q" by (simp add: assms(2))
  have u: "unat (of_nat q :: u32) = q" using r(1) by (simp add: unat_of_nat)
  have "unat (of_nat q div 8 :: u32) = q div 8" by (simp add: unat_div u)
  then show "reg_byte (of_nat r) = 16 + q div 8" unfolding reg_byte_def q using r(2)
    by (simp add: unat_word_ariths(1) hll_consts)
  show "reg_fb (of_nat r) = q mod 8" by (simp add: reg_fb_def unat_mod q u)
qed

lemma dense_byte: "dense hll \<Longrightarrow> i < 12305 \<Longrightarrow> \<exists>b. byte_at hll i = Some b"
proof -
  assume *: "dense hll" "i < 12305"
  then have "dbuf hll ! i \<in> set (dbuf hll)" by (intro nth_mem) (simp add: dense_def hll_consts)
  with * have "dbuf hll ! i \<noteq> None" unfolding dense_def by metis
  then show ?thesis using * by (simp add: byte_at_def dense_def hll_consts)
qed

lemma put_byte_dense:
  assumes "dense hll" and "i < 12305"
  shows "\<exists>hll'. put_byte hll i b = Some hll' \<and> dense hll' \<and> (\<forall>j. byte_at hll' j = (if j = i then Some b else byte_at hll j))
      \<and> dsize hll' = dsize hll \<and> dfree hll' = dfree hll"
proof -
  have l: "length (dbuf hll) = 12305" using assms by (simp add: dense_def hll_consts)
  have "None \<notin> set ((dbuf hll)[i := Some b])"
    using assms(1) set_update_subset_insert [of "dbuf hll" i "Some b"] unfolding dense_def by blast
  then show ?thesis using l assms(2) by (simp add: put_byte_def byte_at_def dense_def hll_consts nth_list_update)
qed

lemma bit_63: "bit (63 :: int) n \<longleftrightarrow> n < 6"
proof -
  have "(63 :: int) = mask 6" by (simp add: mask_eq_exp_minus_1)
  then show ?thesis by (simp only: bit_mask_iff) auto
qed

lemma bit_255: "bit (255 :: int) n \<longleftrightarrow> n < 8"
proof -
  have "(255 :: int) = mask 8" by (simp add: mask_eq_exp_minus_1)
  then show ?thesis by (simp only: bit_mask_iff) auto
qed

lemma bit_lt_64: "v < (64 :: u32) \<Longrightarrow> bit v n \<Longrightarrow> n < 6"
proof -
  assume "v < 64" "bit v n"
  then have "take_bit 6 v = v" by (subst less_mask_eq [symmetric]) (simp_all add: take_bit_eq_mask and.commute)
  then show ?thesis using \<open>bit v n\<close> by (metis bit_take_bit_iff)
qed

lemma bit_scast: "n < 8 \<Longrightarrow> bit (scast (x :: u8) :: u32) n = bit x n"
  by (cases "n = 7") (simp_all add: bit_signed_iff min_def)

lemma set_reg_low:
  assumes "f < 8" and "v < (64 :: u32)" and "n < 8"
  shows "bit (ucast (((scast (x :: u8) AND NOT (push_bit f 63)) OR push_bit f v) AND 255 :: u32) :: u8) n
     = (if f \<le> n \<and> n < f + 6 then bit v (n - f) else bit x n)"
  using assms bit_lt_64 [OF assms(2), of "n - f"] by (auto simp: bit_ucast_iff bit_and_iff bit_or_iff bit_not_iff bit_push_bit_iff bit_63 bit_255 bit_scast)

lemma set_reg_high:
  assumes "f < 8" and "v < (64 :: u32)" and "n < 8"
  shows "bit (ucast (((scast (y :: u8) AND NOT (drop_bit (8 - f) 63)) OR drop_bit (8 - f) v) AND 255 :: u32) :: u8) n
     = (if n + 8 < f + 6 then bit v (n + 8 - f) else bit y n)"
  using assms bit_lt_64 [OF assms(2), of "8 - f + n"] by (auto simp: bit_ucast_iff bit_and_iff bit_or_iff bit_not_iff bit_drop_bit_eq bit_63 bit_255 bit_scast add.commute)

lemma set_reg_spec:
  assumes d: "dense hll" and r: "r < REGISTER_CNT" and v: "v < 64"
  shows "\<exists>hll'. set_reg hll (of_nat r) v = Some hll' \<and> dense hll'
     \<and> (\<forall>k. hbit hll' k = (if 6 * r \<le> k \<and> k < 6 * r + 6 then bit v (k - 6 * r) else hbit hll k))"
proof -
  define q where "q = 6 * r"
  define b where "b = q div 8"
  define f where "f = q mod 8"
  have f: "f < 8" "q = 8 * b + f" by (simp_all add: f_def b_def)
  have b: "b + 17 < 12305" using r by (simp add: b_def q_def hll_consts)
  obtain x y where x: "byte_at hll (16 + b) = Some x" "byte_at hll (16 + b + 1) = Some y" 
    using dense_byte [OF d, of "16 + b"] dense_byte [OF d, of "16 + b + 1"] b by auto
  let ?x = "ucast (((scast x AND NOT (push_bit f 63)) OR push_bit f v) AND 255 :: u32) :: u8"
  let ?y = "ucast (((scast y AND NOT (drop_bit (8 - f) 63)) OR drop_bit (8 - f) v) AND 255 :: u32) :: u8"
  obtain h1 where h1: "put_byte hll (16 + b) ?x = Some h1" "dense h1" "\<forall>j. byte_at h1 j = (if j = 16 + b then Some ?x else byte_at hll j)"
    using put_byte_dense [OF d, of "16 + b"] b by auto
  obtain h2 where h2: "put_byte h1 (16 + b + 1) ?y = Some h2" "dense h2"
    "\<forall>j. byte_at h2 j = (if j = 16 + b + 1 then Some ?y else byte_at h1 j)"
    using put_byte_dense [OF h1(2), of "16 + b + 1"] b by auto
  have "set_reg hll (of_nat r) v = Some h2"
    unfolding set_reg_def reg_byte_nat [OF r q_def] Let_def b_def [symmetric] f_def [symmetric] using x h1(1) h2(1) by simp
  moreover have "hbit h2 k = (if q \<le> k \<and> k < q + 6 then bit v (k - q) else hbit hll k)" for k
  proof -
    have k: "k = 8 * (k div 8) + k mod 8" "k mod 8 < 8" by simp_all
    consider "k div 8 = b" | "k div 8 = b + 1" | "k div 8 \<noteq> b" "k div 8 \<noteq> b + 1" by blast
    then show ?thesis
    proof cases
      case 1
      then have "q \<le> k \<and> k < q + 6 \<longleftrightarrow> f \<le> k mod 8 \<and> k mod 8 < f + 6" "k - q = k mod 8 - f" using k(1) f(2) by linarith+
      then show ?thesis using 1 h1(3) h2(3) x set_reg_low [OF f(1) v k(2), of x] by (simp add: hbit_def HLL_HEADER_SIZE_BYTES_def)
    next
      case 2
      then have "q \<le> k \<and> k < q + 6 \<longleftrightarrow> k mod 8 + 8 < f + 6" "k - q = k mod 8 + 8 - f" using k(1) f by linarith+
      then show ?thesis using 2 h1(3) h2(3) x set_reg_high [OF f(1) v k(2), of y] by (simp add: hbit_def HLL_HEADER_SIZE_BYTES_def)
    next
      case 3
      then have "\<not> (q \<le> k \<and> k < q + 6)" using k f by linarith
      then show ?thesis using 3 h1(3) h2(3) by (auto simp: hbit_def HLL_HEADER_SIZE_BYTES_def)
    qed
  qed
  ultimately show ?thesis using h2(2) q_def by blast
qed

text \<open>What \<open>get_reg\<close> reads: eight bits instead of six, and where the first byte has its top bit
  set, ones instead of the bits of the second byte.\<close>

lemma get_reg_spec:
  assumes d: "dense hll" and r: "r < REGISTER_CNT"
  shows "\<exists>x. get_reg hll (of_nat r) = Some x \<and> (\<forall>j < 8. bit x j \<longleftrightarrow>
     hbit hll (6 * r + j) \<or> (8 \<le> 6 * r mod 8 + j \<and> hbit hll (6 * r - 6 * r mod 8 + 7)))"
proof -
  define q where "q = 6 * r"
  define b where "b = q div 8"
  define f where "f = q mod 8"
  have f: "f < 8" "q = 8 * b + f" by (simp_all add: f_def b_def)
  have b: "b + 17 < 12305" using r by (simp add: b_def q_def hll_consts)
  obtain x y where x: "byte_at hll (16 + b) = Some x" "byte_at hll (16 + b + 1) = Some y"
    using dense_byte [OF d, of "16 + b"] dense_byte [OF d, of "16 + b + 1"] b by auto
  let ?g = "ucast ((drop_bit f (scast x) OR push_bit (8 - f) (scast y)) AND 255 :: u32) :: u8"
  have "get_reg hll (of_nat r) = Some ?g"
    unfolding get_reg_def reg_byte_nat [OF r q_def] Let_def b_def [symmetric] f_def [symmetric] using x by simp
  moreover have "bit ?g j \<longleftrightarrow> hbit hll (q + j) \<or> (8 \<le> f + j \<and> hbit hll (q - f + 7))" if j: "j < 8" for j
  proof -
    have top: "hbit hll (q - f + 7) = bit x 7" using x f by (simp add: hbit_def HLL_HEADER_SIZE_BYTES_def)
    show ?thesis
    proof (cases "f + j < 8")
      case True
      then have "(q + j) div 8 = b" "(q + j) mod 8 = f + j" using f by (simp_all add: add.assoc)
      then have "hbit hll (q + j) = bit x (f + j)" using x by (simp add: hbit_def HLL_HEADER_SIZE_BYTES_def)
      then show ?thesis using True j f(1)
        by (auto simp: bit_ucast_iff bit_and_iff bit_or_iff bit_drop_bit_eq bit_push_bit_iff bit_255 bit_scast add.commute)
    next
      case False
      then have "(q + j) div 8 = b + 1" "(q + j) mod 8 = f + j - 8" using f j by (simp_all add: div_nat_eqI mod_nat_eqI)
      then have h: "hbit hll (q + j) = bit y (f + j - 8)" using x by (simp add: hbit_def HLL_HEADER_SIZE_BYTES_def)
      have "bit (scast x :: u32) (f + j) = bit x 7" using False f j by (simp add: bit_signed_iff min_def)
      then show ?thesis using False j f(1) h top
        by (auto simp: bit_ucast_iff bit_and_iff bit_or_iff bit_drop_bit_eq bit_push_bit_iff bit_255 bit_scast add.commute)
    qed
  qed
  ultimately show ?thesis using q_def f_def by auto
qed

definition header :: "u8 \<Rightarrow> bytes" where
  "header en = [72, 89, 76, 76, en, 0, 0, 0, 0, 0, 0, 0, 0, 0, 0, 128]"

lemma blank_ok:
  assumes "16 + m \<le> MAX_STR_SIZE"
  shows "blank (16 + m) en = Some \<lparr>dsize = 0, dfree = 16 + m, dbuf = map Some (header en @ replicate m 0) @ [None]\<rparr>"
proof -
  let ?b = "(replicate (16 + m + 1) None)[0 := Some 0] :: cbuf"
  have d: "drop (16 + m) ?b = [None]" by (simp add: drop_update_swap)
  have r: "replicate (16 + m) (0 :: u8) = replicate 16 0 @ replicate m 0" by (simp add: replicate_add)
  have "mem_write ?b 0 (replicate (16 + m) 0) = Some (map Some (replicate 16 0 @ replicate m 0) @ [None])"
    unfolding mem_write_def using d by (simp add: replicate_add)
  then show ?thesis using assms
    by (simp add: blank_def dstr_init_def mem_write_def HYLL_def put_byte_def invalidate_cache_def byte_at_def header_def
        replicate_numeral numeral_eq_Suc)
qed

lemma dense_init_ok:
  "\<exists>hll. dense_init = Some hll \<and> dense hll \<and> (\<forall>k. \<not> hbit hll k \<or> 98312 \<le> k)"
proof -
  let ?z = "map Some (header 0 @ replicate 12288 0) @ [None]"
  let ?h = "\<lparr>dsize = 12304, dfree = 0, dbuf = map Some (header 0 @ replicate 12288 0 @ [0])\<rparr>"
  have l: "length (header 0) = 16" by (simp add: header_def)
  have "blank 12304 0 = Some \<lparr>dsize = 0, dfree = 12304, dbuf = ?z\<rparr>"
    using blank_ok [of 12288 0] by (simp add: MAX_STR_SIZE_def)
  then have "dense_init = put_byte \<lparr>dsize = 12304, dfree = 0, dbuf = ?z\<rparr> 12304 0" by (simp add: dense_init_def hll_consts)
  also have "\<dots> = Some ?h" using l by (simp add: put_byte_def list_update_append)
  finally have h: "dense_init = Some ?h" .
  have "byte_at ?h (16 + i) = Some 0" if "i < 12289" for i
  proof -
    have "dbuf ?h ! (16 + i) = map Some (replicate 12288 0 @ [0]) ! i" using l by (simp add: nth_append)
    also have "\<dots> = Some 0" using that by (auto simp: nth_append)
    finally show ?thesis using that l by (simp add: byte_at_def)
  qed
  then have "\<not> hbit ?h k \<or> 98312 \<le> k" for k by (cases "k div 8 < 12289") (auto simp: hbit_def HLL_HEADER_SIZE_BYTES_def)
  moreover have "dense ?h" using l by (auto simp: dense_def hll_consts)
  ultimately show ?thesis using h by blast
qed

section \<open>Properties of dense sketches\<close>

text \<open>C32: storing a register stays inside the sketch and changes the six bits of exactly that
  register; every other register keeps its value.\<close>

theorem set_reg_updates_register:
  assumes "dense hll" and "r < REGISTER_CNT" and "v < 64"
  shows "\<exists>hll'. set_reg hll (of_nat r) v = Some hll' \<and> dense hll'
     \<and> (\<forall>r' j. j < 6 \<longrightarrow> reg_bit hll' r' j = (if r' = r then bit v j else reg_bit hll r' j))"
proof -
  obtain h where h: "set_reg hll (of_nat r) v = Some h" "dense h"
    "\<And>k. hbit h k = (if 6 * r \<le> k \<and> k < 6 * r + 6 then bit v (k - 6 * r) else hbit hll k)"
    using set_reg_spec [OF assms] by blast
  have "reg_bit h r' j = (if r' = r then bit v j else reg_bit hll r' j)" if "j < 6" for r' j
  proof -
    have "6 * r \<le> 6 * r' + j \<and> 6 * r' + j < 6 * r + 6 \<longleftrightarrow> r' = r" using that by linarith
    then show ?thesis by (auto simp: reg_bit_def h(3))
  qed
  with h show ?thesis by blast
qed

theorem set_reg_updates_register_witness:
  "\<exists>h h'. dense_init = Some h \<and> set_reg h 3 5 = Some h' \<and> reg_bit h' 3 0 \<and> reg_bit h' 3 2 \<and> \<not> reg_bit h' 2 0"
proof -
  obtain h where h: "dense_init = Some h" "dense h" "\<And>k. \<not> hbit h k \<or> 98312 \<le> k" using dense_init_ok by blast
  from set_reg_updates_register [OF h(2), of 3 5] obtain h' where
    h': "set_reg h 3 5 = Some h'" "\<And>r' j. j < 6 \<Longrightarrow> reg_bit h' r' j = (if r' = 3 then bit (5 :: u32) j else reg_bit h r' j)"
    by (auto simp: hll_consts)
  have "\<not> reg_bit h 2 0" using h(3) [of 12] by (simp add: reg_bit_def)
  then have "reg_bit h' 3 0" "reg_bit h' 3 2" "\<not> reg_bit h' 2 0" using h'(2) [of 0 3] h'(2) [of 2 3] h'(2) [of 0 2] by simp_all
  with h h' show ?thesis by blast
qed

text \<open>Reading a register reads the low bits of its neighbour too: in an empty dense sketch,
  once register 1 holds the value 1, every later value for register 0 is dropped.\<close>

lemma add_dense_neighbour_drops:
  "\<exists>h h1. dense_init = Some h \<and> set_reg h 1 1 = Some h1 \<and> (\<forall>j < 6. \<not> reg_bit h1 0 j)
     \<and> (\<forall>val \<le> 51. add_dense h1 0 val = Some (False, h1))"
proof -
  obtain h where h: "dense_init = Some h" "dense h" "\<And>k. \<not> hbit h k \<or> 98312 \<le> k" using dense_init_ok by blast
  from set_reg_spec [OF h(2), of 1 1] obtain h1 where h1: "set_reg h 1 1 = Some h1" "dense h1"
    "\<And>k. hbit h1 k = (if 6 \<le> k \<and> k < 12 then bit (1 :: u32) (k - 6) else hbit h k)"
    by (auto simp: hll_consts)
  have b: "hbit h1 j \<longleftrightarrow> j = 6" if "j < 8" for j using h1(3) [of j] h(3) [of j] that by (auto simp: bit_1_iff)
  from get_reg_spec [OF h1(2), of 0] obtain x where x: "get_reg h1 0 = Some x" "\<forall>j < 8. bit x j \<longleftrightarrow> hbit h1 j"
    by (auto simp: hll_consts)
  have "x = push_bit 6 1"
  proof (rule bit_word_eqI)
    fix n assume "n < LENGTH(8)"
    then have n: "n < 8" by simp
    have "bit (push_bit 6 (1 :: u8)) n \<longleftrightarrow> n = 6" by (subst bit_push_bit_iff) (auto simp: bit_1_iff)
    then show "bit x n = bit (push_bit 6 (1 :: u8)) n" using x(2) b n by metis
  qed
  then have "x = 64" by simp
  have "add_dense h1 0 val = Some (False, h1)" if "val \<le> 51" for val
  proof -
    have "\<not> x < val" using that \<open>x = 64\<close> by (auto simp: word_less_nat_alt word_le_nat_alt)
    then show ?thesis using x(1) by (simp add: add_dense_def)
  qed
  moreover have "\<forall>j < 6. \<not> reg_bit h1 0 j" using b by (auto simp: reg_bit_def)
  ultimately show ?thesis using h(1) h1(1) by blast
qed

lemma add_dense_neighbour_drops_witness:
  "\<exists>h h1. dense_init = Some h \<and> set_reg h 1 1 = Some h1 \<and> add_dense h1 0 51 = Some (False, h1)"
  using add_dense_neighbour_drops by auto

section \<open>The cached count\<close>

lemma cache_roundtrip:
  assumes "set_cache hll v = Some hll'"
  shows "cache_valid hll' = Some True \<and> get_cache hll' = Some v"
proof -
  obtain buf where buf: "mem_write (dbuf hll) 8 (le64 v) = Some buf" "hll' = hll\<lparr>dbuf := buf\<rparr>" and v: "v < 2 ^ 63"
    using assms by (auto simp: set_cache_def bind_eq_Some_conv split: if_splits)
  have l: "length (le64 v) = 8" by (simp add: le64_def)
  then have b: "buf = take 8 (dbuf hll) @ map Some (le64 v) @ drop 16 (dbuf hll)" "16 \<le> length (dbuf hll)"
    using buf(1) by (auto simp: mem_write_def split: if_splits)
  have "byte_at hll' 15 = Some (le64 v ! 7)" using b l buf(2) by (simp add: byte_at_def nth_append)
  moreover have "\<not> bit (le64 v ! 7) 7"
  proof -
    have "\<not> bit v 63"
    proof
      assume "bit v 63"
      then have "2 ^ 63 \<le> unat v" by (metis bit_iff_odd_drop_bit drop_bit_eq_div even_zero div_less linorder_not_less unat_drop_bit_eq unat_eq_zero drop_bit_nat_def)
      then show False using v by (simp add: word_less_nat_alt)
    qed
    then show ?thesis by (simp add: le64_def le32_def bit_simps)
  qed
  ultimately have "cache_valid hll' = Some True" by (simp add: cache_valid_def)
  moreover have "mem_read (dbuf hll') 8 8 = Some (le64 v)" using b l buf(2) by (simp add: mem_read_def)
  ultimately show ?thesis using of_le64_le64 [of v "[]"] by (simp add: get_cache_def)
qed

text \<open>Counting leaves its result in the cache: whatever the floating point unit computes, once
  a count has returned, the next one returns the same number and changes nothing.\<close>

lemma hll_count_cached:
  assumes "hll_count F hll = Some (c, hll')"
  shows "hll_count G hll' = Some (c, hll')"
proof (cases "cache_valid hll = Some True")
  case True
  then show ?thesis using assms by (auto simp: hll_count_def bind_eq_Some_conv)
next
  case False
  then have "set_cache hll c = Some hll'"
    using assms by (auto simp: hll_count_def bind_eq_Some_conv Let_def split: if_splits)
  from cache_roundtrip [OF this] show ?thesis by (simp add: hll_count_def)
qed

text \<open>The registers a sequence of sparse flags stands for.\<close>

fun flags_regs :: "bytes \<Rightarrow> nat list" where
  "flags_regs [] = []"
| "flags_regs [f] = (if is_val f then replicate (unat (val_cnt f)) (unat (val_value f))
     else if is_zero f then replicate (unat (zero_cnt f)) 0 else [])"
| "flags_regs (f # g # fs) = (if is_val f then replicate (unat (val_cnt f)) (unat (val_value f)) @ flags_regs (g # fs)
     else if is_zero f then replicate (unat (zero_cnt f)) 0 @ flags_regs (g # fs)
     else replicate (unat (xzero_cnt f g)) 0 @ flags_regs fs)"

lemma flags_regs_val: "is_val f \<Longrightarrow> flags_regs (f # fs) = replicate (unat (val_cnt f)) (unat (val_value f)) @ flags_regs fs"
  by (cases fs) auto

lemma flags_regs_zero: "is_zero f \<Longrightarrow> flags_regs (f # fs) = replicate (unat (zero_cnt f)) 0 @ flags_regs fs"
  by (cases fs) (auto simp: is_val_def is_zero_def)

lemma bit_3: "bit (3 :: int) n \<longleftrightarrow> n < 2"
proof -
  have "(3 :: int) = mask 2" by (simp add: mask_eq_exp_minus_1)
  then show ?thesis by (simp only: bit_mask_iff) auto
qed

lemma bit_exp: "n < 32 \<Longrightarrow> bit (2 ^ k :: 'a :: len word) n \<longleftrightarrow> n = k \<and> n < LENGTH('a)"
  by (auto simp: bit_exp_iff)

lemma bit_less_exp:
  assumes "w < (2 :: 'a :: len word) ^ k" and "bit w n" and "k < LENGTH('a)"
  shows "n < k"
proof -
  have "take_bit k w = w" using assms(1,3) by (metis less_mask_eq take_bit_eq_mask and.commute)
  then show ?thesis using assms(2) by (metis bit_take_bit_iff)
qed

lemma val_flag_one:
  assumes "v < 32"
  shows "is_val (val_flag v 0)" "val_cnt (val_flag v 0) = 1" "val_value (val_flag v 0) = v + 1"
proof -
  have v: "bit v n \<Longrightarrow> n < 5" for n using bit_less_exp [of v 5 n] assms by simp
  let ?f = "push_bit 7 1 OR push_bit 2 v OR 0 :: u8"
  have b: "bit ?f n \<longleftrightarrow> n = 7 \<or> (2 \<le> n \<and> bit v (n - 2))" if "n < 8" for n
    using that v [of "n - 2"] by (subst bit_or_iff, subst bit_push_bit_iff)+ (auto simp: bit_1_iff bit_push_bit_iff)
  show "is_val (val_flag v 0)" unfolding is_val_def val_flag_def by (rule iffD2 [OF b]) simp_all
  have "(val_flag v 0 AND NOT (push_bit 7 1)) AND 3 = 0"
    unfolding val_flag_def
    by (rule bit_word_eqI) (use b in \<open>auto simp: bit_and_iff bit_3 bit_push_bit_iff\<close>)
  then show "val_cnt (val_flag v 0) = 1" by (simp add: val_cnt_def)
  have "drop_bit 2 (val_flag v 0 AND NOT (push_bit 7 1)) = v"
  proof (rule bit_word_eqI)
    fix n assume "n < LENGTH(8)"
    then have n: "n < 8" by simp
    have "bit (NOT (push_bit 7 (1 :: u8))) (n + 2) \<longleftrightarrow> n + 2 < 8 \<and> n + 2 \<noteq> 7" 
      by (subst bit_not_iff, subst bit_push_bit_iff) (auto simp: bit_1_iff)
    moreover have "bit (drop_bit 2 (val_flag v 0 AND NOT (push_bit 7 1))) n \<longleftrightarrow> bit ?f (n + 2) \<and> bit (NOT (push_bit 7 (1 :: u8))) (n + 2)"
      by (simp only: bit_drop_bit_eq bit_and_iff val_flag_def o_apply add.commute)
    ultimately show "bit (drop_bit 2 (val_flag v 0 AND NOT (push_bit 7 1))) n = bit v n"
      using b [of "n + 2"] v [of n] by auto
  qed
  then show "val_value (val_flag v 0) = v + 1" by (simp add: val_value_def)
qed

lemma bit_ucast_8: "bit (ucast (c :: u32) :: u8) n \<longleftrightarrow> n < 8 \<and> bit c n"
  by (auto simp: bit_ucast_iff)

lemma zero_flag_small:
  assumes "c < 64"
  shows "is_zero (ucast (c :: u32))" "unat (zero_cnt (ucast c)) = unat c + 1"
proof -
  have c: "bit c n \<Longrightarrow> n < 6" for n using bit_less_exp [of c 6 n] assms by simp
  show "is_zero (ucast c)" using c [of 7] c [of 6] by (auto simp: is_zero_def bit_ucast_8)
  have "unat c < 64" using assms by (simp add: word_less_nat_alt)
  then have "unat (ucast c :: u8) = unat c" by (simp add: unsigned_ucast_eq take_bit_nat_eq_self)
  then show "unat (zero_cnt (ucast c)) = unat c + 1" using \<open>unat c < 64\<close> by (simp add: zero_cnt_def unat_word_ariths)
qed

lemma xzero_flag:
  assumes "c < 16384"
  shows "\<not> is_val (ucast (push_bit 6 1 OR drop_bit 8 c :: u32))" "\<not> is_zero (ucast (push_bit 6 1 OR drop_bit 8 c :: u32))"
    "unat (xzero_cnt (ucast (push_bit 6 1 OR drop_bit 8 c)) (ucast (c AND 255))) = unat c + 1"
proof -
  have c: "bit c n \<Longrightarrow> n < 14" for n using bit_less_exp [of c 14 n] assms by simp
  let ?m = "ucast (push_bit 6 1 OR drop_bit 8 c :: u32) :: u8"
  have m: "bit ?m n \<longleftrightarrow> n < 8 \<and> (n = 6 \<or> bit c (8 + n))" for n
    by (simp only: bit_ucast_8 bit_or_iff bit_push_bit_iff bit_drop_bit_eq o_apply bit_1_iff) auto
  show "\<not> is_val ?m" unfolding is_val_def m using c [of 15] by auto
  show "\<not> is_zero ?m" unfolding is_zero_def m by simp
  have n6: "bit (NOT (push_bit 6 (1 :: u8))) n \<longleftrightarrow> n < 8 \<and> n \<noteq> 6" for n
    by (subst bit_not_iff, subst bit_push_bit_iff) (auto simp: bit_1_iff)
  have lo: "bit (ucast (c AND 255) :: u8) n \<longleftrightarrow> n < 8 \<and> bit c n" for n
    by (simp only: bit_ucast_8 bit_and_iff) (auto simp: bit_255)
  define hi where "hi = ?m"
  define lw where "lw = (ucast (c AND 255) :: u8)"
  note bits = m [folded hi_def] n6 lo [folded lw_def]
  have "push_bit 8 (ucast (hi AND NOT (push_bit 6 1))) OR ucast lw = c"
  proof (rule bit_word_eqI)
    fix n assume n: "n < LENGTH(32)"
    have "bit (push_bit 8 (ucast (hi AND NOT (push_bit 6 1))) OR ucast lw :: u32) n \<longleftrightarrow>
        8 \<le> n \<and> n < 16 \<and> n \<noteq> 14 \<and> bit c n \<or> n < 8 \<and> bit c n"
      using n by (simp only: bit_or_iff bit_push_bit_iff bit_ucast_iff bit_and_iff bits) auto
    then show "bit (push_bit 8 (ucast (hi AND NOT (push_bit 6 1))) OR ucast lw :: u32) n = bit c n"
      using c [of n] by auto
  qed
  then have "xzero_cnt ?m (ucast (c AND 255)) = c + 1" by (simp only: xzero_cnt_def hi_def lw_def)
  moreover have "unat c < 16384" using assms by (simp add: word_less_nat_alt)
  ultimately show "unat (xzero_cnt ?m (ucast (c AND 255))) = unat c + 1" by (simp add: unat_word_ariths)
qed

lemma zero_flags_regs:
  assumes "c < 16384" and "c \<noteq> 64"
  shows "flags_regs (zero_flags c @ fs) = replicate (unat c + 1) 0 @ flags_regs fs"
proof (cases "c > 64")
  case True
  then show ?thesis using xzero_flag [OF assms(1)] by (simp add: zero_flags_def del: push_bit_of_1)
next
  case False
  then have "c < 64" using assms(2) by simp
  from zero_flag_small [OF this] show ?thesis using False flags_regs_zero by (simp add: zero_flags_def)
qed


section \<open>Adding to an empty sketch\<close>

definition fresh :: dstr where
  "fresh = \<lparr>dsize = 18, dfree = 0, dbuf = map Some (header 1 @ [127, 255, 0])\<rparr>"

definition fresh' :: dstr where
  "fresh' = \<lparr>dsize = 18, dfree = 24, dbuf = map Some (header 1 @ [127, 255, 0]) @ replicate 8 None\<rparr>"

lemma hll_init_fresh: "hll_init = Some fresh"
proof -
  have "blank 18 1 = Some \<lparr>dsize = 0, dfree = 18, dbuf = map Some (header 1 @ [0, 0]) @ [None]\<rparr>"
    using blank_ok [of 2 1] by (simp add: MAX_STR_SIZE_def replicate_numeral)
  then show ?thesis by (simp add: hll_init_def hll_consts put_byte_def fresh_def header_def)
qed

lemma reserve_fresh: "reserve_sparse fresh = Some fresh'"
  by (simp add: reserve_sparse_def fresh_def fresh'_def dstr_reserve_def hll_consts szadd_def MAX_STR_SIZE_def sizeof_dstr_def
      mem_realloc_def header_def)

lemma find_fresh:
  assumes "r < 16384"
  shows "find_flag fresh' r 16 0 scan0 =
     Some \<lparr>sc_start = 0, sc_end = 16383, sc_prev = None, sc_curr = Some 16, sc_next = None, sc_ival = False, sc_izero = False, sc_ixzero = True\<rparr>"
proof -
  have b: "byte_at fresh' 16 = Some 127" "byte_at fresh' 17 = Some 255" "dsize fresh' = 18"
    by (simp_all add: byte_at_def fresh'_def header_def)
  have f: "\<not> is_val 127" "\<not> is_zero 127" "xzero_cnt 127 255 = 16384"
    by (simp_all add: is_val_def is_zero_def xzero_cnt_def)
  show ?thesis using assms by (subst find_flag.simps) (simp add: b f scan0_def)
qed

text \<open>Zero flags between which a value flag stands alone.\<close>

definition zshape :: "bytes \<Rightarrow> bool" where
  "zshape Z \<longleftrightarrow> Z = [] \<or> (\<exists>z. Z = [z] \<and> is_zero z) \<or> (\<exists>x y. Z = [x, y] \<and> \<not> is_val x \<and> \<not> is_zero x)"

lemma zero_flags_shape: "c < 16384 \<Longrightarrow> c \<noteq> 64 \<Longrightarrow> zshape (zero_flags c)"
  using zero_flag_small(1) [of c] xzero_flag(1,2) [of c] by (auto simp: zshape_def zero_flags_def simp del: push_bit_of_1)

lemma merge_vals_alone:
  assumes "\<forall>i < length (A @ v # B). byte_at hll (16 + i) = Some ((A @ v # B) ! i)" and "zshape A" and "zshape B" and "is_val v"
  shows "merge_vals 5 16 (16 + length (A @ v # B)) hll = Some hll"
proof -
  have nv: "\<not> is_val z" if "is_zero z" for z using that by (simp add: is_val_def is_zero_def)
  have vz: "\<not> is_zero v" using assms(4) by (simp add: is_val_def is_zero_def)
  show ?thesis using assms vz
    by (auto simp: zshape_def numeral_eq_Suc All_less_Suc nv)
qed

lemma fresh_add:
  assumes r: "r < 16384" and v: "v < 32" and A: "zshape A" and B: "zshape B"
    and tmp: "split_flags \<lparr>sc_start = 0, sc_end = 16383, sc_prev = None, sc_curr = Some 16, sc_next = None, sc_ival = False, sc_izero = False, sc_ixzero = True\<rparr>
        127 r v = A @ val_flag v 0 # B"
  shows "\<exists>h'. add_sparse fresh r (v + 1) = Some (True, h') \<and> drop 16 (dstr_bytes h') = A @ val_flag v 0 # B"
proof -
  let ?t = "A @ val_flag v 0 # B"
  have len: "length ?t \<le> 5" using A B by (auto simp: zshape_def)
  have v1: "\<not> v + 1 > 32" using v by unat_arith
  let ?h = "\<lparr>dsize = 16 + length ?t, dfree = nat ((24 - (int (length ?t) - 2)) mod 2 ^ 64),
      dbuf = map Some (header 1 @ ?t) @ drop (16 + length ?t) (dbuf fresh')\<rparr>"
  have hl: "length (header 1) = 16" "length (dbuf fresh') = 27" by (simp_all add: header_def fresh'_def)
  have t16: "take 16 (dbuf fresh') = map Some (header 1)" by (simp add: fresh'_def header_def)
  have "splice fresh' \<lparr>sc_start = 0, sc_end = 16383, sc_prev = None, sc_curr = Some 16, sc_next = None, sc_ival = False, sc_izero = False, sc_ixzero = True\<rparr>
      16 ?t = Some ?h"
    using len hl t16 by (simp add: splice_def mem_write_def) (simp add: fresh'_def)
  moreover have "merge_vals 5 16 (16 + length ?t) ?h = Some ?h"
  proof (rule merge_vals_alone [OF _ A B])
    show "is_val (val_flag v 0)" using val_flag_one(1) [OF v] .
    show "\<forall>i < length ?t. byte_at ?h (16 + i) = Some (?t ! i)" using hl len by (auto simp: byte_at_def nth_append nth_Cons')
  qed
  moreover have "invalidate_cache ?h = Some ?h"
    using hl len by (simp add: invalidate_cache_def byte_at_def put_byte_def header_def)
  moreover have "byte_at fresh' 16 = Some 127" by (simp add: byte_at_def fresh'_def header_def)
  ultimately have "add_sparse fresh r (v + 1) = Some (True, ?h)"
    using v1 reserve_fresh find_fresh [OF r] tmp by (simp add: add_sparse_def HLL_HEADER_SIZE_BYTES_def HLL_SPARSE_MAX_BYTES_def) (simp add: fresh_def)
  moreover have "drop 16 (dstr_bytes ?h) = ?t" using hl len by (simp add: dstr_bytes_def comp_def)
  ultimately show ?thesis by blast
qed

lemma replicate_upd: "i < n \<Longrightarrow> replicate i x @ y # replicate (n - Suc i) x = (replicate n x)[i := y]"
  by (simp add: upd_conv_take_nth_drop)

text \<open>C33: the first value added to an empty sketch is stored: for every register other than 65 and
  16318 and every value from 1 to 32, which the sparse encoding can hold, the new flags stand for
  16384 registers of which exactly the given one holds the value. The two excluded registers leave
  a run of 65 zeroes, which \<open>add_sparse\<close> encodes wrongly.\<close>

theorem add_sparse_first:
  assumes "r < REGISTER_CNT" and "r \<noteq> 65" and "r \<noteq> 16318" and "0 < val" and "val \<le> 32"
  shows "\<exists>h h'. hll_init = Some h \<and> add_sparse h (of_nat r) val = Some (True, h')
     \<and> flags_regs (drop HLL_HEADER_SIZE_BYTES (dstr_bytes h')) = (replicate REGISTER_CNT 0)[r := unat val]"
proof -
  let ?r = "of_nat r :: u32" and ?v = "val - 1"
  let ?A = "if ?r \<noteq> 0 then zero_flags (?r - 1) else []" and ?B = "if ?r \<noteq> 16383 then zero_flags (16382 - ?r) else []"
  have r: "r < 16384" and ur: "unat ?r = r" using assms(1) by (simp_all add: hll_consts unat_of_nat)
  have rz: "?r \<noteq> 0 \<longleftrightarrow> r \<noteq> 0" "?r \<noteq> 16383 \<longleftrightarrow> r \<noteq> 16383" using ur by (auto simp: word_unat_eq_iff)
  have v: "?v < 32" "?v + 1 = val" using assms(4,5) by unat_arith+
  have a: "?r - 1 < 16384 \<and> ?r - 1 \<noteq> 64 \<and> unat (?r - 1) + 1 = r" if "r \<noteq> 0" using that r ur assms(2) by unat_arith
  have b: "16382 - ?r < 16384 \<and> 16382 - ?r \<noteq> 64 \<and> unat (16382 - ?r) + 1 = 16383 - r" if "r \<noteq> 16383" using that r ur assms(3) by unat_arith
  have A: "zshape ?A" and B: "zshape ?B" using a b zero_flags_shape rz by (auto simp: zshape_def [of "[]"])
  have "?r < 16384" using r ur by (simp add: word_less_nat_alt)
  moreover have "split_flags \<lparr>sc_start = 0, sc_end = 16383, sc_prev = None, sc_curr = Some 16, sc_next = None, sc_ival = False, sc_izero = False,
      sc_ixzero = True\<rparr> 127 ?r ?v = ?A @ val_flag ?v 0 # ?B" by (simp add: split_flags_def cong: if_cong)
  ultimately obtain h' where
    h': "add_sparse fresh ?r val = Some (True, h')" "drop 16 (dstr_bytes h') = ?A @ val_flag ?v 0 # ?B"
    using fresh_add [OF _ v(1) A B, of ?r] unfolding v(2) by blast
  have regB: "flags_regs ?B = replicate (16383 - r) 0"
  proof (cases "r = 16383")
    case False
    then have "flags_regs (zero_flags (16382 - ?r) @ []) = replicate (unat (16382 - ?r) + 1) 0 @ flags_regs []"
      using b by (intro zero_flags_regs) blast+
    with b [OF False] False rz show ?thesis by (simp only: append_Nil2 flags_regs.simps if_True not_False_eq_True)
  qed (use rz in simp)
  have "flags_regs (?A @ fs) = replicate r 0 @ flags_regs fs" for fs
  proof (cases "r = 0")
    case False
    then have "flags_regs (zero_flags (?r - 1) @ fs) = replicate (unat (?r - 1) + 1) 0 @ flags_regs fs"
      using a by (intro zero_flags_regs) blast+
    with a [OF False] False rz show ?thesis by (simp only: if_True not_False_eq_True)
  qed simp
  then have "flags_regs (drop 16 (dstr_bytes h')) = replicate r 0 @ unat val # replicate (16384 - Suc r) 0"
    unfolding h'(2) using val_flag_one [OF v(1)] v(2) regB by (simp add: flags_regs_val)
  also have "\<dots> = (replicate 16384 0)[r := unat val]" using replicate_upd [OF r] .
  finally show ?thesis using h'(1) hll_init_fresh by (auto simp: hll_consts)
qed

theorem add_sparse_first_witness:
  "\<exists>h h'. hll_init = Some h \<and> add_sparse h 1000 5 = Some (True, h')
     \<and> flags_regs (drop HLL_HEADER_SIZE_BYTES (dstr_bytes h')) = (replicate REGISTER_CNT 0)[1000 := 5]"
  using add_sparse_first [of 1000 5] by (simp add: hll_consts)

text \<open>Register 65 of an empty sketch: the run of 65 zeroes in front of the value flag is written as
  the byte 64, which reads as the first byte of an XZERO flag and takes the value flag for its
  second: the value is lost, and the flags stand for 16463 registers.\<close>

lemma add_sparse_65_lost:
  "\<exists>h h'. hll_init = Some h \<and> add_sparse h 65 5 = Some (True, h')
     \<and> flags_regs (drop HLL_HEADER_SIZE_BYTES (dstr_bytes h')) = replicate 16463 0"
proof -
  let ?s = "\<lparr>sc_start = 0, sc_end = 16383, sc_prev = None, sc_curr = Some 16, sc_next = None, sc_ival = False, sc_izero = False, sc_ixzero = True\<rparr>"
  let ?h = "\<lparr>dsize = 20, dfree = 22, dbuf = map Some (header 1 @ [64, 144, 127, 189]) @ replicate 7 None\<rparr>"
  note flags = is_val_def is_zero_def val_cnt_def val_value_def val_flag_def xzero_cnt_def zero_flags_def zero_cnt_def
  have "split_flags ?s 127 65 4 = [64, 144, 127, 189]" by (simp add: split_flags_def flags)
  moreover have "splice fresh' ?s 16 [64, 144, 127, 189] = Some ?h"
    by (simp add: splice_def mem_write_def fresh'_def header_def)
  moreover have "merge_vals 5 16 20 ?h = Some ?h" by (simp add: numeral_eq_Suc byte_at_def header_def flags)
  ultimately have "add_sparse fresh 65 5 = Some (True, ?h)" using reserve_fresh find_fresh [of 65]
    by (simp add: add_sparse_def HLL_HEADER_SIZE_BYTES_def HLL_SPARSE_MAX_BYTES_def invalidate_cache_def byte_at_def put_byte_def fresh'_def header_def)
       (simp add: fresh_def)
  moreover have "flags_regs (drop 16 (dstr_bytes ?h)) = replicate 16463 0"
    by (simp add: dstr_bytes_def header_def flags replicate_add [symmetric])
  ultimately show ?thesis using hll_init_fresh by (auto simp: HLL_HEADER_SIZE_BYTES_def)
qed

text \<open>Two equal values in adjacent registers of an empty sketch are merged into a flag for
  three registers with a value that is too large: the flags then stand for 16385 registers.\<close>

lemma add_sparse_merge_wrong:
  "\<exists>h h1 h2. hll_init = Some h \<and> add_sparse h 0 5 = Some (True, h1) \<and> add_sparse h1 1 5 = Some (True, h2)
     \<and> flags_regs (drop HLL_HEADER_SIZE_BYTES (dstr_bytes h2)) = [6, 6, 6] @ replicate 16382 0"
proof -
  let ?s1 = "\<lparr>sc_start = 0, sc_end = 16383, sc_prev = None, sc_curr = Some 16, sc_next = None, sc_ival = False, sc_izero = False, sc_ixzero = True\<rparr>"
  let ?h1 = "\<lparr>dsize = 19, dfree = 23, dbuf = map Some (header 1 @ [144, 127, 254]) @ replicate 8 None\<rparr>"
  let ?k1 = "\<lparr>dsize = 19, dfree = 25, dbuf = map Some (header 1 @ [144, 127, 254]) @ replicate 10 None\<rparr>"
  let ?s2 = "\<lparr>sc_start = 1, sc_end = 16383, sc_prev = Some 16, sc_curr = Some 17, sc_next = None, sc_ival = False, sc_izero = False, sc_ixzero = True\<rparr>"
  let ?k2 = "\<lparr>dsize = 20, dfree = 24, dbuf = map Some (header 1 @ [144, 144, 127, 253]) @ replicate 9 None\<rparr>"
  let ?h2 = "\<lparr>dsize = 19, dfree = 25, dbuf = map Some (header 1 @ [150, 127, 253, 0]) @ replicate 9 None\<rparr>"
  note flags = is_val_def is_zero_def val_cnt_def val_value_def val_flag_def xzero_cnt_def zero_flags_def zero_cnt_def
  have "add_sparse fresh 0 5 = Some (True, ?h1)"
  proof -
    have "split_flags ?s1 127 0 4 = [144, 127, 254]" by (simp add: split_flags_def flags)
    moreover have "splice fresh' ?s1 16 [144, 127, 254] = Some ?h1"
      by (simp add: splice_def mem_write_def fresh'_def header_def)
    moreover have "merge_vals 5 16 19 ?h1 = Some ?h1" by (simp add: numeral_eq_Suc byte_at_def header_def flags)
    ultimately show ?thesis using reserve_fresh find_fresh [of 0]
      by (simp add: add_sparse_def HLL_HEADER_SIZE_BYTES_def HLL_SPARSE_MAX_BYTES_def invalidate_cache_def byte_at_def put_byte_def fresh'_def header_def)
       (simp add: fresh_def)
  qed
  moreover have "add_sparse ?h1 1 5 = Some (True, ?h2)"
  proof -
    have "reserve_sparse ?h1 = Some ?k1"
      by (simp add: reserve_sparse_def dstr_reserve_def hll_consts szadd_def MAX_STR_SIZE_def sizeof_dstr_def mem_realloc_def header_def replicate_numeral)
    moreover have "find_flag ?k1 1 16 0 scan0 = Some ?s2"
      by (subst find_flag.simps, simp add: byte_at_def header_def flags scan0_def)
        (subst find_flag.simps, simp add: byte_at_def header_def flags)
    moreover have "split_flags ?s2 127 1 4 = [144, 127, 253]" by (simp add: split_flags_def flags)
    moreover have "splice ?k1 ?s2 17 [144, 127, 253] = Some ?k2" by (simp add: splice_def mem_write_def header_def replicate_numeral)
    moreover have "merge_vals 5 16 20 ?k2 = Some ?h2"
    proof -
      have f: "is_val 144" "\<not> is_zero 144" "val_value 144 = 5" "val_cnt 144 = 1" "val_flag 5 2 = 150" "is_val 150" "\<not> is_zero 150"
        "\<not> is_val 127" "\<not> is_zero 127" "is_zero 0" by (simp_all add: flags)
      have five: "5 = Suc (Suc (Suc (Suc (Suc 0))))" by simp
      show ?thesis unfolding five by (simp add: byte_at_def header_def f put_byte_def mem_move_def replicate_numeral)
    qed
    ultimately show ?thesis
      by (simp add: add_sparse_def HLL_HEADER_SIZE_BYTES_def HLL_SPARSE_MAX_BYTES_def invalidate_cache_def byte_at_def put_byte_def header_def)
  qed
  moreover have "flags_regs (drop 16 (dstr_bytes ?h2)) = [6, 6, 6] @ replicate 16382 0"
  proof -
    have three: "replicate 3 (6 :: nat) = [6, 6, 6]" by (simp add: numeral_eq_Suc)
    show ?thesis by (simp add: dstr_bytes_def header_def flags three)
  qed
  ultimately show ?thesis using hll_init_fresh by (auto simp: HLL_HEADER_SIZE_BYTES_def)
qed

section \<open>Counting an empty sketch\<close>

text \<open>The real numbers as a floating point unit.\<close>

definition real_fpu :: "real fpu" where
  "real_fpu = \<lparr>f_zero = 0, f_half = 1 / 2, f_pref = 0.7213 / (1 + 1.079 / 16384) * 16384 * 16384, f_small = 2.5 * 16384,
     f_inv_pow2 = (\<lambda>n. 1 / 2 ^ n), f_of_nat = real, f_ratio = (\<lambda>a b. real a / real b), f_inv = inverse, f_add = (+), f_mul = (*),
     f_le = (\<le>), f_logl = ln, f_trunc = (\<lambda>x. of_int \<lfloor>x\<rfloor>)\<rparr>"

lemma hll_count_fresh: "hll_count real_fpu fresh = Some (0, fresh\<lparr>dbuf := map Some ([72, 89, 76, 76, 1, 0, 0, 0, 0, 0, 0, 0, 0, 0, 0, 0] @ [127, 255, 0])\<rparr>)"
proof -
  have b: "byte_at fresh 15 = Some 128" "byte_at fresh 4 = Some 1" "byte_at fresh 16 = Some 127" "byte_at fresh 17 = Some 255" "dsize fresh = 18"
    by (simp_all add: byte_at_def fresh_def header_def)
  have f: "\<not> is_val 127" "\<not> is_zero 127" "xzero_cnt 127 255 = 16384" by (simp_all add: is_val_def is_zero_def xzero_cnt_def)
  have "sum_sparse real_fpu fresh 16 0 = Some 16384"
    by (subst sum_sparse.simps, simp add: b f, subst sum_sparse.simps) (simp add: b real_fpu_def)
  then have e: "estimate_cnt real_fpu fresh = Some (0.7213 / (1 + 1.079 / 16384) * 16384)"
    by (simp add: estimate_cnt_def estimate_cnt_s_def get_enc_def b hll_consts) (simp add: real_fpu_def)
  have z: "cnt_zero_regs fresh = Some 16384"
    by (simp add: cnt_zero_regs_def get_enc_def b hll_consts, subst cnt_zero_sparse.simps, simp add: b f, subst cnt_zero_sparse.simps) (simp add: b)
  have c: "set_cache fresh 0 = Some (fresh\<lparr>dbuf := map Some ([72, 89, 76, 76, 1, 0, 0, 0, 0, 0, 0, 0, 0, 0, 0, 0] @ [127, 255, 0])\<rparr>)"
    by (simp add: set_cache_def mem_write_def le64_def le32_def fresh_def header_def)
  show ?thesis
    by (simp add: hll_count_def cache_valid_def b e z c) (simp add: real_fpu_def hll_consts c)
qed

lemma hll_count_cached_witness:
  "\<exists>h h'. hll_init = Some h \<and> hll_count real_fpu h = Some (0, h') \<and> hll_count real_fpu h' = Some (0, h')"
  using hll_init_fresh hll_count_fresh hll_count_cached [OF hll_count_fresh, of real_fpu] by blast

end
