(* ===== verification/Db.thy ===== *)
theory Db
  imports Zset Dlist Heap Wire Cstdlib Hll
begin

text \<open>
  The keyspace and the command handlers (\<open>src/src/redis_functions.cpp\<close>), with \<open>new_node\<close> of
  \<open>hashmap.cpp\<close> and the parts of \<open>GlobalData\<close> (\<open>server.h\<close>) they use.

  A database node holds its type and contents as an \<open>entry\<close>; a handler that reaches into a
  field of another type than the node has reads a pointer that was never initialised.  A
  handler that keeps the pointer \<open>hm_lookup\<close> returned and changes the node through it changes
  the node in its slot (\<open>hm_set_val\<close>).  The identity of a node matters for its \<open>heap_idx\<close>
  field, which the heap of expiry times points at: \<open>vaddr\<close>.  Allocation hands out addresses
  that are not in use, from a counter.
\<close>

section \<open>State\<close>

record llist =
  lhead :: ptr
  ltail :: ptr
  lsize :: u32
  lnodes :: "dstr dstore"

datatype entry =
    EStr dstr | EZSet ZSet | EHSet "dstr hmap" | EList llist | ESet "unit hmap" | EBitmap dstr | EHll dstr

record dbval =
  vaddr :: addr
  vent :: entry

record gdata =
  gdb :: "dbval hmap"
  gheap :: "HeapNode list"
  gidx :: idx_store
  gjobs :: "dbval hnode list"
  gnext :: addr

datatype ret = SUCCESS | NOT_FOUND | INCORRECT_TYPE | SIZE_ERR | OUT_OF_RANGE | INTERNAL_ERR

type_synonym outcome = "(ret \<times> gdata \<times> bytes) option"

definition empty_gdata :: gdata where
  "empty_gdata = \<lparr>gdb = empty_hmap, gheap = [], gidx = Map.empty, gjobs = [], gnext = 0\<rparr>"

definition empty_llist :: llist where
  "empty_llist = \<lparr>lhead = None, ltail = None, lsize = 0, lnodes = Map.empty\<rparr>"

text \<open>What \<open>ht_unlink\<close> does to the contents of a database node; a well-formed sorted set is
  always cleared normally.\<close>

definition ent_size :: "entry \<Rightarrow> nat" where
  "ent_size e = (case e of EZSet z \<Rightarrow> hm_size (zhmap z) | EHSet h \<Rightarrow> hm_size h | _ \<Rightarrow> 0)"

definition ent_clear :: "entry \<Rightarrow> entry" where
  "ent_clear e = (case e of
     EZSet z \<Rightarrow> (case zset_clear z of Some z \<Rightarrow> EZSet z | None \<Rightarrow> e)
   | EHSet h \<Rightarrow> EHSet (hm_clear h)
   | _ \<Rightarrow> e)"

definition db_ops :: "dbval vops" where
  "db_ops = \<lparr>vsize = (\<lambda>v. ent_size (vent v)), vclear = (\<lambda>v. v\<lparr>vent := ent_clear (vent v)\<rparr>)\<rparr>"

section \<open>Access\<close>

text \<open>\<open>cmd[i]\<close>\<close>

definition arg :: "dstr list \<Rightarrow> nat \<Rightarrow> dstr option" where
  "arg cmd i = (if i < length cmd then Some (cmd ! i) else None)"

text \<open>The text of an argument as the C library sees it.\<close>

definition text_of :: "dstr \<Rightarrow> bytes" where
  "text_of s = cstr (dstr_bytes s)"

definition msg :: "string \<Rightarrow> bytes" where
  "msg s = map of_char s"

definition set_slot :: "'v htab \<Rightarrow> nat \<times> nat \<Rightarrow> 'v \<Rightarrow> 'v htab" where
  "set_slot t s v = t\<lparr>tab := map_option (\<lambda>tb. tb[fst s := (tb ! fst s)[snd s := (tb ! fst s ! snd s)\<lparr>hval := v\<rparr>]]) (tab t)\<rparr>"

definition hm_set_val :: "'v hmap \<Rightarrow> probe \<Rightarrow> 'v \<Rightarrow> 'v hmap option" where
  "hm_set_val hm p v = do {
     s \<leftarrow> ht_lookup (older hm) p;
     case s of
       Some sl \<Rightarrow> Some (hm\<lparr>older := set_slot (older hm) sl v\<rparr>)
     | None \<Rightarrow> do {
         s \<leftarrow> ht_lookup (newer hm) p;
         case s of Some sl \<Rightarrow> Some (hm\<lparr>newer := set_slot (newer hm) sl v\<rparr>) | None \<Rightarrow> None
       }
   }"

text \<open>The lookup every handler starts with.\<close>

definition db_find :: "gdata \<Rightarrow> dstr \<Rightarrow> (probe \<times> dbval hnode option) option" where
  "db_find g key = do {
     p \<leftarrow> mk_probe key;
     n \<leftarrow> hm_lookup (gdb g) p;
     Some (p, n)
   }"

definition db_put :: "gdata \<Rightarrow> probe \<Rightarrow> dbval \<Rightarrow> entry \<Rightarrow> gdata option" where
  "db_put g p v e = do {
     hm \<leftarrow> hm_set_val (gdb g) p (v\<lparr>vent := e\<rparr>);
     Some (g\<lparr>gdb := hm\<rparr>)
   }"

text \<open>\<open>new_node\<close> leaves \<open>heap_idx\<close> uninitialised.\<close>

definition new_node :: "gdata \<Rightarrow> dstr \<Rightarrow> entry \<Rightarrow> (dbval hnode \<times> gdata) option" where
  "new_node g key e = do {
     k \<leftarrow> dstr_copy always (dstr_bytes key) (dsize key);
     let a = gnext g;
     Some (\<lparr>hcode = str_hash (dstr_bytes key), hkey = k, hval = \<lparr>vaddr = a, vent = e\<rparr>\<rparr>,
       g\<lparr>gidx := (gidx g)(a \<mapsto> None), gnext := a + 1\<rparr>)
   }"

definition db_insert :: "gdata \<Rightarrow> dbval hnode \<Rightarrow> gdata option" where
  "db_insert g n = do {
     (hm, q) \<leftarrow> hm_insert db_ops (gdb g) n;
     Some (g\<lparr>gdb := hm, gjobs := gjobs g @ q\<rparr>)
   }"

text \<open>The node under a key, created where it is missing: the value it holds after both.\<close>

definition db_get_or_new :: "gdata \<Rightarrow> dstr \<Rightarrow> entry \<Rightarrow> (gdata \<times> probe \<times> dbval) option" where
  "db_get_or_new g key e = do {
     (p, n) \<leftarrow> db_find g key;
     (case n of
        Some n \<Rightarrow> Some (g, p, hval n)
      | None \<Rightarrow> do {
          (n, g) \<leftarrow> new_node g key e;
          g \<leftarrow> db_insert g n;
          n \<leftarrow> hm_lookup (gdb g) p;
          n \<leftarrow> n;
          Some (g, p, hval n)
        })
   }"

text \<open>\<open>hm_delete (&db, key, true)\<close>: the node is freed.\<close>

definition db_delete :: "gdata \<Rightarrow> probe \<Rightarrow> (bool \<times> gdata) option" where
  "db_delete g p = do {
     (hm, n, q) \<leftarrow> hm_delete db_ops (gdb g) p;
     Some (n \<noteq> None, g\<lparr>gdb := hm, gjobs := gjobs g @ q,
       gidx := (case n of Some n \<Rightarrow> (gidx g)(vaddr (hval n) := None) | None \<Rightarrow> gidx g)\<rparr>)
   }"

definition out_dstrs :: "bytes \<Rightarrow> dstr list \<Rightarrow> bytes option" where
  "out_dstrs out ks = foldl (\<lambda>o' k. Option.bind o' (\<lambda>o'. out_dstr o' k)) (Some out) ks"

definition fail :: "gdata \<Rightarrow> bytes \<Rightarrow> ret \<Rightarrow> string \<Rightarrow> outcome" where
  "fail g out r m = do { out \<leftarrow> out_err out (msg m); Some (r, g, out) }"

section \<open>Keyspace commands\<close>

definition do_get :: "gdata \<Rightarrow> bytes \<Rightarrow> dstr list \<Rightarrow> outcome" where
  "do_get g out cmd = do {
     key \<leftarrow> arg cmd 1;
     (_, n) \<leftarrow> db_find g key;
     (case n of
        None \<Rightarrow> do { out \<leftarrow> out_not_found out; Some (NOT_FOUND, g, out) }
      | Some n \<Rightarrow> (case vent (hval n) of
          EStr v \<Rightarrow> do { out \<leftarrow> out_dstr out v; Some (SUCCESS, g, out) }
        | _ \<Rightarrow> None))
   }"

definition do_set :: "gdata \<Rightarrow> bytes \<Rightarrow> dstr list \<Rightarrow> outcome" where
  "do_set g out cmd = do {
     key \<leftarrow> arg cmd 1;
     val \<leftarrow> arg cmd 2;
     (p, n) \<leftarrow> db_find g key;
     g \<leftarrow> (case n of
        Some n \<Rightarrow> (case vent (hval n) of
          EStr v \<Rightarrow> do { (_, v) \<leftarrow> dstr_assign always v (dstr_bytes val) (dsize val); db_put g p (hval n) (EStr v) }
        | _ \<Rightarrow> None)
      | None \<Rightarrow> do {
          v \<leftarrow> (case dstr_init always 0 of Inl _ \<Rightarrow> None | Inr v \<Rightarrow> Some v);
          (n, g) \<leftarrow> new_node g key (EStr v);
          (_, v) \<leftarrow> dstr_append always v (dstr_bytes val) (dsize val);
          db_insert g (n\<lparr>hval := (hval n)\<lparr>vent := EStr v\<rparr>\<rparr>)
        });
     Some (SUCCESS, g, out_null out)
   }"

definition do_del :: "gdata \<Rightarrow> bytes \<Rightarrow> dstr list \<Rightarrow> outcome" where
  "do_del g out cmd = do {
     key \<leftarrow> arg cmd 1;
     k \<leftarrow> dstr_copy always (dstr_bytes key) (dsize key);
     (deleted, g) \<leftarrow> db_delete g \<lparr>pcode = str_hash (dstr_bytes k), pkey = Some k\<rparr>;
     if \<not> deleted then fail g out NOT_FOUND ''node does not exist''
     else Some (SUCCESS, g, out_null out)
   }"

definition do_keys :: "gdata \<Rightarrow> bytes \<Rightarrow> outcome" where
  "do_keys g out = do {
     ks \<leftarrow> hm_keys (gdb g);
     out \<leftarrow> out_dstrs (out_arr out (of_nat (length ks))) ks;
     Some (SUCCESS, g, out)
   }"

section \<open>Sorted set commands\<close>

text \<open>The static empty set where there is no node, NULL where the node is of another type.\<close>

definition find_zset :: "gdata \<Rightarrow> dstr \<Rightarrow> (probe \<times> dbval hnode option \<times> ZSet option) option" where
  "find_zset g key = do {
     (p, n) \<leftarrow> db_find g key;
     Some (p, n, case n of None \<Rightarrow> Some new_zset | Some n \<Rightarrow> (case vent (hval n) of EZSet z \<Rightarrow> Some z | _ \<Rightarrow> None))
   }"

definition do_zadd :: "gdata \<Rightarrow> bytes \<Rightarrow> dstr list \<Rightarrow> outcome" where
  "do_zadd g out cmd = do {
     key \<leftarrow> arg cmd 1;
     sc \<leftarrow> arg cmd 2;
     member \<leftarrow> arg cmd 3;
     let score = strtod (text_of sc);
     (g, p, v) \<leftarrow> db_get_or_new g key (EZSet new_zset);
     (case vent v of
        EZSet z \<Rightarrow> do {
          (ins, z) \<leftarrow> zset_insert z (gnext g) score member;
          g \<leftarrow> db_put (g\<lparr>gnext := gnext g + 1\<rparr>) p v (EZSet z);
          Some (SUCCESS, g, out_int out (if ins then 1 else 0))
        }
      | _ \<Rightarrow> fail g out INCORRECT_TYPE ''cant add zset to a non-zset node'')
   }"

definition do_zscore :: "gdata \<Rightarrow> bytes \<Rightarrow> dstr list \<Rightarrow> outcome" where
  "do_zscore g out cmd = do {
     key \<leftarrow> arg cmd 1;
     member \<leftarrow> arg cmd 2;
     (_, _, z) \<leftarrow> find_zset g key;
     z \<leftarrow> z;
     r \<leftarrow> zset_lookup z member;
     (case r of
        None \<Rightarrow> Some (SUCCESS, g, out_null out)
      | Some a \<Rightarrow> do { zn \<leftarrow> znodes z a; Some (SUCCESS, g, out_double out (zscore zn)) })
   }"

definition do_zrem :: "gdata \<Rightarrow> bytes \<Rightarrow> dstr list \<Rightarrow> outcome" where
  "do_zrem g out cmd = do {
     key \<leftarrow> arg cmd 1;
     member \<leftarrow> arg cmd 2;
     (p, n, z) \<leftarrow> find_zset g key;
     z \<leftarrow> z;
     r \<leftarrow> zset_lookup z member;
     (case r of
        None \<Rightarrow> Some (SUCCESS, g, out_int out 0)
      | Some a \<Rightarrow> do {
          z \<leftarrow> zset_delete z a;
          n \<leftarrow> n;
          g \<leftarrow> db_put g p (hval n) (EZSet z);
          Some (SUCCESS, g, out_int out 1)
        })
   }"

text \<open>The loop of \<open>do_zrangequery\<close>: \<open>size\<close> is a \<open>uint32_t\<close> that counts two per member.\<close>

partial_function (option) zquery_loop :: "ZSet \<Rightarrow> ptr \<Rightarrow> u32 \<Rightarrow> u32 \<Rightarrow> bytes \<Rightarrow> (u32 \<times> bytes) option" where
  "zquery_loop z node sz limit out = (case node of
     None \<Rightarrow> Some (sz, out)
   | Some a \<Rightarrow> if sz < limit then do {
         zn \<leftarrow> znodes z a;
         out \<leftarrow> out_dstr (out_double out (zscore zn)) (zkey zn);
         nx \<leftarrow> zset_offset z a 1;
         zquery_loop z nx (sz + 2) limit out
       } else Some (sz, out))"

definition do_zrangequery :: "gdata \<Rightarrow> bytes \<Rightarrow> dstr list \<Rightarrow> outcome" where
  "do_zrangequery g out cmd = do {
     key \<leftarrow> arg cmd 1;
     sc \<leftarrow> arg cmd 2;
     key_lb \<leftarrow> arg cmd 3;
     let offset = (case arg cmd 4 of Some s \<Rightarrow> wrap32 (strtol (text_of s)) | None \<Rightarrow> 0);
     let limit = (case arg cmd 5 of Some s \<Rightarrow> of_int (strtol (text_of s)) | None \<Rightarrow> - 1);
     (_, _, z) \<leftarrow> find_zset g key;
     z \<leftarrow> z;
     lb \<leftarrow> zset_lower_bound z (strtod (text_of sc)) key_lb;
     (case lb of
        None \<Rightarrow> Some (SUCCESS, g, out_arr out 0)
      | Some a \<Rightarrow> do {
          node \<leftarrow> zset_offset z a offset;
          let (size_pos, out) = out_unknown_arr out;
          (sz, out) \<leftarrow> zquery_loop z node 0 limit out;
          out \<leftarrow> put_u32 out size_pos sz;
          Some (SUCCESS, g, out)
        })
   }"

section \<open>Expiry commands\<close>

definition do_expire :: "u64 \<Rightarrow> gdata \<Rightarrow> bytes \<Rightarrow> dstr list \<Rightarrow> outcome" where
  "do_expire now g out cmd = do {
     key \<leftarrow> arg cmd 1;
     t \<leftarrow> arg cmd 2;
     let ttl_ms = of_int (strtol (text_of t)) * 1000;
     (_, n) \<leftarrow> db_find g key;
     (case n of
        None \<Rightarrow> Some (SUCCESS, g, out_null out)
      | Some n \<Rightarrow> do {
          (hp, ix) \<leftarrow> set_ttl now (gheap g, gidx g) (vaddr (hval n)) ttl_ms;
          Some (SUCCESS, g\<lparr>gheap := hp, gidx := ix\<rparr>, out_null out)
        })
   }"

text \<open>The clock argument is a \<open>uint32_t\<close>.\<close>

definition do_ttl :: "u64 \<Rightarrow> gdata \<Rightarrow> bytes \<Rightarrow> dstr list \<Rightarrow> outcome" where
  "do_ttl now g out cmd = do {
     key \<leftarrow> arg cmd 1;
     let curr_ms = (ucast now :: u32);
     (_, n) \<leftarrow> db_find g key;
     (case n of
        None \<Rightarrow> Some (SUCCESS, g, out_null out)
      | Some n \<Rightarrow> do {
          i \<leftarrow> gidx g (vaddr (hval n));
          i \<leftarrow> i;
          if i < length (gheap g)
          then Some (SUCCESS, g, out_int out (ucast ((hn_val (gheap g ! i) - ucast curr_ms) div 1000)))
          else None
        })
   }"

definition do_persist :: "gdata \<Rightarrow> bytes \<Rightarrow> dstr list \<Rightarrow> outcome" where
  "do_persist g out cmd = do {
     key \<leftarrow> arg cmd 1;
     (_, n) \<leftarrow> db_find g key;
     (case n of
        None \<Rightarrow> Some (SUCCESS, g, out_null out)
      | Some n \<Rightarrow> do {
          (hp, ix) \<leftarrow> rem_ttl (gheap g, gidx g) (vaddr (hval n));
          Some (SUCCESS, g\<lparr>gheap := hp, gidx := ix\<rparr>, out_null out)
        })
   }"

section \<open>Hash commands\<close>

text \<open>A node of a nested map: \<open>new_node (field, T_STR)\<close> with its value.\<close>

definition field_node :: "dstr \<Rightarrow> 'v \<Rightarrow> 'v hnode option" where
  "field_node field v = do {
     k \<leftarrow> dstr_copy always (dstr_bytes field) (dsize field);
     Some \<lparr>hcode = str_hash (dstr_bytes field), hkey = k, hval = v\<rparr>
   }"

text \<open>The field is copied into \<open>tmp.key\<close>, so the key of \<open>hm_tmp\<close>, with which the nested map is
  searched, is NULL.\<close>

definition do_hset :: "gdata \<Rightarrow> bytes \<Rightarrow> dstr list \<Rightarrow> outcome" where
  "do_hset g out cmd = do {
     key \<leftarrow> arg cmd 1;
     field \<leftarrow> arg cmd 2;
     value \<leftarrow> arg cmd 3;
     (g, p, v) \<leftarrow> db_get_or_new g key (EHSet empty_hmap);
     (case vent v of
        EHSet h \<Rightarrow> do {
          _ \<leftarrow> dstr_copy always (dstr_bytes field) (dsize field);
          let hm_tmp = \<lparr>pcode = str_hash (dstr_bytes field), pkey = None\<rparr>;
          n \<leftarrow> hm_lookup h hm_tmp;
          h \<leftarrow> (case n of
             Some _ \<Rightarrow> do {
               w \<leftarrow> dstr_copy always (dstr_bytes value) (dsize value);
               hm_set_val h hm_tmp w
             }
           | None \<Rightarrow> do {
               w \<leftarrow> dstr_copy always (dstr_bytes value) (dsize value);
               n \<leftarrow> field_node field w;
               (h, _) \<leftarrow> hm_insert plain_ops h n;
               Some h
             });
          g \<leftarrow> db_put g p v (EHSet h);
          Some (SUCCESS, g, out_null out)
        }
      | _ \<Rightarrow> fail g out INCORRECT_TYPE ''keyspace key is not of type hashmap'')
   }"

definition do_hget :: "gdata \<Rightarrow> bytes \<Rightarrow> dstr list \<Rightarrow> outcome" where
  "do_hget g out cmd = do {
     key \<leftarrow> arg cmd 1;
     field \<leftarrow> arg cmd 2;
     (_, n) \<leftarrow> db_find g key;
     (case n of
        None \<Rightarrow> Some (SUCCESS, g, out_null out)
      | Some n \<Rightarrow> (case vent (hval n) of
          EHSet h \<Rightarrow> do {
            p \<leftarrow> mk_probe field;
            m \<leftarrow> hm_lookup h p;
            (case m of
               Some m \<Rightarrow> do { out \<leftarrow> out_dstr out (hval m); Some (SUCCESS, g, out) }
             | None \<Rightarrow> Some (SUCCESS, g, out_null out))
          }
        | _ \<Rightarrow> fail g out INCORRECT_TYPE ''keyspace key is not of type hashmap''))
   }"

definition do_hdel :: "gdata \<Rightarrow> bytes \<Rightarrow> dstr list \<Rightarrow> outcome" where
  "do_hdel g out cmd = do {
     key \<leftarrow> arg cmd 1;
     field \<leftarrow> arg cmd 2;
     (p, n) \<leftarrow> db_find g key;
     (case n of
        None \<Rightarrow> Some (SUCCESS, g, out_null out)
      | Some n \<Rightarrow> (case vent (hval n) of
          EHSet h \<Rightarrow> do {
            q \<leftarrow> mk_probe field;
            (h, deleted, _) \<leftarrow> hm_delete plain_ops h q;
            if deleted = None then fail g out NOT_FOUND ''node does not exist''
            else do {
              g \<leftarrow> db_put g p (hval n) (EHSet h);
              g \<leftarrow> (if hm_size h = 0 then do {
                       (_, g) \<leftarrow> db_delete g \<lparr>pcode = hcode n, pkey = Some (hkey n)\<rparr>;
                       Some g
                     } else Some g);
              Some (SUCCESS, g, out_null out)
            }
          }
        | _ \<Rightarrow> fail g out SUCCESS ''keyspace key is not of type hashmap''))
   }"

definition do_hgetall :: "gdata \<Rightarrow> bytes \<Rightarrow> dstr list \<Rightarrow> outcome" where
  "do_hgetall g out cmd = do {
     key \<leftarrow> arg cmd 1;
     (_, n) \<leftarrow> db_find g key;
     (case n of
        None \<Rightarrow> Some (SUCCESS, g, out_null out)
      | Some n \<Rightarrow> (case vent (hval n) of
          EHSet h \<Rightarrow> do {
            ks \<leftarrow> hm_keys h;
            out \<leftarrow> out_dstrs (out_arr out (of_nat (length ks))) ks;
            Some (SUCCESS, g, out)
          }
        | _ \<Rightarrow> None))
   }"

section \<open>List commands\<close>

datatype side = LLIST_SIDE_LEFT | LLIST_SIDE_RIGHT

text \<open>\<open>wrong_list\<close> is the message shared by the list commands.\<close>

definition wrong_list :: string where
  "wrong_list = ''node with the provided key exists and is not of type LIST''"

definition list_push :: "llist \<Rightarrow> addr \<Rightarrow> dstr \<Rightarrow> side \<Rightarrow> llist option" where
  "list_push l a w side = do {
     let l = l\<lparr>lnodes := (lnodes l)(a \<mapsto> \<lparr>dprev = None, dnext = None, dval = w\<rparr>)\<rparr>;
     l \<leftarrow> (if lsize l = 0 then Some (l\<lparr>lhead := Some a, ltail := Some a\<rparr>)
           else if side = LLIST_SIDE_LEFT then do {
             h \<leftarrow> lhead l;
             s \<leftarrow> dlist_insert_before (lnodes l) h a;
             Some (l\<lparr>lnodes := s, lhead := Some a\<rparr>)
           }
           else do {
             e \<leftarrow> ltail l;
             s \<leftarrow> dlist_insert_after (lnodes l) e a;
             Some (l\<lparr>lnodes := s, ltail := Some a\<rparr>)
           });
     Some (l\<lparr>lsize := lsize l + 1\<rparr>)
   }"

definition do_push :: "gdata \<Rightarrow> bytes \<Rightarrow> dstr list \<Rightarrow> side \<Rightarrow> outcome" where
  "do_push g out cmd side = do {
     key \<leftarrow> arg cmd 1;
     value \<leftarrow> arg cmd 2;
     (g, p, v) \<leftarrow> db_get_or_new g key (EList empty_llist);
     (case vent v of
        EList l \<Rightarrow> do {
          w \<leftarrow> dstr_copy always (dstr_bytes value) (dsize value);
          l \<leftarrow> list_push l (gnext g) w side;
          g \<leftarrow> db_put (g\<lparr>gnext := gnext g + 1\<rparr>) p v (EList l);
          Some (SUCCESS, g, out_int out (lsize l))
        }
      | _ \<Rightarrow> fail g out INCORRECT_TYPE wrong_list)
   }"

text \<open>One round of the loop of \<open>do_pop\<close>; the popped node is freed.\<close>

definition list_pop :: "llist \<Rightarrow> side \<Rightarrow> (dstr \<times> llist) option" where
  "list_pop l side = do {
     a \<leftarrow> (if side = LLIST_SIDE_LEFT then lhead l else ltail l);
     n \<leftarrow> lnodes l a;
     l \<leftarrow> (if side = LLIST_SIDE_LEFT then do {
             s \<leftarrow> (case dnext n of Some x \<Rightarrow> set_prev (lnodes l) x None | None \<Rightarrow> Some (lnodes l));
             Some (l\<lparr>lnodes := s, lhead := dnext n\<rparr>)
           }
           else do {
             s \<leftarrow> (case dprev n of Some x \<Rightarrow> set_next (lnodes l) x None | None \<Rightarrow> Some (lnodes l));
             Some (l\<lparr>lnodes := s, ltail := dprev n\<rparr>)
           });
     Some (dval n, l\<lparr>lsize := lsize l - 1, lnodes := (lnodes l)(a := None)\<rparr>)
   }"

fun pop_loop :: "nat \<Rightarrow> side \<Rightarrow> llist \<Rightarrow> bytes \<Rightarrow> (llist \<times> bytes) option" where
  "pop_loop 0 side l out = Some (l, out)"
| "pop_loop (Suc k) side l out = do {
     (v, l) \<leftarrow> list_pop l side;
     out \<leftarrow> out_dstr out v;
     pop_loop k side l out
   }"

text \<open>\<open>dmin (size, list.size)\<close> compares an \<open>int32_t\<close> with a \<open>uint32_t\<close>, as unsigned numbers.\<close>

definition do_pop :: "gdata \<Rightarrow> bytes \<Rightarrow> dstr list \<Rightarrow> side \<Rightarrow> outcome" where
  "do_pop g out cmd side = do {
     key \<leftarrow> arg cmd 1;
     value \<leftarrow> arg cmd 2;
     (p, n) \<leftarrow> db_find g key;
     (case n of
        None \<Rightarrow> fail g out NOT_FOUND ''key does not exist in the database''
      | Some n \<Rightarrow> (case vent (hval n) of
          EList l \<Rightarrow> do {
            let sz = (if length cmd > 2 then of_int (strtol (text_of value)) else 1 :: u32);
            let sz = sint (if sz < lsize l then sz else lsize l);
            if sz \<le> 0 then fail g out SIZE_ERR ''value must be positive''
            else do {
              (l, out) \<leftarrow> pop_loop (nat sz) side l (out_arr out (of_int sz));
              g \<leftarrow> db_put g p (hval n) (EList l);
              Some (SUCCESS, g, out)
            }
          }
        | _ \<Rightarrow> fail g out INCORRECT_TYPE wrong_list))
   }"

fun step_prev :: "nat \<Rightarrow> dstr dstore \<Rightarrow> ptr \<Rightarrow> ptr option" where
  "step_prev 0 s p = Some p"
| "step_prev (Suc k) s p = do { a \<leftarrow> p; n \<leftarrow> s a; step_prev k s (dprev n) }"

fun step_next :: "nat \<Rightarrow> dstr dstore \<Rightarrow> ptr \<Rightarrow> ptr option" where
  "step_next 0 s p = Some p"
| "step_next (Suc k) s p = do { a \<leftarrow> p; n \<leftarrow> s a; step_next k s (dnext n) }"

fun range_loop :: "nat \<Rightarrow> dstr dstore \<Rightarrow> ptr \<Rightarrow> bytes \<Rightarrow> bytes option" where
  "range_loop 0 s p out = Some out"
| "range_loop (Suc k) s p out = do {
     a \<leftarrow> p;
     n \<leftarrow> s a;
     out \<leftarrow> out_dstr out (dval n);
     range_loop k s (dnext n) out
   }"

text \<open>Indices are \<open>int32_t\<close>, the size of the list a \<open>uint32_t\<close>: sums and comparisons with the
  size are unsigned.\<close>

definition do_lrange :: "gdata \<Rightarrow> bytes \<Rightarrow> dstr list \<Rightarrow> outcome" where
  "do_lrange g out cmd = do {
     key \<leftarrow> arg cmd 1;
     sa \<leftarrow> arg cmd 2;
     ea \<leftarrow> arg cmd 3;
     let start = wrap32 (strtol (text_of sa));
     let last = wrap32 (strtol (text_of ea));
     (_, n) \<leftarrow> db_find g key;
     (case n of
        None \<Rightarrow> fail g out NOT_FOUND ''key does not exist in the database''
      | Some n \<Rightarrow> (case vent (hval n) of
          EList l \<Rightarrow> do {
            let start = (if start < 0 then sint (lsize l + of_int start) else start);
            let last = (if last < 0 then sint (lsize l + of_int last) else last);
            if (of_int start :: u32) \<ge> lsize l then fail g out OUT_OF_RANGE ''index out of range''
            else do {
              let lw = (of_int start :: u32);
              let rw = lsize l - of_int start - 1;
              begin \<leftarrow> (if lw < rw then step_prev (unat rw) (lnodes l) (ltail l) else step_next (unat lw) (lnodes l) (lhead l));
              d \<leftarrow> chk32 (last - start);
              d \<leftarrow> chk32 (d + 1);
              let sz = min (of_int (max 0 d)) (lsize l);
              out \<leftarrow> range_loop (unat sz) (lnodes l) begin (out_arr out sz);
              Some (SUCCESS, g, out)
            }
          }
        | _ \<Rightarrow> fail g out INCORRECT_TYPE wrong_list))
   }"

section \<open>Set commands\<close>

definition do_sadd :: "gdata \<Rightarrow> bytes \<Rightarrow> dstr list \<Rightarrow> outcome" where
  "do_sadd g out cmd = do {
     key \<leftarrow> arg cmd 1;
     value \<leftarrow> arg cmd 2;
     (g, p, v) \<leftarrow> db_get_or_new g key (ESet empty_hmap);
     (case vent v of
        ESet h \<Rightarrow> do {
          n \<leftarrow> field_node value ();
          (h, _) \<leftarrow> hm_insert plain_ops h n;
          g \<leftarrow> db_put g p v (ESet h);
          Some (SUCCESS, g, out)
        }
      | _ \<Rightarrow> fail g out INCORRECT_TYPE ''key already exists in the database and is not of type SET'')
   }"

text \<open>The lookup and the two checks that \<open>SREM\<close>, \<open>SMEMBERS\<close> and \<open>SCARD\<close> share.\<close>

definition with_set :: "gdata \<Rightarrow> bytes \<Rightarrow> dstr \<Rightarrow> (probe \<Rightarrow> dbval \<Rightarrow> unit hmap \<Rightarrow> outcome) \<Rightarrow> outcome" where
  "with_set g out key k = do {
     (p, n) \<leftarrow> db_find g key;
     (case n of
        None \<Rightarrow> fail g out NOT_FOUND ''node with the provided key does not exist''
      | Some n \<Rightarrow> (case vent (hval n) of
          ESet h \<Rightarrow> k p (hval n) h
        | _ \<Rightarrow> fail g out INCORRECT_TYPE ''key is not of type SET''))
   }"

definition do_srem :: "gdata \<Rightarrow> bytes \<Rightarrow> dstr list \<Rightarrow> outcome" where
  "do_srem g out cmd = do {
     key \<leftarrow> arg cmd 1;
     value \<leftarrow> arg cmd 2;
     with_set g out key (\<lambda>p v h. do {
       q \<leftarrow> mk_probe value;
       (h, deleted, _) \<leftarrow> hm_delete plain_ops h q;
       g \<leftarrow> db_put g p v (ESet h);
       Some (SUCCESS, g, out_int out (if deleted = None then 0 else 1))
     })
   }"

definition do_smembers :: "gdata \<Rightarrow> bytes \<Rightarrow> dstr list \<Rightarrow> outcome" where
  "do_smembers g out cmd = do {
     key \<leftarrow> arg cmd 1;
     with_set g out key (\<lambda>p v h. do {
       ks \<leftarrow> hm_keys h;
       out \<leftarrow> out_dstrs (out_arr out (of_nat (length ks))) ks;
       Some (SUCCESS, g, out)
     })
   }"

definition do_scard :: "gdata \<Rightarrow> bytes \<Rightarrow> dstr list \<Rightarrow> outcome" where
  "do_scard g out cmd = do {
     key \<leftarrow> arg cmd 1;
     with_set g out key (\<lambda>p v h. Some (SUCCESS, g, out_int out (of_nat (hm_size h))))
   }"

section \<open>Bitmap commands\<close>

text \<open>\<open>buf[i]\<close> for a signed index: outside the allocation, or never written, is undefined.\<close>

definition buf_at :: "dstr \<Rightarrow> int \<Rightarrow> u8 option" where
  "buf_at s i = (if 0 \<le> i \<and> nat i < length (dbuf s) then dbuf s ! nat i else None)"

definition do_setbit :: "gdata \<Rightarrow> bytes \<Rightarrow> dstr list \<Rightarrow> outcome" where
  "do_setbit g out cmd = do {
     key \<leftarrow> arg cmd 1;
     pos \<leftarrow> arg cmd 2;
     value \<leftarrow> arg cmd 3;
     bm \<leftarrow> (case dstr_init always 0 of Inl _ \<Rightarrow> None | Inr s \<Rightarrow> Some s);
     (g, p, v) \<leftarrow> db_get_or_new g key (EBitmap bm);
     (case vent v of
        EBitmap bm \<Rightarrow> do {
          let idx = strtol (text_of pos);
          if idx < 0 \<or> idx > 2 ^ 32 - 1 then fail g out OUT_OF_RANGE ''index must be in range [0, 2^32-1]''
          else if text_of value \<noteq> [48] \<and> text_of value \<noteq> [49] then fail g out INCORRECT_TYPE ''bit has to be 0 or 1''
          else do {
            let byte_idx = nat (idx div 8);
            let bit_idx = nat (7 - idx mod 8);
            (err, bm) \<leftarrow> (if byte_idx \<ge> dsize bm then dstr_resize always bm (byte_idx + 1) 0 else Some (STR_OK, bm));
            if err \<noteq> STR_OK then fail g out INTERNAL_ERR ''bitmap resize failed''
            else do {
              byte \<leftarrow> buf_at bm (int byte_idx);
              let out = out_int out (ucast (drop_bit bit_idx byte AND 1));
              let byte = (if text_of value = [49] then byte OR push_bit bit_idx 1 else byte AND NOT (push_bit bit_idx 1));
              buf \<leftarrow> mem_write (dbuf bm) byte_idx [byte];
              g \<leftarrow> db_put g p v (EBitmap (bm\<lparr>dbuf := buf\<rparr>));
              Some (SUCCESS, g, out)
            }
          }
        }
      | _ \<Rightarrow> fail g out INCORRECT_TYPE ''key already exists in database but is not of type BITMAP'')
   }"

text \<open>\<open>validate_hmnode (conn, hm_node, T_BITMAP)\<close> and what follows it.\<close>

definition with_bitmap :: "gdata \<Rightarrow> bytes \<Rightarrow> dstr \<Rightarrow> (dstr \<Rightarrow> outcome) \<Rightarrow> outcome" where
  "with_bitmap g out key k = do {
     (_, n) \<leftarrow> db_find g key;
     (case n of
        None \<Rightarrow> fail g out NOT_FOUND ''key does not exist''
      | Some n \<Rightarrow> (case vent (hval n) of
          EBitmap bm \<Rightarrow> k bm
        | _ \<Rightarrow> fail g out INCORRECT_TYPE ''key already exists in database but is not the correct type''))
   }"

definition do_getbit :: "gdata \<Rightarrow> bytes \<Rightarrow> dstr list \<Rightarrow> outcome" where
  "do_getbit g out cmd = do {
     key \<leftarrow> arg cmd 1;
     pos \<leftarrow> arg cmd 2;
     with_bitmap g out key (\<lambda>bm. do {
       let idx = strtol (text_of pos);
       if idx < 0 \<or> idx div 8 \<ge> int (dsize bm) then fail g out OUT_OF_RANGE ''index outside of range''
       else do {
         let byte_idx = unat (of_int (idx div 8) :: u32);
         let bit_idx = nat (7 - idx mod 8);
         byte \<leftarrow> buf_at bm (int byte_idx);
         Some (SUCCESS, g, out_int out (ucast (drop_bit bit_idx byte AND 1)))
       }
     })
   }"

text \<open>The two counting loops; \<open>n\<close> is the number of rounds left.\<close>

fun count_bytes :: "nat \<Rightarrow> dstr \<Rightarrow> int \<Rightarrow> nat \<Rightarrow> nat option" where
  "count_bytes 0 bm i acc = Some acc"
| "count_bytes (Suc n) bm i acc = do {
     b \<leftarrow> buf_at bm i;
     count_bytes n bm (i + 1) (acc + length (filter (bit b) [0..<8]))
   }"

text \<open>C division by 8 truncates, and the shifted byte is a sign-extended \<open>char\<close>.\<close>

definition tdiv8 :: "int \<Rightarrow> int" where
  "tdiv8 i = (if i < 0 then - ((- i) div 8) else i div 8)"

fun count_bits :: "nat \<Rightarrow> dstr \<Rightarrow> int \<Rightarrow> nat \<Rightarrow> nat option" where
  "count_bits 0 bm i acc = Some acc"
| "count_bits (Suc n) bm i acc = do {
     b \<leftarrow> buf_at bm (tdiv8 i);
     count_bits n bm (i + 1) (acc + (if bit b (min 7 (nat (7 - (i - 8 * tdiv8 i)))) then 1 else 0))
   }"

definition do_bitcount :: "gdata \<Rightarrow> bytes \<Rightarrow> dstr list \<Rightarrow> outcome" where
  "do_bitcount g out cmd = do {
     key \<leftarrow> arg cmd 1;
     let start = (case arg cmd 2 of Some s \<Rightarrow> strtol (text_of s) | None \<Rightarrow> 0);
     let last = (case arg cmd 3 of Some s \<Rightarrow> strtol (text_of s) | None \<Rightarrow> - 1);
     let byte_mode = (length cmd = 5 \<and> map_option text_of (arg cmd 4) = Some [66, 89, 84, 69]);
     with_bitmap g out key (\<lambda>bm. do {
       let total = int (if byte_mode then dsize bm else dsize bm * 8);
       let start = (if start < 0 then start + total else start);
       let last = min (if last < 0 then last + total else last) (total - 1);
       let n = nat (last - start + 1);
       r \<leftarrow> (if byte_mode then count_bytes n bm start 0 else count_bits n bm start 0);
       Some (SUCCESS, g, out_int out (of_nat r))
     })
   }"

section \<open>HyperLogLog commands\<close>

definition do_pfadd :: "gdata \<Rightarrow> bytes \<Rightarrow> dstr list \<Rightarrow> outcome" where
  "do_pfadd g out cmd = do {
     key \<leftarrow> arg cmd 1;
     val \<leftarrow> arg cmd 2;
     hll \<leftarrow> hll_init;
     (g, p, v) \<leftarrow> db_get_or_new g key (EHll hll);
     (case vent v of
        EHll hll \<Rightarrow> do {
          (is_added, hll) \<leftarrow> hll_add hll val;
          g \<leftarrow> db_put g p v (EHll hll);
          Some (SUCCESS, g, out_int out (if is_added then 1 else 0))
        }
      | _ \<Rightarrow> fail g out INCORRECT_TYPE ''wrong type'')
   }"

definition do_pfcount :: "'f fpu \<Rightarrow> gdata \<Rightarrow> bytes \<Rightarrow> dstr list \<Rightarrow> outcome" where
  "do_pfcount F g out cmd = do {
     key \<leftarrow> arg cmd 1;
     (p, n) \<leftarrow> db_find g key;
     (case n of
        None \<Rightarrow> fail g out NOT_FOUND ''key does not exist''
      | Some n \<Rightarrow> (case vent (hval n) of
          EHll hll \<Rightarrow> do {
            (c, hll) \<leftarrow> hll_count F hll;
            g \<leftarrow> db_put g p (hval n) (EHll hll);
            Some (SUCCESS, g, out_int out (ucast c))
          }
        | _ \<Rightarrow> fail g out INCORRECT_TYPE ''key already exists in database but is not the correct type''))
   }"

text \<open>\<open>do_pfmerge\<close> has an empty body: it never returns the value it declares.\<close>

definition do_pfmerge :: "gdata \<Rightarrow> bytes \<Rightarrow> dstr list \<Rightarrow> outcome" where
  "do_pfmerge g out cmd = None"

section \<open>Changing a node in its slot\<close>

lemma set_slot_spec:
  assumes inv: "ht_inv t" and slot: "slot_node t s = Some n"
  shows "ht_inv (set_slot t s v) \<and> (\<exists>M. mset (ht_nodes t) = add_mset n M \<and> mset (ht_nodes (set_slot t s v)) = add_mset (n\<lparr>hval := v\<rparr>) M)
    \<and> (\<exists>tb' tb. tab t = Some tb \<and> tab (set_slot t s v) = Some tb' \<and> length tb' = length tb \<and> (\<forall>b < length tb. tb ! b = [] \<longrightarrow> tb' ! b = []))"
proof -
  obtain tb b i where tb: "tab t = Some tb" and s: "s = (b, i)" and b: "b < length tb"
    and i: "i < length (tb ! b)" and n: "n = tb ! b ! i"
    using slot by (cases s) (auto simp: slot_node_def split: option.splits if_splits)
  let ?n = "n\<lparr>hval := v\<rparr>"
  let ?c = "(tb ! b)[i := ?n]"
  have t': "set_slot t s v = t\<lparr>tab := Some (tb[b := ?c]), hsize := hsize t\<rparr>" by (simp add: set_slot_def tb s n)
  let ?M0 = "mset (take i (tb ! b) @ drop (Suc i) (tb ! b))"
  have c: "mset (tb ! b) = add_mset n ?M0" "mset ?c = add_mset ?n ?M0"
    using mset_take_drop_nth [OF i] n i by (simp_all add: upd_conv_take_nth_drop)
  have sum: "mset (concat (tb[b := ?c])) + mset (tb ! b) = mset (concat tb) + mset ?c" by (rule concat_update [OF b])
  have "n \<in> set (tb ! b)" "tb ! b \<in> set tb" using b i n by auto
  then have "n \<in># mset (concat tb)" by auto
  then obtain M where M: "mset (concat tb) = add_mset n M" by (metis insert_DiffM)
  then have M': "mset (concat (tb[b := ?c])) = add_mset ?n M" using sum c by simp
  have "size (mset (concat (tb[b := ?c]))) = size (mset (concat tb))" by (simp only: M M' size_add_mset)
  then have "hsize t = length (concat (tb[b := ?c]))" using inv tb by (simp only: size_mset ht_inv_def ht_nodes_def option.case)
  moreover have "bucket (hcode x) (hmask t) = b" if "x \<in> set ?c" for x
  proof -
    have "\<forall>y \<in> set (tb ! b). bucket (hcode y) (hmask t) = b" using inv tb b by (auto simp: ht_inv_def)
    moreover have "x \<in> insert ?n (set (tb ! b))" using that set_update_subset_insert by fast
    ultimately show ?thesis using \<open>n \<in> set (tb ! b)\<close> by auto
  qed
  ultimately have "ht_inv (set_slot t s v)" unfolding t' using inv tb b by (intro ht_inv_update)
  moreover have "tb[b := ?c] ! b' = []" if "tb ! b' = []" for b' using that i by (cases "b' = b") (auto simp: nth_list_update b)
  ultimately show ?thesis using M M' tb by (auto simp: t' ht_nodes_def)
qed

lemma nodes_map_replace:
  assumes d: "distinct (map key ns)" and M: "mset ns = add_mset n M" "mset ns' = add_mset n' M" and k: "key n' = key n"
  shows "distinct (map key ns') \<and> nodes_map key ns' = (nodes_map key ns)(key n \<mapsto> n')"
proof -
  obtain ms where ms: "mset ms = M" by (metis ex_mset)
  have d1: "distinct (map key (n # ms))" by (rule distinct_map_mset [OF d]) (simp add: M ms)
  then have d2: "distinct (map key (n' # ms))" using k by simp
  have "nodes_map key ns = (nodes_map key ms)(key n \<mapsto> n)" by (rule nodes_map_insert [OF d1]) (simp add: M ms)
  moreover have "nodes_map key ns' = (nodes_map key ms)(key n' \<mapsto> n')" by (rule nodes_map_insert [OF d2]) (simp add: M ms)
  moreover have "distinct (map key ns')" by (rule distinct_map_mset [OF d2]) (simp add: M ms)
  ultimately show ?thesis using k by simp
qed

lemma hm_set_val_abs:
  assumes ok: "hm_ok hm" and p: "pkey p \<noteq> None" and n: "hm_abs hm (pkeyof p) = Some n"
  shows "\<exists>hm'. hm_set_val hm p v = Some hm' \<and> hm_ok hm' \<and> hm_abs hm' = (hm_abs hm)(pkeyof p \<mapsto> n\<lparr>hval := v\<rparr>)"
proof -
  obtain k where k: "pkey p = Some k" using p by auto
  have inv: "hm_inv hm" "ht_inv (older hm)" "ht_inv (newer hm)" and d: "distinct (map nkey (hm_nodes hm))"
    using ok by (auto simp: hm_ok_def hm_inv_def)
  have fnd: "find (matches (pkeyof p)) (hm_nodes hm) = Some n" using n by (simp add: hm_abs_def find_matches)
  have nk: "nkey n = pkeyof p" using n nodes_map_Some [OF d] by (auto simp: hm_abs_def)
  have "\<exists>hm' M. hm_set_val hm p v = Some hm' \<and> hm_inv hm' \<and> mset (hm_nodes hm) = add_mset n M
     \<and> mset (hm_nodes hm') = add_mset (n\<lparr>hval := v\<rparr>) M"
  proof (cases "find (matches (pkeyof p)) (ht_nodes (older hm))")
    case (Some m)
    then have m: "m = n" using fnd by (simp add: hm_nodes_def find_append)
    obtain s where s: "ht_lookup (older hm) p = Some (Some s)" "slot_node (older hm) s = Some n"
      using ht_lookup_spec [OF inv(2) k] Some m by (auto split: option.splits)
    from set_slot_spec [OF inv(2) s(2), of v] inv(1) have "hm_inv (hm\<lparr>older := set_slot (older hm) s v\<rparr>)"
      by (auto simp: hm_inv_def)
    with set_slot_spec [OF inv(2) s(2), of v] s(1) show ?thesis by (auto simp: hm_set_val_def hm_nodes_def)
  next
    case None
    then have o: "ht_lookup (older hm) p = Some None" using ht_lookup_spec [OF inv(2) k] by (auto split: option.splits)
    have "find (matches (pkeyof p)) (ht_nodes (newer hm)) = Some n" using fnd None by (simp add: hm_nodes_def find_append)
    then obtain s where s: "ht_lookup (newer hm) p = Some (Some s)" "slot_node (newer hm) s = Some n"
      using ht_lookup_spec [OF inv(3) k] by (auto split: option.splits)
    from set_slot_spec [OF inv(3) s(2), of v] inv(1) have "hm_inv (hm\<lparr>newer := set_slot (newer hm) s v\<rparr>)"
      by (auto simp: hm_inv_def split: option.splits)
    with set_slot_spec [OF inv(3) s(2), of v] s(1) o show ?thesis by (auto simp: hm_set_val_def hm_nodes_def)
  qed
  then obtain hm' M where hm': "hm_set_val hm p v = Some hm'" "hm_inv hm'" "mset (hm_nodes hm) = add_mset n M"
    "mset (hm_nodes hm') = add_mset (n\<lparr>hval := v\<rparr>) M" by blast
  have "nkey (n\<lparr>hval := v\<rparr>) = nkey n" by (simp add: nkey_def)
  from nodes_map_replace [OF d hm'(3,4) this] hm' nk show ?thesis by (auto simp: hm_ok_def hm_abs_def)
qed


section \<open>The keyspace as a map\<close>

definition dbv :: "gdata \<Rightarrow> u64 \<times> bytes \<rightharpoonup> entry" where
  "dbv g k = map_option (\<lambda>n. vent (hval n)) (hm_abs (gdb g) k)"

lemma dbv_upd [simp]: "dbv (g\<lparr>gheap := h\<rparr>) = dbv g" "dbv (g\<lparr>gidx := x\<rparr>) = dbv g" "dbv (g\<lparr>gjobs := j\<rparr>) = dbv g" "dbv (g\<lparr>gnext := a\<rparr>) = dbv g"
  unfolding dbv_def by (rule ext, simp)+

text \<open>Up to entries whose contents migration cleared.\<close>

definition kept :: "(u64 \<times> bytes \<rightharpoonup> entry) \<Rightarrow> (u64 \<times> bytes \<rightharpoonup> entry) \<Rightarrow> bool" where
  "kept v v' \<longleftrightarrow> (\<forall>k. v' k = v k \<or> v' k = map_option ent_clear (v k))"

lemma kept_refl [simp]: "kept v v"
  by (simp add: kept_def)

lemma kept_plain: "kept v v' \<Longrightarrow> v k = Some e \<Longrightarrow> ent_clear e = e \<Longrightarrow> v' k = Some e"
  unfolding kept_def by (metis option.map(2))

lemma kept_none: "kept v v' \<Longrightarrow> v' k = None \<longleftrightarrow> v k = None"
  unfolding kept_def by (metis map_option_is_None)

lemma kept_upd: "kept v v' \<Longrightarrow> kept (v(k := x)) (v'(k := x))"
  by (simp add: kept_def)

lemma ent_clear_plain [simp]: "ent_clear (EStr s) = EStr s" "ent_clear (EList l) = EList l" "ent_clear (ESet h) = ESet h"
    "ent_clear (EBitmap s) = EBitmap s" "ent_clear (EHll s) = EHll s"
  by (simp_all add: ent_clear_def)

lemma hm_clear_empty [simp]: "ent_clear (EHSet empty_hmap) = EHSet empty_hmap"
  by (simp add: ent_clear_def hm_clear_def)

lemma touched_ent: "vent (hval (touched db_ops n)) = vent (hval n) \<or> vent (hval (touched db_ops n)) = ent_clear (vent (hval n))"
  by (simp add: touched_def hn_unlink_def db_ops_def)

lemma touched_addr [simp]: "vaddr (hval (touched db_ops n)) = vaddr (hval n)"
  by (simp add: touched_def hn_unlink_def db_ops_def)

lemma db_find_spec:
  assumes "hm_ok (gdb g)" and "key_ok key"
  shows "\<exists>p. db_find g key = Some (p, hm_abs (gdb g) (kof key)) \<and> mk_probe key = Some p \<and> pkey p \<noteq> None \<and> pkeyof p = kof key"
  using mk_probe_ok [OF assms(2)] hm_lookup_abs [OF assms(1)] by (auto simp: db_find_def)

lemma new_node_spec:
  assumes "key_ok key"
  shows "\<exists>k. new_node g key e = Some (\<lparr>hcode = str_hash (dstr_bytes key), hkey = k, hval = \<lparr>vaddr = gnext g, vent = e\<rparr>\<rparr>,
       g\<lparr>gidx := (gidx g)(gnext g \<mapsto> None), gnext := gnext g + 1\<rparr>) \<and> dstr_bytes k = dstr_bytes key"
  using dstr_copy_ok [of "dstr_bytes key" "dsize key"] assms by (auto simp: new_node_def key_ok_def Let_def)

lemma db_insert_spec:
  assumes ok: "hm_ok (gdb g)" and new: "hm_abs (gdb g) (nkey n) = None"
  shows "\<exists>g'. db_insert g n = Some g' \<and> hm_ok (gdb g') \<and> kept ((dbv g)(nkey n \<mapsto> vent (hval n))) (dbv g')
     \<and> gheap g' = gheap g \<and> gidx g' = gidx g \<and> gnext g' = gnext g"
proof -
  from hm_insert_abs [OF assms, of db_ops] obtain hm' q f where
    hm: "hm_insert db_ops (gdb g) n = Some (hm', q)" "hm_ok hm'" "\<forall>x. f x = x \<or> f x = touched db_ops x"
      "hm_abs hm' = map_option f \<circ> (hm_abs (gdb g))(nkey n \<mapsto> n)" by blast
  let ?g = "g\<lparr>gdb := hm', gjobs := gjobs g @ q\<rparr>"
  have "dbv ?g k = ((dbv g)(nkey n \<mapsto> vent (hval n))) k
      \<or> dbv ?g k = map_option ent_clear (((dbv g)(nkey n \<mapsto> vent (hval n))) k)" for k
  proof (cases "((hm_abs (gdb g))(nkey n \<mapsto> n)) k")
    case None
    then show ?thesis by (auto simp: dbv_def hm(4) split: if_splits)
  next
    case (Some m)
    have "f m = m \<or> f m = touched db_ops m" using hm(3) by blast
    then show ?thesis using Some touched_ent [of m] by (auto simp: dbv_def hm(4) split: if_splits)
  qed
  then show ?thesis using hm by (auto simp: db_insert_def kept_def)
qed

lemma db_put_spec:
  assumes ok: "hm_ok (gdb g)" and p: "pkey p \<noteq> None" and n: "hm_abs (gdb g) (pkeyof p) = Some n"
  shows "\<exists>g'. db_put g p (hval n) e = Some g' \<and> hm_ok (gdb g') \<and> dbv g' = (dbv g)(pkeyof p \<mapsto> e)
     \<and> gheap g' = gheap g \<and> gidx g' = gidx g \<and> gnext g' = gnext g"
proof -
  obtain hm' where hm': "hm_set_val (gdb g) p ((hval n)\<lparr>vent := e\<rparr>) = Some hm'" "hm_ok hm'"
    "hm_abs hm' = (hm_abs (gdb g))(pkeyof p \<mapsto> n\<lparr>hval := (hval n)\<lparr>vent := e\<rparr>\<rparr>)"
    using hm_set_val_abs [OF assms] by blast
  have "dbv (g\<lparr>gdb := hm'\<rparr>) = (dbv g)(pkeyof p \<mapsto> e)" by (rule ext) (simp add: dbv_def hm'(3))
  with hm' show ?thesis by (simp add: db_put_def)
qed

lemma db_get_or_new_spec:
  assumes ok: "hm_ok (gdb g)" and key: "key_ok key" and e: "ent_clear e = e"
  shows "\<exists>g' p n. db_get_or_new g key e = Some (g', p, hval n) \<and> hm_ok (gdb g') \<and> pkey p \<noteq> None \<and> pkeyof p = kof key
     \<and> hm_abs (gdb g') (kof key) = Some n
     \<and> kept (if dbv g (kof key) = None then (dbv g)(kof key \<mapsto> e) else dbv g) (dbv g')
     \<and> vent (hval n) = (case dbv g (kof key) of None \<Rightarrow> e | Some x \<Rightarrow> x)
     \<and> gheap g' = gheap g \<and> gnext g \<le> gnext g'"
proof -
  obtain p where p: "db_find g key = Some (p, hm_abs (gdb g) (kof key))" "pkey p \<noteq> None" "pkeyof p = kof key"
    using db_find_spec [OF ok key] by blast
  show ?thesis
  proof (cases "hm_abs (gdb g) (kof key)")
    case (Some n)
    then have "dbv g (kof key) = Some (vent (hval n))" by (simp add: dbv_def)
    with Some p ok show ?thesis by (auto simp: db_get_or_new_def)
  next
    case None
    then have v: "dbv g (kof key) = None" by (simp add: dbv_def)
    obtain k where k: "new_node g key e = Some (\<lparr>hcode = str_hash (dstr_bytes key), hkey = k, hval = \<lparr>vaddr = gnext g, vent = e\<rparr>\<rparr>,
       g\<lparr>gidx := (gidx g)(gnext g \<mapsto> None), gnext := gnext g + 1\<rparr>)" "dstr_bytes k = dstr_bytes key"
      using new_node_spec [OF key] by blast
    let ?n = "\<lparr>hcode = str_hash (dstr_bytes key), hkey = k, hval = \<lparr>vaddr = gnext g, vent = e\<rparr>\<rparr>"
    let ?g = "g\<lparr>gidx := (gidx g)(gnext g \<mapsto> None), gnext := gnext g + 1\<rparr>"
    have nk: "nkey ?n = kof key" using k(2) by (simp add: nkey_def kof_def)
    from db_insert_spec [of ?g ?n] ok None nk obtain g' where
      g': "db_insert ?g ?n = Some g'" "hm_ok (gdb g')" "kept ((dbv g)(kof key \<mapsto> e)) (dbv g')" "gheap g' = gheap g"
      "gnext g \<le> gnext g'" by auto
    have "dbv g' (kof key) = Some e" using kept_plain [OF g'(3), of "kof key" e] e by simp
    then obtain m where m: "hm_abs (gdb g') (kof key) = Some m" "vent (hval m) = e" by (auto simp: dbv_def)
    have "hm_lookup (gdb g') p = Some (Some m)" using hm_lookup_abs [OF g'(2) p(2)] m p(3) by simp
    then show ?thesis using p None k(1) g' m v by (auto simp: db_get_or_new_def)
  qed
qed

lemma out_dstr_enc: "wf_dstr s \<Longrightarrow> dsize s < 2 ^ 32 \<Longrightarrow> out_dstr out s = Some (out @ enc (RStr (dstr_bytes s)))"
  by (simp add: out_dstr_def out_str_def buf_defs)

lemma db_insert_calm:
  assumes "hm_ok (gdb g)" and "hm_abs (gdb g) (nkey n) = None" and "\<not> migrating (gdb g)"
  shows "\<exists>g'. db_insert g n = Some g' \<and> dbv g' = (dbv g)(nkey n \<mapsto> vent (hval n))"
proof -
  from hm_insert_calm_abs [OF assms, of db_ops] obtain hm where
    hm: "hm_insert db_ops (gdb g) n = Some (hm, [])" "hm_abs hm = (hm_abs (gdb g))(nkey n \<mapsto> n)" by blast
  have "dbv (g\<lparr>gdb := hm\<rparr>) = (dbv g)(nkey n \<mapsto> vent (hval n))" by (rule ext) (simp add: dbv_def hm(2))
  with hm(1) show ?thesis by (simp add: db_insert_def)
qed

text \<open>What a migrated entry holds afterwards.\<close>

lemma touched_hash: "vent (hval n) = EHSet h \<Longrightarrow> vent (hval (touched db_ops n)) = EHSet (if hm_size h < 1000 then empty_hmap else h)"
  by (simp add: touched_def hn_unlink_def db_ops_def ent_size_def ent_clear_def hm_clear_def LARGE_SIZE_TRESHOLD_def)

lemma touched_zset:
  assumes "vent (hval n) = EZSet z" and "zset_inv z T" and "hm_size (zhmap z) < 1000"
  shows "\<exists>z'. vent (hval (touched db_ops n)) = EZSet z' \<and> zset_inv z' Leaf \<and> zabs z' = Map.empty"
  using assms(1,3) zset_clear_empties [OF assms(2)]
  by (auto simp: touched_def hn_unlink_def db_ops_def ent_size_def ent_clear_def LARGE_SIZE_TRESHOLD_def)

lemma db_insert_rehash:
  assumes "hm_ok (gdb g)" and "hm_abs (gdb g) (nkey n) = None" and "tab (older (gdb g)) = None" and "migrating (gdb g)"
    and "hsize (newer (gdb g)) + 1 \<le> REHASHING_WORK"
  shows "\<exists>g'. db_insert g n = Some g' \<and> hm_abs (gdb g') = map_option (touched db_ops) \<circ> (hm_abs (gdb g))(nkey n \<mapsto> n)"
  using hm_insert_rehash_abs [OF assms, of db_ops] by (auto simp: db_insert_def)

end
