(* ===== verification/Commands.thy ===== *)
theory Commands
  imports Db
begin

text \<open>
  What the command handlers of \<open>Db\<close> guarantee: the keyspace as a map from keys to entries,
  hashes and sorted sets as maps, lists as sequences and bitmaps as sequences of bits, each
  command against the operation it stands for, and the inputs on which a handler faults.
\<close>

section \<open>Keyspace commands\<close>

lemma do_get_spec:
  assumes "hm_ok (gdb g)" and "key_ok key" and "dbv g (kof key) = Some (EStr v)" and "wf_dstr v" and "dsize v < 2 ^ 32"
  shows "do_get g out [c, key] = Some (SUCCESS, g, out @ enc (RStr (dstr_bytes v)))"
  using db_find_spec [OF assms(1,2)] assms(3-) by (auto simp: do_get_def arg_def dbv_def out_dstr_enc)

text \<open>\<open>SET\<close> changes the string in place or inserts one new node.\<close>

lemma do_set_node:
  assumes ok: "hm_ok (gdb g)" and key: "key_ok key" and val: "wf_dstr val" "dsize val \<le> MAX_STR_SIZE"
    and old: "\<And>e. dbv g (kof key) = Some e \<Longrightarrow> \<exists>w. e = EStr w \<and> dsize val + dstr_cap w \<le> MAX_STR_SIZE"
  shows "\<exists>v. wf_dstr v \<and> dstr_bytes v = dstr_bytes val
     \<and> (if dbv g (kof key) = None
        then \<exists>g1 n. do_set g out [c, key, val] = map_option (\<lambda>g'. (SUCCESS, g', out_null out)) (db_insert g1 n) \<and> gdb g1 = gdb g
           \<and> nkey n = kof key \<and> vent (hval n) = EStr v
        else \<exists>g'. do_set g out [c, key, val] = Some (SUCCESS, g', out_null out) \<and> hm_ok (gdb g') \<and> dbv g' = (dbv g)(kof key \<mapsto> EStr v))"
proof -
  obtain p where p: "db_find g key = Some (p, hm_abs (gdb g) (kof key))" "pkey p \<noteq> None" "pkeyof p = kof key"
    using db_find_spec [OF ok key] by blast
  have len: "length (dstr_bytes val) = dsize val" using val by simp
  show ?thesis
  proof (cases "hm_abs (gdb g) (kof key)")
    case (Some n)
    then obtain w where w: "vent (hval n) = EStr w" "dsize val + dstr_cap w \<le> MAX_STR_SIZE" using old by (auto simp: dbv_def)
    obtain v where v: "dstr_assign always w (dstr_bytes val) (dsize val) = Some (STR_OK, v)" "wf_dstr v" "dstr_bytes v = dstr_bytes val"
      using dstr_assign_ok [OF len w(2)] by blast
    from db_put_spec [OF ok p(2), of n "EStr v"] Some p(3) obtain g' where
      "db_put g p (hval n) (EStr v) = Some g'" "hm_ok (gdb g')" "dbv g' = (dbv g)(kof key \<mapsto> EStr v)" by auto
    moreover have "dbv g (kof key) = Some (EStr w)" using Some w(1) by (simp add: dbv_def)
    ultimately show ?thesis using p(1) Some w v by (intro exI [of _ v]) (simp add: do_set_def arg_def)
  next
    case None
    obtain v0 where v0: "dstr_init always 0 = Inr v0" by (simp add: dstr_init_def)
    obtain v where v: "dstr_append always v0 (dstr_bytes val) (dsize val) = Some (STR_OK, v)" "wf_dstr v" "dstr_bytes v = dstr_bytes val"
      using dstr_fill_ok [OF len _ v0] val(2) by auto
    obtain k where k: "new_node g key (EStr v0) = Some (\<lparr>hcode = str_hash (dstr_bytes key), hkey = k, hval = \<lparr>vaddr = gnext g, vent = EStr v0\<rparr>\<rparr>,
       g\<lparr>gidx := (gidx g)(gnext g \<mapsto> None), gnext := gnext g + 1\<rparr>)" "dstr_bytes k = dstr_bytes key"
      using new_node_spec [OF key] by blast
    let ?n = "\<lparr>hcode = str_hash (dstr_bytes key), hkey = k, hval = \<lparr>vaddr = gnext g, vent = EStr v\<rparr>\<rparr>"
    let ?g = "g\<lparr>gidx := (gidx g)(gnext g \<mapsto> None), gnext := gnext g + 1\<rparr>"
    have "nkey ?n = kof key" using k(2) by (simp add: nkey_def kof_def)
    moreover have "dbv g (kof key) = None" using None by (simp add: dbv_def)
    moreover have "do_set g out [c, key, val] = map_option (\<lambda>g'. (SUCCESS, g', out_null out)) (db_insert ?g ?n)"
      using p(1) None v v0 k(1) by (cases "db_insert ?g ?n") (simp_all add: do_set_def arg_def)
    ultimately show ?thesis using v(2,3) by (intro exI [of _ v]) (simp, intro exI [of _ ?g] exI [of _ ?n], simp)
  qed
qed

lemma do_set_spec:
  assumes ok: "hm_ok (gdb g)" and key: "key_ok key" and val: "wf_dstr val" "dsize val \<le> MAX_STR_SIZE"
    and old: "\<And>e. dbv g (kof key) = Some e \<Longrightarrow> \<exists>w. e = EStr w \<and> dsize val + dstr_cap w \<le> MAX_STR_SIZE"
  shows "\<exists>g' v. do_set g out [c, key, val] = Some (SUCCESS, g', out_null out) \<and> hm_ok (gdb g') \<and> wf_dstr v \<and> dstr_bytes v = dstr_bytes val
     \<and> kept ((dbv g)(kof key \<mapsto> EStr v)) (dbv g')
     \<and> (dbv g (kof key) = None \<and> migrating (gdb g) \<or> dbv g' = (dbv g)(kof key \<mapsto> EStr v))"
proof -
  obtain v where v: "wf_dstr v" "dstr_bytes v = dstr_bytes val"
    "if dbv g (kof key) = None
        then \<exists>g1 n. do_set g out [c, key, val] = map_option (\<lambda>g'. (SUCCESS, g', out_null out)) (db_insert g1 n) \<and> gdb g1 = gdb g
           \<and> nkey n = kof key \<and> vent (hval n) = EStr v
        else \<exists>g'. do_set g out [c, key, val] = Some (SUCCESS, g', out_null out) \<and> hm_ok (gdb g') \<and> dbv g' = (dbv g)(kof key \<mapsto> EStr v)"
    using do_set_node [OF assms] by blast
  show ?thesis
  proof (cases "dbv g (kof key) = None")
    case False
    with v(3) obtain g' where "do_set g out [c, key, val] = Some (SUCCESS, g', out_null out)" "hm_ok (gdb g')" "dbv g' = (dbv g)(kof key \<mapsto> EStr v)"
      by auto
    with v(1,2) show ?thesis by (intro exI [of _ g'] exI [of _ v]) simp
  next
    case True
    with v(3) obtain g1 n where n: "do_set g out [c, key, val] = map_option (\<lambda>g'. (SUCCESS, g', out_null out)) (db_insert g1 n)" "gdb g1 = gdb g"
      "nkey n = kof key" "vent (hval n) = EStr v" by auto
    have "hm_ok (gdb g1)" "hm_abs (gdb g1) (nkey n) = None" "dbv g1 = dbv g" using ok n(2,3) True by (auto simp: dbv_def fun_eq_iff)
    with db_insert_spec [of g1 n] db_insert_calm [of g1 n] n(2-4) obtain g' where
      "db_insert g1 n = Some g'" "hm_ok (gdb g')" "kept ((dbv g)(kof key \<mapsto> EStr v)) (dbv g')" "\<not> migrating (gdb g) \<Longrightarrow> dbv g' = (dbv g)(kof key \<mapsto> EStr v)"
      by auto
    with n(1) v(1,2) True show ?thesis by (intro exI [of _ g'] exI [of _ v]) auto
  qed
qed

lemma do_del_spec:
  assumes "hm_ok (gdb g)" and "key_ok key"
  shows "\<exists>g'. hm_ok (gdb g') \<and> dbv g' = (dbv g)(kof key := None) \<and> gheap g' = gheap g
     \<and> gidx g' = (case hm_abs (gdb g) (kof key) of Some n \<Rightarrow> (gidx g)(vaddr (hval n) := None) | None \<Rightarrow> gidx g)
     \<and> do_del g out [c, key] = (if dbv g (kof key) = None then fail g' out NOT_FOUND ''node does not exist''
          else Some (SUCCESS, g', out_null out))"
proof -
  obtain k where k: "dstr_copy always (dstr_bytes key) (dsize key) = Some k" "dstr_bytes k = dstr_bytes key"
    using dstr_copy_ok [of "dstr_bytes key" "dsize key"] assms(2) by (auto simp: key_ok_def)
  let ?p = "\<lparr>pcode = str_hash (dstr_bytes k), pkey = Some k\<rparr>"
  have pk: "pkeyof ?p = kof key" using k by (simp add: pkeyof_def kof_def)
  from hm_delete_abs [OF assms(1), of ?p db_ops] pk obtain hm q where
    hm: "hm_delete db_ops (gdb g) ?p = Some (hm, map_option (touched db_ops) (hm_abs (gdb g) (kof key)), q)" "hm_ok hm"
      "hm_abs hm = (hm_abs (gdb g))(kof key := None)" by auto
  have v: "dbv (g\<lparr>gdb := hm\<rparr>) = (dbv g)(kof key := None)" by (rule ext) (simp add: dbv_def hm(3))
  show ?thesis
  proof (cases "hm_abs (gdb g) (kof key)")
    case None
    then have "dbv g (kof key) = None" by (simp add: dbv_def)
    then show ?thesis using None hm v k
      by (intro exI [of _ "g\<lparr>gdb := hm, gjobs := gjobs g @ q\<rparr>"]) (simp add: do_del_def arg_def db_delete_def)
  next
    case (Some n)
    then have "dbv g (kof key) = Some (vent (hval n))" by (simp add: dbv_def)
    then show ?thesis using Some hm v k
      by (intro exI [of _ "g\<lparr>gdb := hm, gjobs := gjobs g @ q, gidx := (gidx g)(vaddr (hval n) := None)\<rparr>"])
        (simp add: do_del_def arg_def db_delete_def)
  qed
qed

lemma empty_gdata_ok: "hm_ok (gdb empty_gdata)" "dbv empty_gdata k = None"
  by (simp_all add: empty_gdata_def dbv_def)

text \<open>An error reply replaces the status word that \<open>before_res_build\<close> appended.\<close>

lemma fail_ok: "fail g (b0 @ le32 c) r m =
    Some (r, g, b0 @ le32 RES_ERR @ TAG_ERROR # le32 (of_nat (length m)) @ msg m)"
  by (simp add: fail_def out_err_frame msg_def)

section \<open>Properties of the keyspace commands\<close>

text \<open>C5: \<open>SET\<close> returns normally, on a fresh key and on one that holds a string; \<open>GET\<close> then replies with exactly the bytes
  that were set.  Every other key keeps its entry, with one exception: when a new key is inserted while the keyspace
  is being rehashed, or fills its table, a hash or a sorted set under another key can have been emptied.\<close>

theorem do_set_get_roundtrip:
  assumes "hm_ok (gdb g)" and "key_ok key" and "wf_dstr val" and "dsize val \<le> MAX_STR_SIZE"
    and "\<And>e. dbv g (kof key) = Some e \<Longrightarrow> \<exists>w. e = EStr w \<and> dsize val + dstr_cap w \<le> MAX_STR_SIZE"
  shows "\<exists>g'. do_set g out [c, key, val] = Some (SUCCESS, g', out_null out) \<and> hm_ok (gdb g')
     \<and> do_get g' out' [c', key] = Some (SUCCESS, g', out' @ enc (RStr (dstr_bytes val)))
     \<and> (\<forall>k. k \<noteq> kof key \<longrightarrow> dbv g' k = dbv g k \<or>
          (dbv g (kof key) = None \<and> migrating (gdb g) \<and> ((\<exists>h. dbv g k = Some (EHSet h)) \<or> (\<exists>z. dbv g k = Some (EZSet z)))
             \<and> dbv g' k = map_option ent_clear (dbv g k)))"
proof -
  from do_set_spec [OF assms, of out c] obtain g' v where
    g': "do_set g out [c, key, val] = Some (SUCCESS, g', out_null out)" "hm_ok (gdb g')" "wf_dstr v"
      "dstr_bytes v = dstr_bytes val" "kept ((dbv g)(kof key \<mapsto> EStr v)) (dbv g')"
      "dbv g (kof key) = None \<and> migrating (gdb g) \<or> dbv g' = (dbv g)(kof key \<mapsto> EStr v)" by blast
  have "dsize v = dsize val" using g'(3,4) assms(3) by (metis length_dstr_bytes)
  then have sz: "dsize v < 2 ^ 32" using assms(4) by (simp add: MAX_STR_SIZE_def)
  have "dbv g' (kof key) = Some (EStr v)" using kept_plain [OF g'(5), of "kof key"] by simp
  from do_get_spec [OF g'(2) assms(2) this g'(3) sz] g'(1,2,4)
  have "do_get g' out' [c', key] = Some (SUCCESS, g', out' @ enc (RStr (dstr_bytes val)))" by simp
  moreover have "dbv g' k = dbv g k \<or> (dbv g (kof key) = None \<and> migrating (gdb g)
      \<and> ((\<exists>h. dbv g k = Some (EHSet h)) \<or> (\<exists>z. dbv g k = Some (EZSet z))) \<and> dbv g' k = map_option ent_clear (dbv g k))" if "k \<noteq> kof key" for k
  proof (cases "dbv g' k = dbv g k")
    case False
    then have c: "dbv g' k = map_option ent_clear (dbv g k)" using g'(5) that unfolding kept_def by (metis fun_upd_other)
    obtain e where e: "dbv g k = Some e" using c False by (cases "dbv g k") auto
    have "(\<exists>h. e = EHSet h) \<or> (\<exists>z. e = EZSet z)" using c False e by (cases e) auto
    with c e g'(6) False that show ?thesis by auto
  qed simp
  ultimately show ?thesis using g'(1,2) by blast
qed

definition key_a :: dstr where
  "key_a = \<lparr>dsize = 1, dfree = 0, dbuf = [Some 97, Some 0]\<rparr>"

lemma key_a_ok [simp]: "key_ok key_a" "wf_dstr key_a" "dsize key_a = 1" "dstr_bytes key_a = [97]" "dstr_cap key_a = 1"
  by (simp_all add: key_a_def key_ok_def wf_dstr_def MAX_STR_SIZE_def dstr_bytes_def dstr_cap_def)

theorem do_set_get_roundtrip_witness:
  "\<exists>g'. do_set empty_gdata [] [key_a, key_a, key_a] = Some (SUCCESS, g', out_null [])
     \<and> do_get g' [] [key_a, key_a] = Some (SUCCESS, g', enc (RStr [97]))"
  using do_set_get_roundtrip [OF empty_gdata_ok(1) key_a_ok(1,2), of "[]" key_a "[]" key_a]
  by (auto simp: empty_gdata_ok(2) MAX_STR_SIZE_def)

text \<open>C37: when a new key fills the table of the keyspace, with no rehash in progress and at most 128 keys, every entry is
  migrated at once, and migration clears it: every hash with fewer than 1000 fields and every sorted set with fewer than 1000
  members loses all of them.  Larger hashes are left to the thread pool, which clears them later.\<close>

theorem do_set_rehash_empties:
  assumes "hm_ok (gdb g)" and "key_ok key" and "wf_dstr val" and "dsize val \<le> MAX_STR_SIZE" and "dbv g (kof key) = None"
    and "tab (older (gdb g)) = None" and "tab (newer (gdb g)) \<noteq> None"
    and "(hmask (newer (gdb g)) + 1) * 8 \<le> hsize (newer (gdb g)) + 1" and "hsize (newer (gdb g)) + 1 \<le> 128"
  shows "\<exists>g'. do_set g out [c, key, val] = Some (SUCCESS, g', out_null out)
     \<and> (\<forall>k h. dbv g k = Some (EHSet h) \<longrightarrow> dbv g' k = Some (EHSet (if hm_size h < 1000 then empty_hmap else h)))
     \<and> (\<forall>k z T. dbv g k = Some (EZSet z) \<and> zset_inv z T \<and> hm_size (zhmap z) < 1000 \<longrightarrow>
          (\<exists>z'. dbv g' k = Some (EZSet z') \<and> zset_inv z' Leaf \<and> zabs z' = Map.empty))"
proof -
  obtain v g1 n where n: "do_set g out [c, key, val] = map_option (\<lambda>g'. (SUCCESS, g', out_null out)) (db_insert g1 n)" "gdb g1 = gdb g"
      "nkey n = kof key"
    using do_set_node [OF assms(1-4), of out c] assms(5) by auto
  have "hm_abs (gdb g1) (nkey n) = None" using assms(5) n(2,3) by (simp add: dbv_def)
  with db_insert_rehash [of g1 n] assms n(2) obtain g' where
    g': "db_insert g1 n = Some g'" "hm_abs (gdb g') = map_option (touched db_ops) \<circ> (hm_abs (gdb g))(nkey n \<mapsto> n)"
    by (auto simp: migrating_def MAX_LOAD_FACTOR_def REHASHING_WORK_def)
  have m: "\<exists>x. hm_abs (gdb g) k = Some x \<and> vent (hval x) = e \<and> dbv g' k = Some (vent (hval (touched db_ops x)))" if "dbv g k = Some e" for k e
    using that assms(5) n(3) by (auto simp: dbv_def g'(2))
  have "dbv g' k = Some (EHSet (if hm_size h < 1000 then empty_hmap else h))" if "dbv g k = Some (EHSet h)" for k h
    using m [OF that] touched_hash by auto
  moreover have "\<exists>z'. dbv g' k = Some (EZSet z') \<and> zset_inv z' Leaf \<and> zabs z' = Map.empty"
    if "dbv g k = Some (EZSet z)" "zset_inv z T" "hm_size (zhmap z) < 1000" for k z T
    using m [OF that(1)] touched_zset [OF _ that(2,3)] by auto
  ultimately show ?thesis using n(1) g'(1) by auto
qed


text \<open>A keyspace of 31 keys in a table of four buckets, the first a hash with one field.\<close>

definition no_key :: dstr where
  "no_key = \<lparr>dsize = 0, dfree = 0, dbuf = [Some 0]\<rparr>"

definition one_field :: "dstr hmap" where
  "one_field = \<lparr>older = empty_htab, newer = \<lparr>tab = Some [[\<lparr>hcode = 0, hkey = key_a, hval = key_a\<rparr>], [], [], []], hmask = 3, hsize = 1\<rparr>, migrate_pos = 0\<rparr>"

definition full_node :: "nat \<Rightarrow> dbval hnode" where
  "full_node i = \<lparr>hcode = of_nat (4 * i), hkey = no_key, hval = \<lparr>vaddr = i, vent = (if i = 0 then EHSet one_field else EStr key_a)\<rparr>\<rparr>"

definition full_gdata :: gdata where
  "full_gdata = empty_gdata\<lparr>gdb := \<lparr>older = empty_htab, newer = \<lparr>tab = Some [map full_node [0..<31], [], [], []], hmask = 3, hsize = 31\<rparr>,
     migrate_pos = 0\<rparr>, gnext := 31\<rparr>"

lemma full_nodes: "hm_nodes (gdb full_gdata) = map full_node [0..<31]" "nkey (full_node i) = (of_nat (4 * i), [])"
  by (simp_all add: full_gdata_def hm_nodes_def ht_nodes_def empty_htab_def full_node_def nkey_def no_key_def dstr_bytes_def cstr_def)

lemma full_gdata_ok: "hm_ok (gdb full_gdata)"
proof -
  have u: "unat (of_nat (4 * i) :: u64) = 4 * i" if "i < 31" for i using that by (subst unat_of_nat) simp
  moreover have "(4 * i :: nat) AND 3 = 0" for i using and_rec [of "4 * i" 3] and_rec [of "2 * i" 1] by simp
  ultimately have b: "bucket (hcode (full_node i)) 3 = 0" if "i < 31" for i using that by (simp add: bucket_def full_node_def del: of_nat_mult)
  have "is_pow2 (Suc (Suc (Suc (Suc 0))))" using is_pow2_4 by (simp only: numeral_Bit0 numeral_One add_Suc_right add_0_right One_nat_def)
  then have "hm_inv (gdb full_gdata)"
    using b by (auto simp: full_gdata_def hm_inv_def ht_inv_def empty_htab_def ht_nodes_def nth_Cons' simp del: upt_conv_Cons)
  moreover have "inj_on (\<lambda>i. nkey (full_node i)) {0..<31}" 
    using u by (intro inj_onI) (metis atLeastLessThan_iff full_nodes(2) mult_cancel1 prod.inject zero_neq_numeral)
  ultimately show ?thesis by (simp add: hm_ok_def full_nodes(1) distinct_map comp_def)
qed

theorem do_set_rehash_empties_witness:
  "\<exists>g' k h. dbv full_gdata k = Some (EHSet h) \<and> hm_size h = 1 \<and> do_set full_gdata [] [key_a, key_a, key_a] = Some (SUCCESS, g', out_null [])
     \<and> dbv g' k = Some (EHSet empty_hmap)"
proof -
  have "[0..<31] = 0 # [1..<31]" by (simp add: upt_conv_Cons)
  then have k: "dbv full_gdata (0, []) = Some (EHSet one_field)"
    by (simp add: dbv_def hm_abs_def nodes_map_def full_nodes del: upt_conv_Cons) (simp add: full_node_def)
  have "kof key_a \<notin> nkey ` set (map full_node [0..<31])" by (auto simp: full_nodes(2) kof_def cstr_def)
  then have n: "dbv full_gdata (kof key_a) = None" by (simp add: dbv_def hm_abs_def full_nodes(1) nodes_map_None)
  have t: "tab (older (gdb full_gdata)) = None" "tab (newer (gdb full_gdata)) \<noteq> None" "hmask (newer (gdb full_gdata)) = 3"
      "hsize (newer (gdb full_gdata)) = 31" by (simp_all add: full_gdata_def empty_htab_def)
  have "hm_size one_field = 1" by (simp add: one_field_def hm_size_def empty_htab_def)
  moreover from do_set_rehash_empties [OF full_gdata_ok key_a_ok(1,2) _ n t(1,2), of "[]" key_a] t(3,4) k obtain g' where
    "do_set full_gdata [] [key_a, key_a, key_a] = Some (SUCCESS, g', out_null [])"
    "dbv g' (0, []) = Some (EHSet (if hm_size one_field < 1000 then empty_hmap else one_field))" by (auto simp: MAX_STR_SIZE_def)
  ultimately show ?thesis using k by (intro exI [of _ g'] exI [of _ "(0, [])"] exI [of _ one_field]) simp
qed

text \<open>C15: \<open>DEL\<close> removes exactly the given key, with a null reply, and every other key keeps its
  entry; where the key is missing the status word becomes an error, the message is
  the payload, and no entry changes.\<close>

theorem do_del_removes_key:
  assumes "hm_ok (gdb g)" and "key_ok key"
  shows "\<exists>g'. hm_ok (gdb g') \<and> dbv g' = (dbv g)(kof key := None)
     \<and> do_del g (b0 @ le32 RES_OK) [c, key] =
       (if dbv g (kof key) = None
        then Some (NOT_FOUND, g', b0 @ le32 RES_ERR @ TAG_ERROR # le32 19 @ msg ''node does not exist'')
        else Some (SUCCESS, g', b0 @ le32 RES_OK @ [TAG_NULL]))"
  using do_del_spec [OF assms, of "b0 @ le32 RES_OK" c] by (auto simp: fail_ok out_null_def buf_defs)

theorem do_del_removes_key_witness:
  "\<exists>g g'. do_set empty_gdata [] [key_a, key_a, key_a] = Some (SUCCESS, g, out_null [])
     \<and> do_del g (le32 RES_OK) [key_a, key_a] = Some (SUCCESS, g', le32 RES_OK @ [TAG_NULL]) \<and> dbv g' = Map.empty"
proof -
  have e: "dbv empty_gdata = Map.empty" by (rule ext) (rule empty_gdata_ok(2))
  have m: "\<not> migrating (gdb empty_gdata)" by (simp add: empty_gdata_def migrating_def empty_hmap_def empty_htab_def)
  with do_set_spec [OF empty_gdata_ok(1) key_a_ok(1,2), of "[]" key_a] obtain g v where
    g: "do_set empty_gdata [] [key_a, key_a, key_a] = Some (SUCCESS, g, out_null [])" "hm_ok (gdb g)" "dbv g = [kof key_a \<mapsto> EStr v]"
    by (auto simp: e MAX_STR_SIZE_def)
  with do_del_removes_key [OF g(2) key_a_ok(1), of "[]" key_a] show ?thesis by (auto simp: fun_upd_twist)
qed

text \<open>C39: \<open>EXPIRE\<close> on a key with no deadline adds exactly the deadline \<open>now + 1000 * seconds\<close> to the
  heap; a \<open>DEL\<close> of the key afterwards leaves the heap as it is, so that its entry points at
  the node that was freed.\<close>

theorem do_expire_del_dangling:
  assumes "hm_ok (gdb g)" and "key_ok key" and "hm_abs (gdb g) (kof key) = Some n"
    and "refs_ok (gheap g, gidx g)" and "vaddr (hval n) \<notin> pos_ref ` set (gheap g)" and "gidx g (vaddr (hval n)) \<noteq> None"
    and "length (gheap g) < 2 ^ 32"
  shows "\<exists>g1 g2 h. do_expire now g out [c, key, secs] = Some (SUCCESS, g1, out_null out)
     \<and> h = \<lparr>hn_val = now + of_int (strtol (text_of secs)) * 1000, pos_ref = vaddr (hval n)\<rparr>
     \<and> mset (gheap g1) = add_mset h (mset (gheap g))
     \<and> do_del g1 out' [c', key] = Some (SUCCESS, g2, out_null out')
     \<and> h \<in> set (gheap g2) \<and> gidx g2 (pos_ref h) = None"
proof -
  let ?h = "\<lparr>hn_val = now + of_int (strtol (text_of secs)) * 1000, pos_ref = vaddr (hval n)\<rparr>"
  obtain hp ix where hp: "set_ttl now (gheap g, gidx g) (vaddr (hval n)) (of_int (strtol (text_of secs)) * 1000) = Some (hp, ix)"
    "mset hp = add_mset ?h (mset (gheap g))"
    using set_ttl_spec [OF assms(4), of "vaddr (hval n)" now "of_int (strtol (text_of secs)) * 1000"] assms(5-7) by auto
  let ?g1 = "g\<lparr>gheap := hp, gidx := ix\<rparr>"
  have e: "do_expire now g out [c, key, secs] = Some (SUCCESS, ?g1, out_null out)"
    using db_find_spec [OF assms(1,2)] assms(3) hp(1) by (auto simp: do_expire_def arg_def)
  have "hm_ok (gdb ?g1)" "hm_abs (gdb ?g1) (kof key) = Some n" using assms(1,3) by simp_all
  with do_del_spec [of ?g1 key out' c'] assms(2) obtain g2 where
    g2: "do_del ?g1 out' [c', key] = Some (SUCCESS, g2, out_null out')" "gheap g2 = hp" "gidx g2 (vaddr (hval n)) = None"
    by (auto simp: dbv_def)
  have "?h \<in># mset hp" using hp(2) by simp
  then have "?h \<in> set hp" by simp
  with e hp(2) g2 show ?thesis by (intro exI [of _ ?g1] exI [of _ g2] exI [of _ ?h]) simp
qed

theorem do_expire_del_dangling_witness:
  "\<exists>g g1 g2. do_expire 5 g [] [key_a, key_a, key_a] = Some (SUCCESS, g1, out_null []) \<and> do_del g1 [] [key_a, key_a] = Some (SUCCESS, g2, out_null [])
     \<and> gheap g2 \<noteq> [] \<and> gidx g2 0 = None"
proof -
  let ?n = "\<lparr>hcode = str_hash [97], hkey = key_a, hval = \<lparr>vaddr = 0, vent = EStr key_a\<rparr>\<rparr>"
  obtain hm q f where hm: "hm_ok hm" "\<forall>x. f x = x \<or> f x = touched db_ops x" "hm_abs hm = map_option f \<circ> [nkey ?n \<mapsto> ?n]"
    using hm_insert_abs [of empty_hmap ?n db_ops] by auto
  let ?g = "empty_gdata\<lparr>gdb := hm, gidx := [0 \<mapsto> None]\<rparr>"
  have "nkey ?n = kof key_a" by (simp add: nkey_def kof_def)
  then have "hm_abs (gdb ?g) (kof key_a) = Some (f ?n)" using hm(3) by simp
  moreover have "vaddr (hval (f ?n)) = 0" using hm(2) by (metis touched_addr hnode.select_convs(3) dbval.select_convs(1))
  moreover have "refs_ok (gheap ?g, gidx ?g)" "gheap ?g = []" by (simp_all add: refs_ok_def empty_gdata_def)
  ultimately show ?thesis
    using do_expire_del_dangling [of ?g key_a "f ?n" 5 "[]" key_a key_a "[]" key_a] hm(1) by fastforce
qed


section \<open>Hash commands\<close>

text \<open>A probe without a key faults exactly when its hash code is met.\<close>

lemma chain_find_null:
  "pkey p = None \<Longrightarrow> chain_find ns p i = (if \<exists>n \<in> set ns. hcode n = pcode p then None else Some None)"
  by (induction ns arbitrary: i) auto

lemma ht_lookup_null:
  assumes inv: "ht_inv t" and p: "pkey p = None"
  shows "ht_lookup t p = (if \<exists>n \<in> set (ht_nodes t). hcode n = pcode p then None else Some None)"
proof (cases "tab t")
  case None
  then show ?thesis by (simp add: ht_lookup_def ht_nodes_def)
next
  case (Some tb)
  let ?b = "bucket (pcode p) (hmask t)"
  have b: "?b < length tb" using inv Some bucket_less [of "pcode p" "hmask t"] by (simp add: ht_inv_def)
  have "n \<in> set (tb ! ?b)" if "n \<in> set (ht_nodes t)" "hcode n = pcode p" for n
  proof -
    from that(1) Some obtain b where "b < length tb" "n \<in> set (tb ! b)"
      by (auto simp: ht_nodes_def in_set_conv_nth [of _ tb])
    moreover from this inv Some that(2) have "?b = b" by (metis (mono_tags, lifting) ht_inv_def option.simps(5))
    ultimately show ?thesis by simp
  qed
  moreover have "n \<in> set (ht_nodes t)" if "n \<in> set (tb ! ?b)" for n using that b Some nth_mem [OF b] by (auto simp: ht_nodes_def)
  ultimately have "(\<exists>n \<in> set (ht_nodes t). hcode n = pcode p) \<longleftrightarrow> (\<exists>n \<in> set (tb ! ?b). hcode n = pcode p)" by blast
  then show ?thesis using b p Some by (simp add: ht_lookup_def chain_find_null Let_def)
qed

lemma hm_lookup_null:
  assumes "hm_ok hm" and "pkey p = None"
  shows "hm_lookup hm p = (if \<exists>n \<in> set (hm_nodes hm). hcode n = pcode p then None else Some None)"
  using assms ht_lookup_null [of "older hm" p] ht_lookup_null [of "newer hm" p]
  by (auto simp: hm_lookup_def hm_ok_def hm_inv_def hm_nodes_def)

lemma hm_abs_hcode: "hm_ok hm \<Longrightarrow> hm_abs hm k = Some n \<Longrightarrow> n \<in> set (hm_nodes hm) \<and> hcode n = fst k"
  using nodes_map_Some [of nkey "hm_nodes hm" k n] by (auto simp: hm_ok_def hm_abs_def nkey_def)

definition no_code :: "'v hmap \<Rightarrow> dstr \<Rightarrow> bool" where
  "no_code h field \<longleftrightarrow> (\<forall>n \<in> set (hm_nodes h). hcode n \<noteq> str_hash (dstr_bytes field))"

lemma no_code_abs: "hm_ok h \<Longrightarrow> no_code h field \<Longrightarrow> hm_abs h (kof field) = None"
  using hm_abs_hcode [of h "kof field"] by (cases "hm_abs h (kof field)") (auto simp: no_code_def kof_def)

lemma field_node_spec:
  assumes "key_ok field"
  shows "\<exists>n. field_node field v = Some n \<and> nkey n = kof field \<and> hval n = v"
  using dstr_copy_ok [of "dstr_bytes field" "dsize field"] assms
  by (auto simp: field_node_def key_ok_def nkey_def kof_def)

lemma do_hset_spec:
  assumes ok: "hm_ok (gdb g)" and key: "key_ok key" "key_ok field" "key_ok val"
    and old: "case dbv g (kof key) of None \<Rightarrow> h = empty_hmap | Some e \<Rightarrow> e = EHSet h"
    and h: "hm_ok h" "no_code h field"
  shows "\<exists>g' h' n. do_hset g out [c, key, field, val] = Some (SUCCESS, g', out_null out) \<and> hm_ok (gdb g')
     \<and> dbv g' (kof key) = Some (EHSet h') \<and> hm_ok h' \<and> hm_abs h' = (hm_abs h)(kof field \<mapsto> n)
     \<and> wf_dstr (hval n) \<and> dstr_bytes (hval n) = dstr_bytes val"
proof -
  from db_get_or_new_spec [OF ok key(1), of "EHSet empty_hmap"] old obtain g1 p m where
    g1: "db_get_or_new g key (EHSet empty_hmap) = Some (g1, p, hval m)" "hm_ok (gdb g1)" "pkey p \<noteq> None" "pkeyof p = kof key"
      "hm_abs (gdb g1) (kof key) = Some m" "vent (hval m) = EHSet h"
    by (auto split: option.splits)
  obtain f where f: "dstr_copy always (dstr_bytes field) (dsize field) = Some f"
    using dstr_copy_ok [of "dstr_bytes field" "dsize field"] key(2) by (auto simp: key_ok_def)
  obtain w where w: "dstr_copy always (dstr_bytes val) (dsize val) = Some w" "wf_dstr w" "dstr_bytes w = dstr_bytes val"
    using dstr_copy_ok [of "dstr_bytes val" "dsize val"] key(3) by (auto simp: key_ok_def)
  obtain n where n: "field_node field w = Some n" "nkey n = kof field" "hval n = w" using field_node_spec [OF key(2), of w] by blast
  have "hm_lookup h \<lparr>pcode = str_hash (dstr_bytes field), pkey = None\<rparr> = Some None"
    using hm_lookup_null [OF h(1), of "\<lparr>pcode = str_hash (dstr_bytes field), pkey = None\<rparr>"] h(2) by (simp add: no_code_def)
  moreover obtain h' where h': "hm_insert plain_ops h n = Some (h', [])" "hm_ok h'" "hm_abs h' = (hm_abs h)(kof field \<mapsto> n)"
    using hm_insert_plain [OF h(1), of n, unfolded n(2), OF no_code_abs [OF h]] by blast
  moreover from db_put_spec [OF g1(2,3), of m "EHSet h'"] g1(4,5) obtain g2 where
    g2: "db_put g1 p (hval m) (EHSet h') = Some g2" "hm_ok (gdb g2)" "dbv g2 (kof key) = Some (EHSet h')" by auto
  ultimately have "do_hset g out [c, key, field, val] = Some (SUCCESS, g2, out_null out)"
    using g1(1,6) f w(1) n(1) by (simp add: do_hset_def arg_def)
  with g2 h' w n(3) show ?thesis by blast
qed

lemma do_hget_spec:
  assumes "hm_ok (gdb g)" and "key_ok key" and "key_ok field" and "dbv g (kof key) = Some (EHSet h)" and "hm_ok h"
    and "hm_abs h (kof field) = Some n" and "wf_dstr (hval n)" and "dsize (hval n) < 2 ^ 32"
  shows "do_hget g out [c, key, field] = Some (SUCCESS, g, out @ enc (RStr (dstr_bytes (hval n))))"
  using db_find_spec [OF assms(1,2)] mk_probe_ok [OF assms(3)] hm_lookup_abs [OF assms(5)] assms(4,6-)
  by (auto simp: do_hget_def arg_def dbv_def out_dstr_enc)

section \<open>Properties of the hash commands\<close>

text \<open>C14: \<open>HSET\<close> of a field whose hash code no field of the hash has yet returns normally with a
  null reply, where the documentation announces the number of new fields, and adds exactly that
  field, whether the hash exists or is created; \<open>HGET\<close> then replies with exactly the bytes that
  were set.\<close>

theorem do_hset_hget_roundtrip:
  assumes "hm_ok (gdb g)" and "key_ok key" and "key_ok field" and "key_ok val"
    and "case dbv g (kof key) of None \<Rightarrow> h = empty_hmap | Some e \<Rightarrow> e = EHSet h"
    and "hm_ok h" and "no_code h field"
  shows "\<exists>g' h' n. do_hset g out [c, key, field, val] = Some (SUCCESS, g', out_null out)
     \<and> dbv g' (kof key) = Some (EHSet h') \<and> hm_ok h' \<and> hm_abs h' = (hm_abs h)(kof field \<mapsto> n)
     \<and> do_hget g' out' [c', key, field] = Some (SUCCESS, g', out' @ enc (RStr (dstr_bytes val)))"
proof -
  from do_hset_spec [OF assms, of out c] obtain g' h' n where
    g': "do_hset g out [c, key, field, val] = Some (SUCCESS, g', out_null out)" "hm_ok (gdb g')"
      "dbv g' (kof key) = Some (EHSet h')" "hm_ok h'" "hm_abs h' = (hm_abs h)(kof field \<mapsto> n)"
      "wf_dstr (hval n)" "dstr_bytes (hval n) = dstr_bytes val" by blast
  have "dsize (hval n) = dsize val" using g'(6,7) assms(4) by (metis length_dstr_bytes key_ok_def)
  then have "dsize (hval n) < 2 ^ 32" using assms(4) by (simp add: key_ok_def MAX_STR_SIZE_def)
  from do_hget_spec [OF g'(2) assms(2,3) g'(3,4) _ g'(6) this] g' show ?thesis by fastforce
qed

theorem do_hset_hget_roundtrip_witness:
  "\<exists>g'. do_hset empty_gdata [] [key_a, key_a, key_a, key_a] = Some (SUCCESS, g', out_null [])
     \<and> do_hget g' [] [key_a, key_a, key_a] = Some (SUCCESS, g', enc (RStr [97]))"
  using do_hset_hget_roundtrip [OF empty_gdata_ok(1) key_a_ok(1) key_a_ok(1) key_a_ok(1), of empty_hmap "[]" key_a "[]" key_a]
  by (auto simp: empty_gdata_ok(2) no_code_def)

text \<open>\<open>HSET\<close> of a field the hash already has faults: the key of the temporary node it searches
  with was never set, and the search compares it with the field's name.\<close>

lemma do_hset_existing_faults:
  assumes "hm_ok (gdb g)" and "key_ok key" and "key_ok field" and "dbv g (kof key) = Some (EHSet h)" and "hm_ok h"
    and "hm_abs h (kof field) \<noteq> None"
  shows "do_hset g out [c, key, field, val] = None"
proof -
  obtain n where n: "hm_abs h (kof field) = Some n" using assms(6) by blast
  have "hm_lookup h \<lparr>pcode = str_hash (dstr_bytes field), pkey = None\<rparr> = None"
    using hm_lookup_null [OF assms(5)] hm_abs_hcode [OF assms(5) n] by (auto simp: kof_def)
  then show ?thesis using db_find_spec [OF assms(1,2)] assms(4)
    by (auto simp: do_hset_def arg_def db_get_or_new_def dbv_def bind_eq_None_conv)
qed

lemma do_hset_existing_faults_witness:
  "\<exists>g'. do_hset empty_gdata [] [key_a, key_a, key_a, key_a] = Some (SUCCESS, g', out_null [])
     \<and> do_hset g' [] [key_a, key_a, key_a, key_a] = None"
  using do_hset_spec [OF empty_gdata_ok(1) key_a_ok(1) key_a_ok(1) key_a_ok(1), of empty_hmap "[]" key_a] do_hset_existing_faults
  by (fastforce simp: empty_gdata_ok(2) no_code_def)


section \<open>Lists\<close>

definition vals :: "'a dstore \<Rightarrow> addr \<Rightarrow> 'a option" where
  "vals s a = map_option dval (s a)"

text \<open>What a list holds: the values of a chain from \<open>head\<close> to \<open>tail\<close>.\<close>

definition list_at :: "llist \<Rightarrow> addr list \<Rightarrow> dstr list \<Rightarrow> bool" where
  "list_at l as ws \<longleftrightarrow> chain (lnodes l) as \<and> map (vals (lnodes l)) as = map Some ws
     \<and> lsize l = of_nat (length as) \<and> length as < 2 ^ 31
     \<and> (as \<noteq> [] \<longrightarrow> lhead l = Some (hd as) \<and> ltail l = Some (last as))"

lemma vals_some [simp]: "s a = Some n \<Longrightarrow> vals s a = Some (dval n)"
  by (simp add: vals_def)

lemma set_next_vals: "set_next s a p = Some s' \<Longrightarrow> vals s' = vals s"
  by (rule ext) (auto simp: set_next_def vals_def)

lemma set_prev_vals: "set_prev s a p = Some s' \<Longrightarrow> vals s' = vals s"
  by (rule ext) (auto simp: set_prev_def vals_def)

lemma insert_before_vals: "dlist_insert_before s t x = Some s' \<Longrightarrow> vals s' = vals s"
  by (auto simp: dlist_insert_before_def Let_def bind_eq_Some_conv split: option.splits dest!: set_next_vals set_prev_vals)

lemma insert_after_vals: "dlist_insert_after s t x = Some s' \<Longrightarrow> vals s' = vals s"
  by (auto simp: dlist_insert_after_def Let_def bind_eq_Some_conv split: option.splits dest!: set_next_vals set_prev_vals)

lemma in_set_tlD: "x \<in> set (tl xs) \<Longrightarrow> x \<in> set xs"
  by (cases xs) auto

lemma chain_cong: "\<forall>a \<in> set as. s' a = s a \<Longrightarrow> chain s' as \<longleftrightarrow> chain s as"
proof -
  assume *: "\<forall>a \<in> set as. s' a = s a"
  have "links s' as \<longleftrightarrow> links s as"
    using * by (intro links_cong) (auto simp: nextof_def prevof_def dest: in_set_butlastD in_set_tlD)
  then show ?thesis using * by (auto simp: chain_def nextof_def prevof_def domIff subset_iff)
qed

lemma list_at_size: "list_at l as ws \<Longrightarrow> lsize l = 0 \<longleftrightarrow> as = []"
  by (auto simp: list_at_def of_nat_eq_0_iff word_of_nat_eq_0_iff dest: dvd_imp_le)

lemma list_push_spec:
  assumes l: "list_at l as ws" and a: "lnodes l a = None" and sz: "length as + 1 < 2 ^ 31"
  shows "\<exists>l'. list_push l a w side = Some l' \<and> lsize l' = of_nat (length as + 1) \<and> dom (lnodes l') = insert a (dom (lnodes l))
     \<and> list_at l' (if side = LLIST_SIDE_LEFT then a # as else as @ [a]) (if side = LLIST_SIDE_LEFT then w # ws else ws @ [w])"
proof -
  let ?s = "(lnodes l)(a \<mapsto> \<lparr>dprev = None, dnext = None, dval = w\<rparr>)"
  have new: "a \<notin> set as" using l a by (auto simp: list_at_def chain_def)
  then have c: "chain ?s as" using l chain_cong [of as ?s "lnodes l"] by (auto simp: list_at_def)
  have v: "map (vals ?s) as = map Some ws" "vals ?s a = Some w"
  proof -
    have "map (vals ?s) as = map (vals (lnodes l)) as" using new by (intro map_cong) (auto simp: vals_def)
    also have "\<dots> = map Some ws" using l by (simp add: list_at_def)
    finally show "map (vals ?s) as = map Some ws" .
  qed simp
  show ?thesis
  proof (cases "as = []")
    case True
    then show ?thesis using l list_at_size [OF l] by (auto simp: list_push_def list_at_def chain_def Let_def nextof_def prevof_def)
  next
    case False
    then have nz: "lsize l \<noteq> 0" using list_at_size [OF l] by simp
    show ?thesis
    proof (cases "side = LLIST_SIDE_LEFT")
      case True
      obtain h xs where as: "as = h # xs" using False by (cases as) auto
      from chain_insert_before [of ?s h xs a] c new as obtain s' where
        s': "dlist_insert_before ?s h a = Some s'" "chain s' (a # as)" "dom s' = insert a (dom (lnodes l))" by auto
      have "lhead l = Some h" using l as by (simp add: list_at_def)
      then show ?thesis using True nz s' insert_before_vals [OF s'(1)] v l sz as
        by (auto simp: list_push_def list_at_def Let_def)
    next
      case R: False
      obtain t xs where as: "as = xs @ [t]" using False by (cases as rule: rev_cases) auto
      from chain_insert_after [of ?s xs t a] c new as obtain s' where
        s': "dlist_insert_after ?s t a = Some s'" "chain s' (as @ [a])" "dom s' = insert a (dom (lnodes l))" by auto
      have "ltail l = Some t" using l as by (simp add: list_at_def)
      then show ?thesis using R nz s' insert_after_vals [OF s'(1)] v l sz as
        by (auto simp: list_push_def list_at_def Let_def hd_append)
    qed
  qed
qed


lemma list_at_len: "list_at l as ws \<Longrightarrow> length as = length ws"
  unfolding list_at_def by (metis length_map)

text \<open>Popping keeps the rest of the chain.\<close>

lemma chain_tl:
  assumes c: "chain s (x # y # xs)"
  shows "\<exists>s'. set_prev s y None = Some s' \<and> chain (s'(x := None)) (y # xs)"
proof -
  from c have y: "y \<in> dom s" "x \<notin> set (y # xs)" by (auto simp: chain_def)
  then obtain s' where s': "set_prev s y None = Some s'" "prevof s' = (prevof s)(y := None)" "nextof s' = nextof s" "dom s' = dom s"
    using set_prev_spec by blast
  note pn = fun_cong [OF s'(2)] fun_cong [OF s'(3)]
  have "links s' (y # xs)" using c by (subst links_cong [of _ s' s]) (auto simp: chain_def pn)
  then have "chain s' (y # xs)" using c s'(4) by (auto simp: chain_def pn)
  then have "chain (s'(x := None)) (y # xs)" using y(2) chain_cong [of "y # xs" "s'(x := None)" s'] by auto
  with s'(1) show ?thesis by blast
qed

lemma chain_butlast:
  assumes c: "chain s (xs @ [y, x])"
  shows "\<exists>s'. set_next s y None = Some s' \<and> chain (s'(x := None)) (xs @ [y])"
proof -
  from c have y: "y \<in> dom s" "x \<notin> set (xs @ [y])" by (auto simp: chain_def)
  then obtain s' where s': "set_next s y None = Some s'" "nextof s' = (nextof s)(y := None)" "prevof s' = prevof s" "dom s' = dom s"
    using set_next_spec by blast
  note pn = fun_cong [OF s'(2)] fun_cong [OF s'(3)]
  have "links s (xs @ [y])" using c links_append [of s xs y "[x]"] by (simp add: chain_def)
  then have "links s' (xs @ [y])" using c by (subst links_cong [of _ s' s]) (auto simp: chain_def pn)
  then have "chain s' (xs @ [y])" using c s'(4) by (cases xs) (auto simp: chain_def pn)
  then have "chain (s'(x := None)) (xs @ [y])" using y(2) chain_cong [of "xs @ [y]" "s'(x := None)" s'] by auto
  with s'(1) show ?thesis by blast
qed

lemma vals_del: "x \<notin> set as \<Longrightarrow> map (vals (s(x := None))) as = map (vals s) as"
  by (auto simp: vals_def)

lemma list_pop_left:
  assumes l: "list_at l (x # as) (w # ws)"
  shows "\<exists>l'. list_pop l LLIST_SIDE_LEFT = Some (w, l') \<and> list_at l' as ws \<and> dom (lnodes l') \<subseteq> dom (lnodes l)"
proof -
  obtain n where n: "lnodes l x = Some n" "dval n = w" "lhead l = Some x"
    using l by (auto simp: list_at_def vals_def)
  have new: "x \<notin> set as" using l by (auto simp: list_at_def chain_def)
  show ?thesis
  proof (cases as)
    case Nil
    then have "dnext n = None" using l n by (auto simp: list_at_def chain_def)
    then show ?thesis using l n Nil by (auto simp: list_pop_def list_at_def chain_def)
  next
    case (Cons y ys)
    then have nx: "dnext n = Some y" using l n by (auto simp: list_at_def chain_def)
    obtain s' where s': "set_prev (lnodes l) y None = Some s'" "chain (s'(x := None)) as"
      using chain_tl [of "lnodes l" x y ys] l Cons by (auto simp: list_at_def)
    have d: "dom s' = dom (lnodes l)" using s'(1) by (auto simp: set_prev_def split: if_splits)
    show ?thesis using l n nx s' d vals_del [OF new, of s'] set_prev_vals [OF s'(1)] Cons
      by (auto simp: list_pop_def list_at_def)
  qed
qed

lemma list_pop_right:
  assumes l: "list_at l (as @ [x]) (ws @ [w])"
  shows "\<exists>l'. list_pop l LLIST_SIDE_RIGHT = Some (w, l') \<and> list_at l' as ws \<and> dom (lnodes l') \<subseteq> dom (lnodes l)"
proof -
  obtain n where n: "lnodes l x = Some n" "dval n = w" "ltail l = Some x"
    using l by (auto simp: list_at_def vals_def)
  have new: "x \<notin> set as" using l by (auto simp: list_at_def chain_def)
  show ?thesis
  proof (cases as rule: rev_cases)
    case Nil
    then have "dprev n = None" using l n by (auto simp: list_at_def chain_def)
    then show ?thesis using l n Nil by (auto simp: list_pop_def list_at_def chain_def)
  next
    case (snoc ys y)
    then have px: "dprev n = Some y" using l n links_adjacent [of "lnodes l" ys y x "[]"] by (auto simp: list_at_def chain_def)
    obtain s' where s': "set_next (lnodes l) y None = Some s'" "chain (s'(x := None)) as"
      using chain_butlast [of "lnodes l" ys y x] l snoc by (auto simp: list_at_def)
    have d: "dom s' = dom (lnodes l)" using s'(1) by (auto simp: set_next_def split: if_splits)
    have "lhead l = Some (hd as)" using l snoc by (cases ys) (auto simp: list_at_def)
    then show ?thesis using l n px s' d vals_del [OF new, of s'] set_next_vals [OF s'(1)] snoc
      by (auto simp: list_pop_def list_at_def)
  qed
qed


definition ends :: "side \<Rightarrow> 'a list \<Rightarrow> nat \<Rightarrow> 'a list" where
  "ends side xs k = (if side = LLIST_SIDE_LEFT then take k xs else take k (rev xs))"

definition others :: "side \<Rightarrow> 'a list \<Rightarrow> nat \<Rightarrow> 'a list" where
  "others side xs k = (if side = LLIST_SIDE_LEFT then drop k xs else take (length xs - k) xs)"

definition enc_strs :: "dstr list \<Rightarrow> bytes" where
  "enc_strs ws = concat (map (\<lambda>w. enc (RStr (dstr_bytes w))) ws)"

lemma pop_loop_spec:
  assumes "list_at l as ws" and "k \<le> length ws" and "\<forall>w \<in> set ws. wf_dstr w \<and> dsize w < 2 ^ 32"
  shows "\<exists>l'. pop_loop k side l out = Some (l', out @ enc_strs (ends side ws k)) \<and> list_at l' (others side as k) (others side ws k)
     \<and> dom (lnodes l') \<subseteq> dom (lnodes l)"
  using assms
proof (induction k arbitrary: l as ws out)
  case 0
  then show ?case by (auto simp: enc_strs_def ends_def others_def list_at_def)
next
  case (Suc k)
  have len: "length as = length ws" using Suc.prems(1) by (rule list_at_len)
  show ?case
  proof (cases "side = LLIST_SIDE_LEFT")
    case True
    obtain x as' w ws' where xw: "as = x # as'" "ws = w # ws'" using Suc.prems(2) len by (cases as; cases ws) auto
    obtain l1 where l1: "list_pop l side = Some (w, l1)" "list_at l1 as' ws'" "dom (lnodes l1) \<subseteq> dom (lnodes l)"
      using list_pop_left [of l x as' w ws'] Suc.prems(1) xw True by auto
    from Suc.IH [OF l1(2), of "out @ enc (RStr (dstr_bytes w))"] Suc.prems xw l1 True show ?thesis
      by (auto simp: out_dstr_enc enc_strs_def ends_def others_def)
  next
    case False
    then have R: "side = LLIST_SIDE_RIGHT" by (cases side) auto
    obtain x as' w ws' where xw: "as = as' @ [x]" "ws = ws' @ [w]"
      using Suc.prems(2) len by (cases as rule: rev_cases; cases ws rule: rev_cases) auto
    obtain l1 where l1: "list_pop l side = Some (w, l1)" "list_at l1 as' ws'" "dom (lnodes l1) \<subseteq> dom (lnodes l)"
      using list_pop_right [of l as' x ws' w] Suc.prems(1) xw R by auto
    from Suc.IH [OF l1(2), of "out @ enc (RStr (dstr_bytes w))"] Suc.prems xw l1 R show ?thesis
      by (auto simp: out_dstr_enc enc_strs_def ends_def others_def)
  qed
qed

lemma sint_small: "n < 2 ^ 31 \<Longrightarrow> sint (of_nat n :: u32) = int n"
  by (simp add: signed_of_nat signed_take_bit_int_eq_self)

section \<open>Properties of the list commands\<close>

text \<open>C10: \<open>LPUSH\<close> and \<open>RPUSH\<close> return normally, add exactly the given bytes at the front or at the
  back of the list, create the list where the key is missing, and reply with the new length.\<close>

theorem do_push_extends_list:
  assumes "hm_ok (gdb g)" and "key_ok key" and "key_ok val" and "length as + 1 < 2 ^ 31"
    and "case dbv g (kof key) of None \<Rightarrow> as = [] \<and> ws = []
       | Some e \<Rightarrow> \<exists>l. e = EList l \<and> list_at l as ws \<and> (\<forall>a \<ge> gnext g. lnodes l a = None)"
  shows "\<exists>g' l' as' w. do_push g out [c, key, val] side = Some (SUCCESS, g', out_int out (of_nat (length as + 1))) \<and> hm_ok (gdb g')
     \<and> dstr_bytes w = dstr_bytes val \<and> dbv g' (kof key) = Some (EList l')
     \<and> list_at l' as' (if side = LLIST_SIDE_LEFT then w # ws else ws @ [w]) \<and> (\<forall>a \<ge> gnext g'. lnodes l' a = None)"
proof -
  from db_get_or_new_spec [OF assms(1,2), of "EList empty_llist"] obtain g1 p m where
    g1: "db_get_or_new g key (EList empty_llist) = Some (g1, p, hval m)" "hm_ok (gdb g1)" "pkey p \<noteq> None" "pkeyof p = kof key"
      "hm_abs (gdb g1) (kof key) = Some m" "vent (hval m) = (case dbv g (kof key) of None \<Rightarrow> EList empty_llist | Some x \<Rightarrow> x)" "gnext g \<le> gnext g1"
    by auto
  have "list_at empty_llist [] []" "lnodes empty_llist = Map.empty" by (simp_all add: list_at_def empty_llist_def chain_def)
  then obtain l where l: "vent (hval m) = EList l" "list_at l as ws" "\<forall>a \<ge> gnext g1. lnodes l a = None"
    using assms(5) g1(6,7) by (auto split: option.splits)
  obtain w where w: "dstr_copy always (dstr_bytes val) (dsize val) = Some w" "dstr_bytes w = dstr_bytes val"
    using dstr_copy_ok [of "dstr_bytes val" "dsize val"] assms(3) by (auto simp: key_ok_def)
  obtain l' where l': "list_push l (gnext g1) w side = Some l'" "lsize l' = of_nat (length as + 1)"
    "dom (lnodes l') = insert (gnext g1) (dom (lnodes l))"
    "list_at l' (if side = LLIST_SIDE_LEFT then gnext g1 # as else as @ [gnext g1]) (if side = LLIST_SIDE_LEFT then w # ws else ws @ [w])"
    using list_push_spec [OF l(2) _ assms(4)] l(3) by blast
  have fr: "\<forall>a \<ge> gnext g1 + 1. lnodes l' a = None" 
  proof (intro allI impI)
    fix a assume a: "gnext g1 + 1 \<le> a"
    then have "a \<notin> dom (lnodes l)" "a \<noteq> gnext g1" using l(3) by auto
    then have "a \<notin> dom (lnodes l')" using l'(3) by simp
    then show "lnodes l' a = None" by (simp add: domIff)
  qed
  let ?g = "g1\<lparr>gnext := gnext g1 + 1\<rparr>"
  from db_put_spec [of ?g p m "EList l'"] g1(2-5) obtain g2 where
    g2: "db_put ?g p (hval m) (EList l') = Some g2" "hm_ok (gdb g2)" "dbv g2 (kof key) = Some (EList l')" "gnext g2 = gnext g1 + 1" by auto
  have "do_push g out [c, key, val] side = Some (SUCCESS, g2, out_int out (of_nat (length as + 1)))"
    using g1(1) l(1) w(1) l'(1,2) g2(1) by (simp add: do_push_def arg_def)
  with g2 l'(4) fr w(2) show ?thesis by metis
qed

theorem do_push_extends_list_witness:
  "\<exists>g' l' as' w. do_push empty_gdata [] [key_a, key_a, key_a] LLIST_SIDE_LEFT = Some (SUCCESS, g', out_int [] 1)
     \<and> dbv g' (kof key_a) = Some (EList l') \<and> list_at l' as' [w] \<and> dstr_bytes w = [97]"
  using do_push_extends_list [OF empty_gdata_ok(1) key_a_ok(1) key_a_ok(1), of "[]" "[]" "[]" key_a LLIST_SIDE_LEFT]
  by (auto simp: empty_gdata_ok(2))

text \<open>C11: \<open>LPOP\<close> and \<open>RPOP\<close> with a positive count return normally, reply with an array of the
  first (last) elements, at most as many as the list has, and leave exactly the other ones.\<close>

theorem do_pop_removes_ends:
  assumes "hm_ok (gdb g)" and "key_ok key" and "dbv g (kof key) = Some (EList l)" and "list_at l as ws" and "ws \<noteq> []"
    and "\<forall>w \<in> set ws. wf_dstr w \<and> dsize w < 2 ^ 32" and "strtol (text_of cnt) = int k" and "0 < k" and "k < 2 ^ 32"
  shows "\<exists>g' l'. do_pop g out [c, key, cnt] side =
       Some (SUCCESS, g', out_arr out (of_nat (min k (length ws))) @ enc_strs (ends side ws (min k (length ws)))) \<and> hm_ok (gdb g')
     \<and> dbv g' = (dbv g)(kof key \<mapsto> EList l') \<and> list_at l' (others side as (min k (length ws))) (others side ws (min k (length ws)))"
proof -
  let ?m = "min k (length ws)"
  have len: "lsize l = of_nat (length ws)" "length ws < 2 ^ 31" using assms(4) list_at_len [OF assms(4)] by (simp_all add: list_at_def)
  have k: "(of_int (int k) :: u32) < of_nat (length ws) \<longleftrightarrow> k < length ws"
    using len(2) assms(9) by (simp add: word_less_nat_alt unat_of_nat)
  obtain p n where n: "db_find g key = Some (p, Some n)" "pkey p \<noteq> None" "pkeyof p = kof key" "hm_abs (gdb g) (kof key) = Some n"
    "vent (hval n) = EList l"
    using db_find_spec [OF assms(1,2)] assms(3) by (auto simp: dbv_def)
  obtain l' where l': "pop_loop ?m side l (out_arr out (of_nat ?m)) = Some (l', out_arr out (of_nat ?m) @ enc_strs (ends side ws ?m))"
    "list_at l' (others side as ?m) (others side ws ?m)"
    using pop_loop_spec [OF assms(4) _ assms(6), of ?m side "out_arr out (of_nat ?m)"] by auto
  from db_put_spec [OF assms(1) n(2), of n "EList l'"] n(3,4) obtain g' where
    g': "db_put g p (hval n) (EList l') = Some g'" "hm_ok (gdb g')" "dbv g' = (dbv g)(kof key \<mapsto> EList l')" by auto
  have "do_pop g out [c, key, cnt] side = Some (SUCCESS, g', out_arr out (of_nat ?m) @ enc_strs (ends side ws ?m))"
  proof (cases "k < length ws")
    case True
    then show ?thesis using n(1,5) l'(1) g'(1) k len sint_small [of k] assms(8) by (simp add: do_pop_def arg_def assms(7))
  next
    case False
    then have "?m = length ws" by simp
    with False show ?thesis using n(1,5) l'(1) g'(1) k len sint_small [of "length ws"] assms(5)
      by (simp add: do_pop_def arg_def assms(7))
  qed
  with g' l'(2) show ?thesis by blast
qed


theorem do_pop_removes_ends_witness:
  "\<exists>g g' l' as'. do_pop g [] [key_a, key_a, \<lparr>dsize = 1, dfree = 0, dbuf = [Some 49, Some 0]\<rparr>] LLIST_SIDE_RIGHT =
       Some (SUCCESS, g', out_arr [] 1 @ enc (RStr [97]))
     \<and> dbv g' (kof key_a) = Some (EList l') \<and> list_at l' as' []"
proof -
  let ?l = "\<lparr>lhead = Some 1, ltail = Some 1, lsize = 1, lnodes = [1 \<mapsto> \<lparr>dprev = None, dnext = None, dval = key_a\<rparr>]\<rparr>"
  let ?n = "\<lparr>hcode = str_hash [97], hkey = key_a, hval = \<lparr>vaddr = 0, vent = EList ?l\<rparr>\<rparr>"
  let ?c = "\<lparr>dsize = 1, dfree = 0, dbuf = [Some 49, Some 0]\<rparr>"
  have nk: "nkey ?n = kof key_a" by (simp add: nkey_def kof_def)
  obtain g where g: "hm_ok (gdb g)" "kept ((dbv empty_gdata)(kof key_a \<mapsto> EList ?l)) (dbv g)"
    using db_insert_spec [of empty_gdata ?n] empty_gdata_ok nk by (auto simp: empty_gdata_def)
  have v: "dbv g (kof key_a) = Some (EList ?l)" using kept_plain [OF g(2), of "kof key_a" "EList ?l"] by simp
  have l: "list_at ?l [1] [key_a]" by (simp add: list_at_def chain_def)
  have "strtol (text_of ?c) = int 1" by code_simp
  from do_pop_removes_ends [OF g(1) key_a_ok(1) v l _ _ this, of "[]" key_a LLIST_SIDE_RIGHT]
  obtain g' l' where "do_pop g [] [key_a, key_a, ?c] LLIST_SIDE_RIGHT = Some (SUCCESS, g', out_arr [] 1 @ enc (RStr [97]))"
    "dbv g' = (dbv g)(kof key_a \<mapsto> EList l')" "list_at l' [] []"
    by (auto simp: ends_def others_def enc_strs_def)
  moreover from this(2) have "dbv g' (kof key_a) = Some (EList l')" by simp
  ultimately show ?thesis by blast
qed


unbundle bit_operations_syntax

section \<open>Bitmaps\<close>

text \<open>A bitmap as the sequence of its bits, the most significant bit of a byte first.\<close>

definition bitmap_bit :: "bytes \<Rightarrow> nat \<Rightarrow> bool" where
  "bitmap_bit bs i \<longleftrightarrow> i div 8 < length bs \<and> bit (bs ! (i div 8)) (7 - i mod 8)"

lemma bitmap_bit_pad: "bitmap_bit (bs @ replicate k 0) = bitmap_bit bs"
  by (rule ext) (auto simp: bitmap_bit_def nth_append)

definition put_bit :: "nat \<Rightarrow> bool \<Rightarrow> u8 \<Rightarrow> u8" where
  "put_bit n v b = (if v then b OR push_bit n 1 else b AND NOT (push_bit n 1))"

lemma bit_put_bit: "n < 8 \<Longrightarrow> bit (put_bit n v b) m \<longleftrightarrow> (if m = n then v else bit b m)"
  by (cases "m < 8") (auto simp: put_bit_def bit_simps dest: bit_imp_le_length)

lemma bitmap_bit_update:
  assumes "i div 8 < length bs"
  shows "bitmap_bit (bs[i div 8 := put_bit (7 - i mod 8) v (bs ! (i div 8))]) = (bitmap_bit bs)(i := v)"
proof
  fix j
  have "j = i" if "j div 8 = i div 8" "7 - j mod 8 = 7 - i mod 8"
  proof -
    have "j mod 8 \<le> 7" "i mod 8 \<le> 7" by simp_all
    with that(2) have "j mod 8 = i mod 8" by linarith
    with that(1) show ?thesis by (metis div_mult_mod_eq)
  qed
  then show "bitmap_bit (bs[i div 8 := put_bit (7 - i mod 8) v (bs ! (i div 8))]) j = ((bitmap_bit bs)(i := v)) j"
    using assms by (auto simp: bitmap_bit_def nth_list_update bit_put_bit)
qed

lemma drop_bit_and_1: "drop_bit n (b :: u8) AND 1 = of_bool (bit b n)"
  by (simp add: and_one_eq bit_iff_odd_drop_bit mod_2_eq_odd)

lemma buf_at_bytes: "wf_dstr s \<Longrightarrow> i < dsize s \<Longrightarrow> buf_at s (int i) = Some (dstr_bytes s ! i)"
proof -
  assume *: "wf_dstr s" "i < dsize s"
  then have "take (dsize s) (dbuf s) ! i \<in> set (take (dsize s) (dbuf s))" by (intro nth_mem) (simp add: wf_dstr_def)
  then have "dbuf s ! i \<noteq> None" using * unfolding wf_dstr_def by (metis nth_take)
  then show ?thesis using * by (auto simp: buf_at_def wf_dstr_def dstr_bytes_def)
qed

lemma dstr_poke:
  assumes "wf_dstr s" and "i < dsize s"
  shows "\<exists>buf. mem_write (dbuf s) i [b] = Some buf \<and> wf_dstr (s\<lparr>dbuf := buf\<rparr>) \<and> dstr_bytes (s\<lparr>dbuf := buf\<rparr>) = (dstr_bytes s)[i := b]"
proof -
  have l: "dsize s < length (dbuf s)" using assms by (simp add: wf_dstr_def)
  then have w: "mem_write (dbuf s) i [b] = Some ((dbuf s)[i := Some b])"
    using assms(2) by (simp add: mem_write_def upd_conv_take_nth_drop)
  have "None \<notin> set (take (dsize s) ((dbuf s)[i := Some b]))"
    using assms set_update_subset_insert [of "take (dsize s) (dbuf s)" i "Some b"] by (auto simp: wf_dstr_def take_update_swap)
  then show ?thesis using assms l w by (auto simp: wf_dstr_def dstr_bytes_def take_update_swap map_update)
qed

lemma bitmap_grow:
  assumes "wf_dstr bm" and "n < MAX_STR_SIZE"
  shows "\<exists>bm'. (if n \<ge> dsize bm then dstr_resize always bm (n + 1) 0 else Some (STR_OK, bm)) = Some (STR_OK, bm') \<and> wf_dstr bm'
     \<and> dsize bm' = max (dsize bm) (n + 1) \<and> bitmap_bit (dstr_bytes bm') = bitmap_bit (dstr_bytes bm)"
proof (cases "n \<ge> dsize bm")
  case True
  then obtain bm' where b: "dstr_resize always bm (n + 1) 0 = Some (STR_OK, bm')" "wf_dstr bm'"
      "dstr_bytes bm' = dstr_bytes bm @ replicate (n + 1 - dsize bm) 0"
    using dstr_resize_grows [OF assms(1), of "n + 1" 0] assms(2) by auto
  from b(3) have "length (dstr_bytes bm') = dsize bm + (n + 1 - dsize bm)" using assms(1) by simp
  then have "dsize bm' = n + 1" using b(2) True by simp
  then show ?thesis using b True bitmap_bit_pad by auto
qed (use assms in auto)

section \<open>Properties of the bitmap commands\<close>

text \<open>C13: \<open>SETBIT\<close> at any index below \<open>2 ^ 32\<close> returns normally, replies with the previous bit,
  changes exactly that bit, grows the bitmap with zero bytes just as far as needed, and
  \<open>GETBIT\<close> then replies with the new bit.\<close>

theorem do_setbit_updates_bit:
  assumes "hm_ok (gdb g)" and "key_ok key"
    and "case dbv g (kof key) of None \<Rightarrow> bs = [] | Some e \<Rightarrow> \<exists>bm. e = EBitmap bm \<and> wf_dstr bm \<and> dstr_bytes bm = bs"
    and "strtol (text_of pos) = int i" and "i < 2 ^ 32" and "text_of val = [if v then 49 else 48]"
  shows "\<exists>g' bm'. do_setbit g out [c, key, pos, val] = Some (SUCCESS, g', out_int out (of_bool (bitmap_bit bs i))) \<and> hm_ok (gdb g')
     \<and> dbv g' (kof key) = Some (EBitmap bm') \<and> wf_dstr bm' \<and> dsize bm' = max (length bs) (i div 8 + 1)
     \<and> bitmap_bit (dstr_bytes bm') = (bitmap_bit bs)(i := v)
     \<and> do_getbit g' out' [c', key, pos] = Some (SUCCESS, g', out_int out' (of_bool v))"
proof -
  obtain b0 where b0: "dstr_init always 0 = Inr b0" by (simp add: dstr_init_def)
  have wf0: "wf_dstr b0" "dstr_bytes b0 = []" using wf_dstr_init b0 by auto
  from db_get_or_new_spec [OF assms(1,2), of "EBitmap b0"] obtain g1 p m where
    g1: "db_get_or_new g key (EBitmap b0) = Some (g1, p, hval m)" "hm_ok (gdb g1)" "pkey p \<noteq> None" "pkeyof p = kof key"
      "hm_abs (gdb g1) (kof key) = Some m" "vent (hval m) = (case dbv g (kof key) of None \<Rightarrow> EBitmap b0 | Some x \<Rightarrow> x)"
    by auto
  then obtain bm where bm: "vent (hval m) = EBitmap bm" "wf_dstr bm" "dstr_bytes bm = bs"
    using assms(3) wf0 by (auto split: option.splits)
  let ?n = "i div 8" and ?k = "7 - i mod 8"
  have n: "?n < MAX_STR_SIZE" using assms(5) by (simp add: MAX_STR_SIZE_def)
  obtain b1 where b1: "(if ?n \<ge> dsize bm then dstr_resize always bm (?n + 1) 0 else Some (STR_OK, bm)) = Some (STR_OK, b1)"
    "wf_dstr b1" "dsize b1 = max (dsize bm) (?n + 1)" "bitmap_bit (dstr_bytes b1) = bitmap_bit bs"
    using bitmap_grow [OF bm(2) n] bm(3) by blast
  let ?b = "dstr_bytes b1 ! ?n"
  have lt: "?n < dsize b1" using b1(3) by simp
  obtain buf where buf: "mem_write (dbuf b1) ?n [put_bit ?k v ?b] = Some buf" "wf_dstr (b1\<lparr>dbuf := buf\<rparr>)"
    "dstr_bytes (b1\<lparr>dbuf := buf\<rparr>) = (dstr_bytes b1)[?n := put_bit ?k v ?b]" using dstr_poke [OF b1(2) lt] by blast
  let ?b2 = "b1\<lparr>dbuf := buf\<rparr>"
  from db_put_spec [OF g1(2,3), of m "EBitmap ?b2"] g1(4,5) obtain g2 where
    g2: "db_put g1 p (hval m) (EBitmap ?b2) = Some g2" "hm_ok (gdb g2)" "dbv g2 (kof key) = Some (EBitmap ?b2)" by auto
  have bit: "bit ?b ?k = bitmap_bit bs i" using b1(2,4) lt by (metis bitmap_bit_def length_dstr_bytes)
  have idx: "nat (int i div 8) = ?n" "nat (7 - int i mod 8) = ?k" by (simp_all add: nat_div_distrib nat_diff_distrib nat_mod_distrib)
  have at: "buf_at b1 (int i div 8) = Some ?b" "0 \<le> int i div 8" using buf_at_bytes [OF b1(2) lt] by (simp_all add: zdiv_int)
  have "do_setbit g out [c, key, pos, val] = Some (SUCCESS, g2, out_int out (of_bool (bitmap_bit bs i)))"
    using b0 g1(1) bm(1) b1(1) buf(1) g2(1) at assms(5) bit
    by (cases v; simp add: do_setbit_def arg_def assms(4,6) idx drop_bit_and_1 put_bit_def Let_def cong: if_cong)
  moreover have upd: "bitmap_bit (dstr_bytes ?b2) = (bitmap_bit bs)(i := v)"
    using bitmap_bit_update [of i "dstr_bytes b1" v] b1(2,4) lt buf(3) by simp
  moreover have "do_getbit g2 out' [c', key, pos] = Some (SUCCESS, g2, out_int out' (of_bool v))"
  proof -
    obtain q n' where f: "db_find g2 key = Some (q, Some n')" "vent (hval n') = EBitmap ?b2"
      using db_find_spec [OF g2(2) assms(2)] g2(3) by (auto simp: dbv_def)
    have u: "unat (of_int (int i div 8) :: u32) = ?n" 
    proof -
      have "(of_int (int i div 8) :: u32) = of_nat ?n" by (metis of_int_of_nat_eq zdiv_int of_nat_numeral)
      then show ?thesis using assms(5) by (simp add: unat_of_nat)
    qed
    have "bit (dstr_bytes ?b2 ! ?n) ?k = v" using fun_cong [OF upd, of i] buf(2) lt by (auto simp: bitmap_bit_def)
    moreover have "int i div 8 < int (dsize b1)" using lt by linarith
    moreover have "buf_at ?b2 (int ?n) = Some (dstr_bytes ?b2 ! ?n)" "0 \<le> int i div 8"
      using buf_at_bytes [OF buf(2), of ?n] lt by (simp_all add: zdiv_int)
    ultimately show ?thesis using f
      by (simp add: do_getbit_def with_bitmap_def arg_def assms(4) u idx drop_bit_and_1)
  qed
  ultimately show ?thesis using g2 buf(2) b1(3) bm(2,3) by (intro exI [of _ g2] exI [of _ ?b2]) auto
qed


theorem do_setbit_updates_bit_witness:
  "\<exists>g' bm'. do_setbit empty_gdata [] [key_a, key_a, \<lparr>dsize = 1, dfree = 0, dbuf = [Some 57, Some 0]\<rparr>, \<lparr>dsize = 1, dfree = 0, dbuf = [Some 49, Some 0]\<rparr>]
       = Some (SUCCESS, g', out_int [] 0) \<and> dbv g' (kof key_a) = Some (EBitmap bm') \<and> dsize bm' = 2"
proof -
  let ?p = "\<lparr>dsize = 1, dfree = 0, dbuf = [Some 57, Some 0]\<rparr>" and ?v = "\<lparr>dsize = 1, dfree = 0, dbuf = [Some 49, Some 0]\<rparr>"
  have "strtol (text_of ?p) = int 9" "text_of ?v = [if True then 49 else 48]" by code_simp+
  with do_setbit_updates_bit [OF empty_gdata_ok(1) key_a_ok(1), of "[]" ?p 9 ?v True "[]" key_a] show ?thesis
    by (fastforce simp: empty_gdata_ok(2) bitmap_bit_def)
qed

section \<open>Properties of the sorted set commands\<close>

lemma do_zscore_spec:
  assumes "hm_ok (gdb g)" and "key_ok key" and "key_ok member" and "dbv g (kof key) = Some (EZSet z)" and "zset_inv z T"
  shows "do_zscore g out [c, key, member] =
     Some (SUCCESS, g, case zabs z (kof member) of None \<Rightarrow> out_null out | Some s \<Rightarrow> out_double out s)"
proof -
  obtain p n where n: "db_find g key = Some (p, Some n)" "vent (hval n) = EZSet z"
    using db_find_spec [OF assms(1,2)] assms(4) by (auto simp: dbv_def)
  show ?thesis
  proof (cases "hm_abs (zhmap z) (kof member)")
    case None
    then show ?thesis using n zset_lookup_spec [OF assms(5,3)] by (simp add: do_zscore_def arg_def find_zset_def zabs_def)
  next
    case (Some m)
    obtain zn where "znodes z (hval m) = Some zn" using zset_inv_hm [OF assms(5) Some] by blast
    then show ?thesis using Some n zset_lookup_spec [OF assms(5,3)] by (simp add: do_zscore_def arg_def find_zset_def zabs_def)
  qed
qed

text \<open>C12: \<open>ZADD\<close> returns normally for every score text that is not read as a NaN, creates the set
  where the key is missing, replies 1 exactly when the member is new, updates exactly that
  member's score, and keeps the set well-formed; \<open>ZSCORE\<close> then replies with the score.\<close>

theorem do_zadd_zscore_roundtrip:
  assumes "hm_ok (gdb g)" and "key_ok key" and "key_ok member" and "\<not> is_nan (strtod (text_of sc))" and "size T + 1 < 2 ^ 31"
    and "case dbv g (kof key) of None \<Rightarrow> z = new_zset \<and> T = Leaf
       | Some e \<Rightarrow> e = EZSet z \<and> zset_inv z T \<and> (\<forall>a \<ge> gnext g. a \<notin> dom (znodes z))"
  shows "\<exists>g' z' T'. do_zadd g out [c, key, sc, member] = Some (SUCCESS, g', out_int out (of_bool (zabs z (kof member) = None)))
     \<and> hm_ok (gdb g') \<and> dbv g' (kof key) = Some (EZSet z') \<and> zset_inv z' T'
     \<and> zabs z' = (zabs z)(kof member \<mapsto> strtod (text_of sc))
     \<and> do_zscore g' out' [c', key, member] = Some (SUCCESS, g', out_double out' (strtod (text_of sc)))"
proof -
  have new: "ent_clear (EZSet new_zset) = EZSet new_zset"
    using del_avl_tree_spec [of "zavl new_zset" None None Leaf] by (simp add: ent_clear_def zset_clear_def new_zset_def hm_clear_def)
  from db_get_or_new_spec [OF assms(1,2) new] obtain g1 p m where
    g1: "db_get_or_new g key (EZSet new_zset) = Some (g1, p, hval m)" "hm_ok (gdb g1)" "pkey p \<noteq> None" "pkeyof p = kof key"
      "hm_abs (gdb g1) (kof key) = Some m" "vent (hval m) = (case dbv g (kof key) of None \<Rightarrow> EZSet new_zset | Some x \<Rightarrow> x)" "gnext g \<le> gnext g1"
    by auto
  have "znodes new_zset = Map.empty" by (simp add: new_zset_def)
  then have z: "vent (hval m) = EZSet z" "zset_inv z T" "gnext g1 \<notin> dom (znodes z)"
    using assms(6) g1(6,7) zset_inv_new by (auto split: option.splits)
  obtain z' T' where z': "zset_insert z (gnext g1) (strtod (text_of sc)) member = Some (zabs z (kof member) = None, z')" "zset_inv z' T'"
    "zabs z' = (zabs z)(kof member \<mapsto> strtod (text_of sc))"
    using zset_insert_spec [OF z(2) assms(3,4) z(3) assms(5)] by blast
  let ?g = "g1\<lparr>gnext := gnext g1 + 1\<rparr>"
  from db_put_spec [of ?g p m "EZSet z'"] g1(2-5) obtain g2 where
    g2: "db_put ?g p (hval m) (EZSet z') = Some g2" "hm_ok (gdb g2)" "dbv g2 (kof key) = Some (EZSet z')" by auto
  have "do_zadd g out [c, key, sc, member] = Some (SUCCESS, g2, out_int out (of_bool (zabs z (kof member) = None)))"
    using g1(1) z(1) z'(1) g2(1) by (simp add: do_zadd_def arg_def Let_def)
  moreover have "do_zscore g2 out' [c', key, member] = Some (SUCCESS, g2, out_double out' (strtod (text_of sc)))"
    using do_zscore_spec [OF g2(2) assms(2,3) g2(3) z'(2)] z'(3) by simp
  ultimately show ?thesis using g2 z' by blast
qed

theorem do_zadd_zscore_roundtrip_witness:
  "\<exists>g'. do_zadd empty_gdata [] [key_a, key_a, \<lparr>dsize = 3, dfree = 0, dbuf = [Some 105, Some 110, Some 102, Some 0]\<rparr>, key_a]
       = Some (SUCCESS, g', out_int [] 1)
     \<and> do_zscore g' [] [key_a, key_a, key_a] = Some (SUCCESS, g', out_double [] 0x7FF0000000000000)"
proof -
  let ?s = "\<lparr>dsize = 3, dfree = 0, dbuf = [Some 105, Some 110, Some 102, Some 0]\<rparr>"
  have s: "strtod (text_of ?s) = 0x7FF0000000000000" by code_simp
  have e: "zabs new_zset k = None" for k by (simp add: zabs_def new_zset_def)
  have "\<not> is_nan (strtod (text_of ?s))" by (simp add: s is_nan_def)
  from do_zadd_zscore_roundtrip [OF empty_gdata_ok(1) key_a_ok(1) key_a_ok(1) this, of Leaf new_zset "[]" key_a "[]" key_a] show ?thesis
    by (auto simp: empty_gdata_ok(2) e s)
qed

end
