(* ===== verification/Queries.thy ===== *)
theory Queries
  imports Commands
begin

text \<open>The read-only queries over whole containers: \<open>LRANGE\<close> walks a list from either end, \<open>ZQUERY\<close> a window of a sorted
  set in rank order, \<open>BITCOUNT\<close> a stretch of a bitmap; and \<open>ZREM\<close>, the removal from a sorted set. Each is shown equal to a
  slice, a window or a cardinality over the abstract contents.\<close>

section \<open>Walking a list\<close>

lemma chain_split:
  assumes "chain s as" and "Suc i < length as"
  shows "nextof s (as ! i) = Some (as ! Suc i) \<and> prevof s (as ! Suc i) = Some (as ! i)"
proof -
  have "as = take i as @ as ! i # as ! Suc i # drop (Suc (Suc i)) as"
    using assms(2) by (simp add: Cons_nth_drop_Suc)
  moreover have "links s as" using assms(1) by (simp add: chain_def)
  ultimately show ?thesis using links_adjacent [of s "take i as"] by metis
qed

lemma chain_node: "chain s as \<Longrightarrow> i < length as \<Longrightarrow> \<exists>n. s (as ! i) = Some n"
  unfolding chain_def by (metis domD nth_mem subsetD)

definition elem_at :: "'a list \<Rightarrow> nat \<Rightarrow> 'a option" where
  "elem_at xs i = (if i < length xs then Some (xs ! i) else None)"

lemma chain_next:
  assumes "chain s as" and "i < length as" and "s (as ! i) = Some n"
  shows "dnext n = elem_at as (Suc i)"
proof (cases "Suc i < length as")
  case True
  then show ?thesis using chain_split [OF assms(1) True] assms(3) by (simp add: elem_at_def)
next
  case False
  then have "i = length as - 1" "as \<noteq> []" using assms(2) by auto
  then have "last as = as ! i" by (simp add: last_conv_nth)
  moreover have "nextof s (last as) = None" using assms(1,2) by (auto simp: chain_def)
  ultimately show ?thesis using False assms(3) by (simp add: elem_at_def)
qed

lemma step_next_chain: "chain s as \<Longrightarrow> i + k < length as \<Longrightarrow> step_next k s (elem_at as i) = Some (elem_at as (i + k))"
proof (induction k arbitrary: i)
  case (Suc k)
  obtain n where n: "s (as ! i) = Some n" using chain_node [of s as i] Suc.prems by auto
  with Suc chain_next [of s as i n] show ?case by (simp add: elem_at_def [of _ i])
qed simp

lemma step_prev_chain: "chain s as \<Longrightarrow> i + k < length as \<Longrightarrow> step_prev k s (elem_at as (i + k)) = Some (elem_at as i)"
proof (induction k)
  case (Suc k)
  obtain n where n: "s (as ! Suc (i + k)) = Some n" using chain_node [of s as "Suc (i + k)"] Suc.prems by auto
  have "dprev n = elem_at as (i + k)" using chain_split [OF Suc.prems(1), of "i + k"] n Suc.prems(2) by (simp add: elem_at_def)
  with n Suc show ?case by (simp add: elem_at_def [of _ "Suc (i + k)"])
qed simp

lemma range_loop_chain:
  assumes "chain s as" and "map (vals s) as = map Some ws" and "\<forall>w \<in> set ws. wf_dstr w \<and> dsize w < 2 ^ 32"
  shows "i \<le> length as \<Longrightarrow> range_loop k s (elem_at as i) out = (if i + k \<le> length as then Some (out @ enc_strs (take k (drop i ws))) else None)"
proof (induction k arbitrary: i out)
  case (Suc k)
  have len: "length ws = length as" using arg_cong [OF assms(2), of length] by simp
  show ?case
  proof (cases "i < length as")
    case True
    then obtain n where n: "s (as ! i) = Some n" using chain_node [OF assms(1)] by blast
    have "map (vals s) as ! i = map Some ws ! i" by (simp only: assms(2))
    then have v: "dval n = ws ! i" using True n len by simp
    have "wf_dstr (ws ! i)" "dsize (ws ! i) < 2 ^ 32" using assms(3) True len by auto
    then have "out_dstr out (dval n) = Some (out @ enc (RStr (dstr_bytes (ws ! i))))" by (simp add: v out_dstr_enc)
    moreover have "drop i ws = ws ! i # drop (Suc i) ws" using True len by (simp add: Cons_nth_drop_Suc)
    ultimately show ?thesis using True n Suc.IH [of "Suc i"] chain_next [OF assms(1) True n]
      by (simp add: elem_at_def [of _ i] enc_strs_def)
  qed (use Suc.prems in \<open>simp add: elem_at_def\<close>)
qed (simp add: enc_strs_def)

lemma list_ends: "list_at l as ws \<Longrightarrow> as \<noteq> [] \<Longrightarrow> lhead l = elem_at as 0 \<and> ltail l = elem_at as (length as - 1)"
  by (simp add: list_at_def elem_at_def hd_conv_nth last_conv_nth)

text \<open>The index as \<open>do_lrange\<close> reads it: from the end where it is negative.\<close>

definition from_end :: "int \<Rightarrow> int \<Rightarrow> int" where
  "from_end n i = (if i < 0 then i + n else i)"

lemma sint_u32: "- (2 ^ 31) \<le> i \<Longrightarrow> i < 2 ^ 31 \<Longrightarrow> sint (of_int i :: u32) = i"
  using wrap32_ok [of i] by (simp add: wrap32_def)

lemma lrange_index:
  assumes "n < 2 ^ 31" and "- (2 ^ 31) \<le> i" and "i < 2 ^ 31"
  shows "(if i < 0 then sint (of_nat n + of_int i :: u32) else i) = from_end (int n) i"
    and "(of_nat n :: u32) \<le> of_int (from_end (int n) i) \<longleftrightarrow> from_end (int n) i < 0 \<or> int n \<le> from_end (int n) i"
proof -
  have "(of_nat n + of_int i :: u32) = of_int (int n + i)" by simp
  then have "sint (of_nat n + of_int i :: u32) = int n + i" if "i < 0" using sint_u32 [of "int n + i"] assms that by (simp del: of_int_add)
  then show "(if i < 0 then sint (of_nat n + of_int i :: u32) else i) = from_end (int n) i" by (simp add: from_end_def)
  define s where "s = from_end (int n) i"
  have s: "- (2 ^ 31) \<le> s" "s < 2 ^ 31" using assms by (auto simp: s_def from_end_def)
  have u: "uint (of_int s :: u32) = (if s < 0 then s + 2 ^ 32 else s)" using s
    by (simp add: uint_word_of_int) (smt (verit) mod_add_self2 mod_pos_pos_trivial)
  have "uint (of_nat n :: u32) = int n" using assms(1) by (simp add: uint_nat unat_of_nat)
  then have "(of_nat n :: u32) \<le> of_int s \<longleftrightarrow> s < 0 \<or> int n \<le> s" using u s assms(1) by (simp add: word_le_def)
  then show "(of_nat n :: u32) \<le> of_int (from_end (int n) i) \<longleftrightarrow> from_end (int n) i < 0 \<or> int n \<le> from_end (int n) i" by (simp add: s_def)
qed

lemma lrange_count:
  assumes "n < 2 ^ 31" and "d < 2 ^ 31"
  shows "min (of_int (max 0 d)) (of_nat n) = (of_nat (nat (min (max 0 d) (int n))) :: u32)"
proof -
  define m where "m = nat (max 0 d)"
  have "m < 2 ^ 31" using assms(2) by (simp add: m_def)
  then have "(of_nat m :: u32) \<le> of_nat n \<longleftrightarrow> m \<le> n" using assms(1) by (simp add: word_le_nat_alt unat_of_nat)
  moreover have "of_int (max 0 d) = (of_nat m :: u32)" "nat (min (max 0 d) (int n)) = min m n" by (auto simp: m_def)
  ultimately show ?thesis by (simp add: min_def)
qed

lemma lrange_begin:
  assumes "list_at l as ws" and "i < length as"
  shows "(if (of_nat i :: u32) < lsize l - of_nat i - 1 then step_prev (unat (lsize l - of_nat i - 1)) (lnodes l) (ltail l)
     else step_next (unat (of_nat i :: u32)) (lnodes l) (lhead l)) = Some (elem_at as i)"
proof -
  let ?k = "length as - 1 - i"
  have c: "chain (lnodes l) as" and n: "lsize l = of_nat (length as)" "length as < 2 ^ 31" using assms(1) by (simp_all add: list_at_def)
  have e: "lhead l = elem_at as 0" "ltail l = elem_at as (i + ?k)" using list_ends [OF assms(1)] assms(2) by (cases "as = []"; simp)+
  have r: "lsize l - of_nat i - 1 = (of_nat ?k :: u32)" using n(1) assms(2) by (simp add: of_nat_diff)
  have "unat (of_nat ?k :: u32) = ?k" "unat (of_nat i :: u32) = i" using n(2) assms(2) by (intro unat_length; simp)+
  then show ?thesis using step_prev_chain [OF c, of i ?k] step_next_chain [OF c, of 0 i] assms(2) by (simp only: r e if_split) simp
qed

text \<open>\<open>LRANGE\<close> counts negative indices from the end, refuses a start outside the list, and otherwise replies with
  the elements from the start on, as many as the distance to the end index says but no more than the list has.  The
  start is not subtracted from that limit: where the range reaches past the last element, and does not start at the
  first, the loop follows the NULL pointer behind the last node.\<close>

lemma do_lrange_slice:
  assumes "hm_ok (gdb g)" and "key_ok key" and "dbv g (kof key) = Some (EList l)" and "list_at l as ws"
    and "\<forall>w \<in> set ws. wf_dstr w \<and> dsize w < 2 ^ 32"
    and a: "strtol (text_of sa) = a" "- (2 ^ 31) \<le> a" "a < 2 ^ 31" and b: "strtol (text_of sb) = b" "- (2 ^ 31) \<le> b" "b < 2 ^ 31 - 1"
    and s: "s = from_end (int (length ws)) a" and e: "e = from_end (int (length ws)) b"
    and k: "k = nat (min (max 0 (e - s + 1)) (int (length ws)))"
  shows "do_lrange g out [c, key, sa, sb] =
     (if s < 0 \<or> int (length ws) \<le> s then fail g out OUT_OF_RANGE ''index out of range''
      else if nat s + k \<le> length ws then Some (SUCCESS, g, out_arr out (of_nat k) @ enc_strs (take k (drop (nat s) ws)))
      else None)"
proof -
  obtain p n where n: "db_find g key = Some (p, Some n)" "vent (hval n) = EList l"
    using db_find_spec [OF assms(1,2)] assms(3) by (auto simp: dbv_def)
  have len: "length as = length ws" by (rule list_at_len [OF assms(4)])
  have sz: "lsize l = of_nat (length ws)" "length ws < 2 ^ 31" using assms(4) len by (simp_all add: list_at_def)
  have w: "wrap32 a = a" "wrap32 b = b" using a b by (simp_all add: wrap32_ok)
  have s': "(if a < 0 then sint (lsize l + of_int a) else a) = s" "lsize l \<le> of_int s \<longleftrightarrow> s < 0 \<or> int (length ws) \<le> s"
    using lrange_index [OF sz(2) a(2,3)] by (simp_all only: s sz(1))
  have e': "(if b < 0 then sint (lsize l + of_int b) else b) = e"
    using lrange_index(1) [OF sz(2) b(2)] b(3) by (simp only: e sz(1))
  let ?first = "if (of_int s :: u32) < lsize l - of_int s - 1 then step_prev (unat (lsize l - of_int s - 1)) (lnodes l) (ltail l)
     else step_next (unat (of_int s :: u32)) (lnodes l) (lhead l)"
  have body: "do_lrange g out [c, key, sa, sb] =
     (if s < 0 \<or> int (length ws) \<le> s then fail g out OUT_OF_RANGE ''index out of range''
      else do {
        start \<leftarrow> ?first;
        d \<leftarrow> chk32 (e - s);
        d \<leftarrow> chk32 (d + 1);
        let sz = min (of_int (max 0 d)) (lsize l);
        out \<leftarrow> range_loop (unat sz) (lnodes l) start (out_arr out sz);
        Some (SUCCESS, g, out)
      })"
    using n by (simp add: do_lrange_def arg_def Let_def w s' e' a(1) b(1) cong: if_cong split del: if_split)
  show ?thesis
  proof (cases "s < 0 \<or> int (length ws) \<le> s")
    case True
    then show ?thesis by (simp add: body)
  next
    case False
    then obtain i where i: "s = int i" "i < length ws" by (metis not_le zero_le_imp_eq_int of_nat_less_iff)
    have d: "chk32 (e - s) = Some (e - s)" "chk32 (e - s + 1) = Some (e - s + 1)"
      using b i sz(2) by (auto simp: chk32_def from_end_def e)
    have m: "min (of_int (max 0 (e - s + 1))) (lsize l) = (of_nat k :: u32)"
      using lrange_count [OF sz(2), of "e - s + 1"] d(2) by (simp add: k sz(1) chk32_def split: if_splits)
    have "k \<le> length ws" by (simp add: k)
    then have u: "unat (of_nat k :: u32) = k" using sz(2) by (intro unat_length) simp
    have r: "range_loop k (lnodes l) (elem_at as i) (out_arr out (of_nat k))
       = (if i + k \<le> length as then Some (out_arr out (of_nat k) @ enc_strs (take k (drop i ws))) else None)"
      using range_loop_chain [of "lnodes l" as ws i k] assms(4,5) i(2) len by (simp add: list_at_def)
    have "?first = Some (elem_at as i)" using lrange_begin [OF assms(4), of i] i len by (simp cong: if_cong split del: if_split)
    with False show ?thesis unfolding body i(1) by (simp add: d [unfolded i(1)] m [unfolded i(1)] u r len Let_def split del: if_split) simp
  qed
qed

text \<open>A keyspace with one entry.\<close>

lemma one_entry:
  assumes "key_ok key"
  shows "\<exists>g. hm_ok (gdb g) \<and> dbv g = [kof key \<mapsto> e]"
proof -
  have e: "dbv empty_gdata = Map.empty" using empty_gdata_ok(2) by (simp add: fun_eq_iff)
  obtain g p n where g: "hm_ok (gdb g)" "pkey p \<noteq> None" "pkeyof p = kof key" "hm_abs (gdb g) (kof key) = Some n"
      "kept [kof key \<mapsto> EStr key] (dbv g)"
    using db_get_or_new_spec [OF empty_gdata_ok(1) assms, of "EStr key"] by (auto simp: e)
  have "dbv g k = None" if "k \<noteq> kof key" for k using kept_none [OF g(5), of k] that by simp
  then have "(dbv g)(kof key \<mapsto> e) = [kof key \<mapsto> e]" by auto
  then show ?thesis using db_put_spec [OF g(1,2), of n e] g(3,4) by auto
qed

definition ab_list :: llist where
  "ab_list = \<lparr>lhead = Some 1, ltail = Some 2, lsize = 2,
     lnodes = [1 \<mapsto> \<lparr>dprev = None, dnext = Some 2, dval = key_a\<rparr>, 2 \<mapsto> \<lparr>dprev = Some 1, dnext = None, dval = key_a\<rparr>]\<rparr>"

definition num_1 :: dstr where
  "num_1 = \<lparr>dsize = 1, dfree = 0, dbuf = [Some 49, Some 0]\<rparr>"

lemma do_lrange_slice_witness:
  "\<exists>g. do_lrange g [] [key_a, key_a, num_1, num_1] = Some (SUCCESS, g, out_arr [] 1 @ enc (RStr [97]))"
proof -
  have l: "list_at ab_list [1, 2] [key_a, key_a]" by (simp add: list_at_def chain_def ab_list_def)
  obtain g where g: "hm_ok (gdb g)" "dbv g = [kof key_a \<mapsto> EList ab_list]" using one_entry [of key_a "EList ab_list"] by auto
  then have v: "dbv g (kof key_a) = Some (EList ab_list)" by simp
  have n: "strtol (text_of num_1) = 1" by code_simp
  from do_lrange_slice [OF g(1) key_a_ok(1) v l _ n _ _ n _ _ refl refl refl, of "[]" key_a] have
    "do_lrange g [] [key_a, key_a, num_1, num_1] = Some (SUCCESS, g, out_arr [] 1 @ enc_strs [key_a])"
    by (simp add: from_end_def)
  then show ?thesis by (auto simp: enc_strs_def)
qed

text \<open>\<open>LRANGE key 1 2\<close> on a list of two elements.\<close>

definition num_2 :: dstr where
  "num_2 = \<lparr>dsize = 1, dfree = 0, dbuf = [Some 50, Some 0]\<rparr>"

lemma do_lrange_past_end:
  assumes "hm_ok (gdb g)" and "dbv g (kof key_a) = Some (EList ab_list)"
  shows "do_lrange g out [c, key_a, num_1, num_2] = None"
proof -
  have l: "list_at ab_list [1, 2] [key_a, key_a]" by (simp add: list_at_def chain_def ab_list_def)
  have n: "strtol (text_of num_1) = 1" "strtol (text_of num_2) = 2" by code_simp+
  show ?thesis
    using do_lrange_slice [OF assms(1) key_a_ok(1) assms(2) l _ n(1) _ _ n(2) _ _ refl refl refl] by (simp add: from_end_def)
qed

section \<open>Sorted set queries\<close>

definition enc_pair :: "ZSet \<Rightarrow> addr \<Rightarrow> bytes" where
  "enc_pair z a = (case znodes z a of None \<Rightarrow> [] | Some zn \<Rightarrow> enc (RDbl (zscore zn)) @ enc (RStr (dstr_bytes (zkey zn))))"

lemma find_takeWhile: "find (\<lambda>x. \<not> P x) xs = elem_at xs (length (takeWhile P xs))"
  by (induction xs) (auto simp: elem_at_def)

lemma zset_offset_elem:
  assumes "zset_inv z T" and "i < size T"
  shows "zset_offset z (inorder T ! i) offset =
     Some (if 0 \<le> int i + offset then elem_at (inorder T) (nat (int i + offset)) else None)"
proof -
  have I: "rep (zavl z) None (avl_root z) T" "distinct (inorder T)" "size T < 2 ^ 31" using assms(1) by (simp_all add: zset_inv_def)
  have "inorder T ! i \<in> set (inorder T)" using assms(2) by (intro nth_mem) simp
  then obtain j where j: "j < size T" "inorder T ! j = inorder T ! i" "zset_offset z (inorder T ! i) offset =
     Some (if 0 \<le> int j + offset \<and> int j + offset < int (size T) then Some (inorder T ! nat (int j + offset)) else None)"
    using zset_offset_spec [OF I] by fastforce
  then have "j = i" using I(2) assms(2) by (simp add: nth_eq_iff_index_eq)
  with j(3) show ?thesis by (auto simp: elem_at_def)
qed

lemma zquery_loop_spec:
  assumes inv: "zset_inv z T"
  shows "j \<le> i \<Longrightarrow> i \<le> size T \<Longrightarrow> k = min (size T - i) ((unat limit + 1) div 2 - j) \<Longrightarrow>
    zquery_loop z (elem_at (inorder T) i) (of_nat (2 * j)) limit out =
     Some (of_nat (2 * (j + k)), out @ concat (map (enc_pair z) (take k (drop i (inorder T)))))"
proof (induction "size T - i" arbitrary: i j k out)
  case 0
  then show ?case by (subst zquery_loop.simps) (simp add: elem_at_def)
next
  case (Suc m)
  then have i: "i < size T" by simp
  have n: "size T < 2 ^ 31" using inv by (simp add: zset_inv_def)
  then have u: "unat (of_nat (2 * j) :: u32) = 2 * j" using Suc.prems(1) i by (intro unat_length) simp
  then have lim: "(of_nat (2 * j) :: u32) < limit \<longleftrightarrow> j < (unat limit + 1) div 2" by (simp add: word_less_nat_alt) presburger
  let ?a = "inorder T ! i"
  have at: "elem_at (inorder T) i = Some ?a" using i by (simp add: elem_at_def)
  show ?case
  proof (cases "j < (unat limit + 1) div 2")
    case False
    then show ?thesis using lim Suc.prems(3) by (subst zquery_loop.simps) (simp add: at)
  next
    case True
    have "?a \<in> set_tree T" using i by (metis nth_mem length_inorder set_inorder)
    then obtain zn where zn: "znodes z ?a = Some zn" using inv by (auto simp: zset_inv_def)
    have "wf_dstr (zkey zn)" "dsize (zkey zn) < 2 ^ 32" using zset_inv_node [OF inv zn] by (auto simp: key_ok_def MAX_STR_SIZE_def)
    then have o: "out_dstr (out_double out (zscore zn)) (zkey zn) = Some (out @ enc_pair z ?a)"
      by (simp add: out_dstr_enc enc_pair_def zn out_double_def buf_defs)
    have off: "zset_offset z ?a 1 = Some (elem_at (inorder T) (Suc i))" using zset_offset_elem [OF inv i, of 1] by (simp add: nat_add_distrib)
    have k: "k = Suc (k - 1)" using Suc.prems(3) True i by simp
    have dr: "drop i (inorder T) = ?a # drop (Suc i) (inorder T)" using i by (simp add: Cons_nth_drop_Suc)
    have "zquery_loop z (elem_at (inorder T) (Suc i)) (of_nat (2 * Suc j)) limit (out @ enc_pair z ?a) =
       Some (of_nat (2 * (Suc j + (k - 1))), (out @ enc_pair z ?a) @ concat (map (enc_pair z) (take (k - 1) (drop (Suc i) (inorder T)))))"
      by (rule Suc.hyps(1)) (use Suc.hyps(2) Suc.prems i in \<open>auto simp: min_def\<close>)
    moreover have "(of_nat (2 * j) + 2 :: u32) = of_nat (2 * Suc j)" by simp
    moreover have "take k (drop i (inorder T)) = ?a # take (k - 1) (drop (Suc i) (inorder T))" by (subst k) (simp add: dr)
    moreover have "Suc j + (k - 1) = j + k" using k by simp
    ultimately show ?thesis using lim True by (subst zquery_loop.simps) (simp add: at zn o off del: of_nat_mult of_nat_Suc)
  qed
qed

lemma put_unknown_arr:
  "out_unknown_arr out = (size_pos, out1) \<Longrightarrow> put_u32 (out1 @ body) size_pos v = Some (out_arr out v @ body)"
  by (auto simp: out_unknown_arr_def put_u32_def out_arr_def buf_defs Let_def)

text \<open>\<open>ZQUERY\<close> replies with the (score, name) pairs of consecutive members in rank order, starting \<open>offset\<close> ranks
  (forwards or backwards) from the first member that is not below the given pair, until the members end or half the limit,
  rounded up, is reached; the length of the array counts both halves of a pair.  The query ends, faults nowhere and
  changes nothing.\<close>

lemma do_zrangequery_window:
  assumes "hm_ok (gdb g)" and "key_ok key" and "key_ok lb" and "dbv g (kof key) = Some (EZSet z)" and inv: "zset_inv z T"
    and "\<not> is_nan (strtod (text_of sc))" and off: "strtol (text_of so) = off" "- (2 ^ 31) \<le> off" "off < 2 ^ 31"
    and nl: "strtol (text_of sl) = int nl" "nl < 2 ^ 32"
    and i: "i = length (takeWhile (\<lambda>a. zord z a < (dbl_key (strtod (text_of sc)), dstr_bytes lb)) (inorder T))"
    and w: "w = (if i < size T \<and> 0 \<le> int i + off then take ((nl + 1) div 2) (drop (nat (int i + off)) (inorder T)) else [])"
  shows "do_zrangequery g out [c, key, sc, lb, so, sl] =
     Some (SUCCESS, g, out_arr out (of_nat (2 * length w)) @ concat (map (enc_pair z) w))"
proof -
  obtain p n where n: "db_find g key = Some (p, Some n)" "vent (hval n) = EZSet z"
    using db_find_spec [OF assms(1,2)] assms(4) by (auto simp: dbv_def)
  have o: "wrap32 off = off" using off by (simp add: wrap32_ok)
  have l: "unat (of_int (int nl) :: u32) = nl" using unat_length [OF nl(2)] by simp
  have lb: "zset_lower_bound z (strtod (text_of sc)) lb = Some (elem_at (inorder T) i)"
    using zset_lower_bound_spec [OF inv assms(3,6)] by (simp add: find_takeWhile i)
  show ?thesis
  proof (cases "i < size T")
    case False
    then show ?thesis using n lb by (simp add: do_zrangequery_def arg_def find_zset_def elem_at_def w Let_def)
  next
    case True
    obtain pos out1 where u: "out_unknown_arr out = (pos, out1)" by fastforce
    have loop: "zquery_loop z (if 0 \<le> int i + off then elem_at (inorder T) (nat (int i + off)) else None) 0 (of_int (int nl)) out1
       = Some (of_nat (2 * length w), out1 @ concat (map (enc_pair z) w))"
    proof (cases "0 \<le> int i + off \<and> nat (int i + off) < size T")
      case inside: True
      let ?i = "nat (int i + off)"
      from inside have "w = take (min (size T - ?i) ((nl + 1) div 2)) (drop ?i (inorder T))" using True by (simp add: w min_def)
      with inside show ?thesis using zquery_loop_spec [OF inv, of 0 ?i _ "of_int (int nl)" out1] l by simp
    next
      case False
      then have "w = []" by (auto simp: w)
      with False show ?thesis by (subst zquery_loop.simps) (auto simp: elem_at_def)
    qed
    have at: "elem_at (inorder T) i = Some (inorder T ! i)" using True by (simp add: elem_at_def)
    show ?thesis
      using n lb u zset_offset_elem [OF inv True, of off] loop put_unknown_arr [OF u] at
      by (simp add: do_zrangequery_def arg_def find_zset_def Let_def off(1) o nl(1) split del: if_split)
  qed
qed

text \<open>The member \<open>a\<close> with an infinite score, in a set of its own.\<close>

definition text_inf :: dstr where
  "text_inf = \<lparr>dsize = 3, dfree = 0, dbuf = [Some 105, Some 110, Some 102, Some 0]\<rparr>"

definition num_0 :: dstr where
  "num_0 = \<lparr>dsize = 1, dfree = 0, dbuf = [Some 48, Some 0]\<rparr>"

lemma do_zrangequery_window_witness:
  "\<exists>g. do_zrangequery g [] [key_a, key_a, text_inf, key_a, num_0, num_1] =
     Some (SUCCESS, g, out_arr [] 2 @ enc (RDbl 0x7FF0000000000000) @ enc (RStr [97]))"
proof -
  have s: "strtod (text_of text_inf) = 0x7FF0000000000000" by code_simp
  have n: "strtol (text_of num_0) = 0" "strtol (text_of num_1) = int 1" by code_simp+
  have nan: "\<not> is_nan 0x7FF0000000000000" by (simp add: is_nan_def)
  have e: "znodes new_zset = Map.empty" "zhmap new_zset = empty_hmap" by (simp_all add: new_zset_def)
  obtain z T zk where z: "zset_inv z T" "inorder T = [1]"
      "znodes z = [1 \<mapsto> \<lparr>zscore = 0x7FF0000000000000, zkey = zk, zhcode = str_hash (dstr_bytes key_a)\<rparr>]" "dstr_bytes zk = [97]"
    using zset_add_spec [OF zset_inv_new key_a_ok(1) nan, of 1] e by auto
  obtain g where g: "hm_ok (gdb g)" "dbv g = [kof key_a \<mapsto> EZSet z]" using one_entry [OF key_a_ok(1)] by blast
  have sz: "size T = 1" using z(2) by (metis length_inorder length_Cons list.size(3) One_nat_def)
  have "do_zrangequery g [] [key_a, key_a, text_inf, key_a, num_0, num_1] =
     Some (SUCCESS, g, out_arr [] (of_nat (2 * length [1 :: nat])) @ concat (map (enc_pair z) [1]))"
    by (rule do_zrangequery_window [OF g(1) key_a_ok(1) key_a_ok(1) _ z(1) _ n(1) _ _ n(2) _ refl])
      (use g(2) sz in \<open>simp_all add: s nan z zord_def zpair_def\<close>)
  then show ?thesis by (auto simp: enc_pair_def z)
qed

text \<open>\<open>ZREM\<close> on an existing sorted set removes exactly the member, and replies with one or zero according to whether it was
  there.\<close>

lemma do_zrem_spec:
  assumes "hm_ok (gdb g)" and "key_ok key" and "key_ok member" and "dbv g (kof key) = Some (EZSet z)" and inv: "zset_inv z T"
  shows "\<exists>g' z' T'. do_zrem g out [c, key, member] = Some (SUCCESS, g', out_int out (of_bool (zabs z (kof member) \<noteq> None)))
     \<and> hm_ok (gdb g') \<and> dbv g' = (dbv g)(kof key \<mapsto> EZSet z') \<and> zset_inv z' T' \<and> zabs z' = (zabs z)(kof member := None)"
proof -
  obtain p n where n: "db_find g key = Some (p, Some n)" "pkey p \<noteq> None" "pkeyof p = kof key" "hm_abs (gdb g) (kof key) = Some n"
    "vent (hval n) = EZSet z"
    using db_find_spec [OF assms(1,2)] assms(4) by (auto simp: dbv_def)
  note lk = zset_lookup_spec [OF inv assms(3)]
  show ?thesis
  proof (cases "hm_abs (zhmap z) (kof member)")
    case None
    then have "zabs z (kof member) = None" by (simp add: zabs_def)
    with None lk n assms(1,4) inv show ?thesis
      by (intro exI [of _ g] exI [of _ z] exI [of _ T]) (auto simp: do_zrem_def arg_def find_zset_def fun_upd_idem)
  next
    case (Some m)
    obtain zn where zn: "znodes z (hval m) = Some zn" "kof (zkey zn) = kof member" using zset_inv_hm [OF inv Some] by blast
    then have "zabs z (kof member) \<noteq> None" using Some by (simp add: zabs_def)
    obtain z' T' where z': "zset_delete z (hval m) = Some z'" "zset_inv z' T'" "zabs z' = (zabs z)(kof member := None)"
      using zset_delete_spec [OF inv zn(1)] zabs_delete [OF inv zn(1)] zn(2) by metis
    obtain g' where "db_put g p (hval n) (EZSet z') = Some g'" "hm_ok (gdb g')" "dbv g' = (dbv g)(kof key \<mapsto> EZSet z')"
      using db_put_spec [OF assms(1) n(2), of n "EZSet z'"] n(3,4) by auto
    with z' n Some lk \<open>zabs z (kof member) \<noteq> None\<close> show ?thesis
      by (intro exI [of _ g'] exI [of _ z'] exI [of _ T']) (simp add: do_zrem_def arg_def find_zset_def)
  qed
qed

section \<open>Counting bits\<close>

text \<open>The set bits at positions \<open>i\<close> to \<open>k - 1\<close>.\<close>

definition ones :: "bytes \<Rightarrow> nat \<Rightarrow> nat \<Rightarrow> nat" where
  "ones bs i k = card {j. i \<le> j \<and> j < k \<and> bitmap_bit bs j}"

lemma ones_split: "i \<le> m \<Longrightarrow> m \<le> k \<Longrightarrow> ones bs i k = ones bs i m + ones bs m k"
proof -
  assume "i \<le> m" "m \<le> k"
  then have "{j. i \<le> j \<and> j < k \<and> bitmap_bit bs j} = {j. i \<le> j \<and> j < m \<and> bitmap_bit bs j} \<union> {j. m \<le> j \<and> j < k \<and> bitmap_bit bs j}" by auto
  then show ?thesis unfolding ones_def by (simp add: card_Un_disjnt disjnt_def disjoint_iff)
qed

lemma ones_none: "k \<le> i \<Longrightarrow> ones bs i k = 0"
proof -
  assume "k \<le> i"
  then have "{j. i \<le> j \<and> j < k \<and> bitmap_bit bs j} = {}" by (auto dest: le_less_trans)
  then show ?thesis by (simp add: ones_def)
qed

lemma ones_one: "ones bs i (Suc i) = of_bool (bitmap_bit bs i)"
proof -
  have "{j. i \<le> j \<and> j < Suc i \<and> bitmap_bit bs j} = (if bitmap_bit bs i then {i} else {})" by (auto simp: less_Suc_eq_le)
  then show ?thesis by (simp add: ones_def)
qed

lemma ones_byte:
  assumes "i < length bs"
  shows "ones bs (8 * i) (8 * i + 8) = length (filter (bit (bs ! i)) [0..<8])"
proof -
  have "{j. 8 * i \<le> j \<and> j < 8 * i + 8 \<and> bitmap_bit bs j} = (\<lambda>k. 8 * i + 7 - k) ` {k. k < 8 \<and> bit (bs ! i) k}" (is "?L = ?f ` ?R")
  proof
    show "?L \<subseteq> ?f ` ?R"
    proof
      fix j assume j: "j \<in> ?L"
      then have d: "j div 8 = i" by auto
      then have "j = ?f (7 - j mod 8)" "7 - j mod 8 < 8" using div_mult_mod_eq [of j 8] by auto
      moreover have "7 - j mod 8 \<in> ?R" using j d by (auto simp: bitmap_bit_def)
      ultimately show "j \<in> ?f ` ?R" by blast
    qed
    show "?f ` ?R \<subseteq> ?L"
    proof
      fix j assume "j \<in> ?f ` ?R"
      then obtain k where k: "j = 8 * i + (7 - k)" "k < 8" "bit (bs ! i) k" by auto
      then have "j div 8 = i" "j mod 8 = 7 - k" by (simp only: mult.commute [of 8] div_mult_self3 mod_mult_self3; simp)+
      moreover have "8 * i \<le> j" "j < 8 * i + 8" using k by linarith+
      ultimately show "j \<in> ?L" using k(2,3) assms by (simp add: bitmap_bit_def)
    qed
  qed
  moreover have "inj_on (\<lambda>k. 8 * i + 7 - k) {k. k < 8 \<and> bit (bs ! i) k}" by (auto simp: inj_on_def)
  ultimately have "ones bs (8 * i) (8 * i + 8) = card {k. k < 8 \<and> bit (bs ! i) k}" by (simp add: ones_def card_image)
  also have "{k. k < 8 \<and> bit (bs ! i) k} = {k. bit (bs ! i) k} \<inter> set [0..<8]" by auto
  finally show ?thesis by (simp only: distinct_length_filter distinct_upt)
qed

lemma count_bytes_spec:
  assumes "wf_dstr bm"
  shows "i + n \<le> dsize bm \<Longrightarrow> count_bytes n bm (int i) acc = Some (acc + ones (dstr_bytes bm) (8 * i) (8 * (i + n)))"
proof (induction n arbitrary: i acc)
  case (Suc n)
  let ?bs = "dstr_bytes bm"
  have b: "i < dsize bm" "i < length ?bs" using Suc.prems assms by simp_all
  have "count_bytes (Suc n) bm (int i) acc = count_bytes n bm (int (Suc i)) (acc + ones ?bs (8 * i) (8 * i + 8))"
    by (simp only: count_bytes.simps buf_at_bytes [OF assms b(1)] bind.simps ones_byte [OF b(2)] of_nat_Suc add.commute [of 1])
  also have "\<dots> = Some (acc + ones ?bs (8 * i) (8 * i + 8) + ones ?bs (8 * Suc i) (8 * (Suc i + n)))"
    using Suc.prems by (intro Suc.IH) simp
  also have "\<dots> = Some (acc + ones ?bs (8 * i) (8 * (i + Suc n)))"
    using ones_split [of "8 * i" "8 * i + 8" "8 * (i + Suc n)" ?bs] by (simp add: algebra_simps)
  finally show ?case .
qed (simp add: ones_def)

lemma count_bits_spec:
  assumes "wf_dstr bm"
  shows "i + n \<le> 8 * dsize bm \<Longrightarrow> count_bits n bm (int i) acc = Some (acc + ones (dstr_bytes bm) i (i + n))"
proof (induction n arbitrary: i acc)
  case (Suc n)
  let ?bs = "dstr_bytes bm"
  have b: "i div 8 < dsize bm" "i div 8 < length ?bs" using Suc.prems assms by (simp_all add: less_mult_imp_div_less)
  have d: "tdiv8 (int i) = int (i div 8)" by (simp add: tdiv8_def)
  have "7 - (int i - 8 * int (i div 8)) = int (7 - i mod 8)" by presburger
  then have m: "min 7 (nat (7 - (int i - 8 * int (i div 8)))) = 7 - i mod 8" by (simp only: nat_int)
  have "(if bit (?bs ! (i div 8)) (7 - i mod 8) then 1 else 0) = ones ?bs i (Suc i)" using b(2) by (simp add: ones_one bitmap_bit_def)
  then have "count_bits (Suc n) bm (int i) acc = count_bits n bm (int (Suc i)) (acc + ones ?bs i (Suc i))"
    by (simp only: count_bits.simps d buf_at_bytes [OF assms b(1)] m bind.simps of_nat_Suc add.commute)
  also have "\<dots> = Some (acc + ones ?bs i (Suc i) + ones ?bs (Suc i) (Suc i + n))" using Suc.prems by (intro Suc.IH) simp
  also have "\<dots> = Some (acc + ones ?bs i (i + Suc n))" using ones_split [of i "Suc i" "i + Suc n" ?bs] by simp
  finally show ?case .
qed (simp add: ones_def)

text \<open>\<open>BITCOUNT\<close> with a start that is not before the bitmap counts exactly the set bits from the start to the
  end (both read from the end where negative, the end cut at the last one), by bits, or by whole bytes where the last word
  is \<open>BYTE\<close>.\<close>

lemma do_bitcount_counts:
  assumes "hm_ok (gdb g)" and "key_ok key" and "dbv g (kof key) = Some (EBitmap bm)" and "wf_dstr bm"
    and u: "u = (if mode = [[66, 89, 84, 69]] then 8 else 1)" and N: "N = int (dsize bm * 8 div u)"
    and s: "s = from_end N (strtol (text_of sa))" and e: "e = min (from_end N (strtol (text_of sb))) (N - 1)"
    and "map text_of ws = mode" and "length ws \<le> 1" and "0 \<le> s"
  shows "do_bitcount g out ([c, key, sa, sb] @ ws) =
     Some (SUCCESS, g, out_int out (of_nat (ones (dstr_bytes bm) (u * nat s) (u * nat (e + 1)))))"
proof -
  obtain p n where n: "db_find g key = Some (p, Some n)" "vent (hval n) = EBitmap bm"
    using db_find_spec [OF assms(1,2)] assms(3) by (auto simp: dbv_def)
  define i where "i = nat s"
  define k where "k = nat (e - s + 1)"
  have i: "s = int i" using assms(11) by (simp add: i_def)
  have ik: "k = 0 \<or> (nat (e + 1) = i + k \<and> int (i + k) \<le> N)" using i by (auto simp: k_def e)
  have z: "ones (dstr_bytes bm) (u * i) (u * nat (e + 1)) = ones (dstr_bytes bm) (u * i) (u * (i + k))"
  proof (cases "k = 0")
    case True
    then have "nat (e + 1) \<le> i" using i by (simp add: k_def)
    then have "u * nat (e + 1) \<le> u * i" by (rule mult_le_mono2)
    then have "ones (dstr_bytes bm) (u * i) (u * nat (e + 1)) = 0" by (rule ones_none)
    then show ?thesis using True ones_none by simp
  qed (use ik in simp)
  let ?cmd = "[c, key, sa, sb] @ ws"
  let ?byte = "mode = [[66, 89, 84, 69]]"
  have byte: "(length ?cmd = 5 \<and> map_option text_of (arg ?cmd 4) = Some [66, 89, 84, 69]) = ?byte"
    using assms(9,10) by (cases ws) (auto simp: arg_def)
  have tot: "int (if ?byte then dsize bm else dsize bm * 8) = N" by (simp add: N u)
  have st: "(if strtol (text_of sa) < 0 then strtol (text_of sa) + N else strtol (text_of sa)) = int i"
    using i by (simp only: s from_end_def)
  have la: "min (if strtol (text_of sb) < 0 then strtol (text_of sb) + N else strtol (text_of sb)) (N - 1) = e"
    by (simp only: e from_end_def)
  have ar: "arg ?cmd 1 = Some key" "arg ?cmd 2 = Some sa" "arg ?cmd 3 = Some sb" by (simp_all add: arg_def)
  have wb: "with_bitmap g out key f = f bm" for f using n by (simp add: with_bitmap_def)
  have k': "nat (e - int i + 1) = k" by (simp only: k_def i)
  have "(if ?byte then count_bytes k bm (int i) 0 else count_bits k bm (int i) 0) = Some (ones (dstr_bytes bm) (u * i) (u * (i + k)))"
    using ik count_bytes_spec [OF assms(4), of i k 0] count_bits_spec [OF assms(4), of i k 0]
    by (cases "k = 0") (auto simp: ones_none N u split: if_splits)
  then have "do_bitcount g out ?cmd = Some (SUCCESS, g, out_int out (of_nat (ones (dstr_bytes bm) (u * i) (u * (i + k)))))"
    unfolding do_bitcount_def Let_def byte ar bind.simps option.case wb tot st la k' by simp
  then show ?thesis by (simp only: z [symmetric] i_def [symmetric])
qed

lemma do_bitcount_counts_witness:
  "\<exists>g. do_bitcount g [] [key_a, key_a, num_0, num_1] = Some (SUCCESS, g, out_int [] 1)"
proof -
  obtain g where g: "hm_ok (gdb g)" "dbv g = [kof key_a \<mapsto> EBitmap key_a]" using one_entry [OF key_a_ok(1)] by blast
  have n: "strtol (text_of num_0) = 0" "strtol (text_of num_1) = 1" by code_simp+
  have "{j. j < 2 \<and> bitmap_bit [97] j} = {1}" by (auto simp: bitmap_bit_def less_Suc_eq numeral_2_eq_2)
  then have "ones [97] 0 2 = 1" by (simp add: ones_def)
  then show ?thesis using do_bitcount_counts [OF g(1) key_a_ok(1) _ key_a_ok(2) refl refl refl refl, where sa = num_0 and sb = num_1 and ws = "[]" and mode = "[]" and c = key_a and out = "[]"] g(2)
    by (auto simp: n from_end_def)
qed

end
