(* ===== verification/Server.thy ===== *)
theory Server
  imports Commands
begin

text \<open>
  The server (\<open>src/src/server.cpp\<close>, \<open>server.h\<close>): dispatch of a request, connections with their
  buffers and timeout lists, timers, and one round of the event loop.

  The operating system is an input: every handler takes what the system calls it makes
  return.  The clock is a function from the number of readings made so far to milliseconds.
  A \<open>Conn\<close> has an address; the list nodes embedded in it have addresses computed from it, so
  that \<open>container_of\<close> is arithmetic, as it is in the code.  The first three node addresses are the
  sentinels of \<open>GlobalData\<close>.
\<close>

section \<open>Dispatch\<close>

text \<open>\<open>for (; *p; p++) *p = tolower (*p)\<close>\<close>

fun lower_buf :: "cbuf \<Rightarrow> cbuf option" where
  "lower_buf [] = None"
| "lower_buf (None # r) = None"
| "lower_buf (Some b # r) = (if b = 0 then Some (Some b # r) else map_option ((#) (Some (tolower b))) (lower_buf r))"

text \<open>The handlers that are called for their effects; the result code is not used.\<close>

definition call :: "outcome \<Rightarrow> (gdata \<times> bytes) option" where
  "call r = map_option snd r"

definition out_buffer :: "'f fpu \<Rightarrow> u64 \<Rightarrow> gdata \<Rightarrow> bytes \<Rightarrow> dstr list \<Rightarrow> (gdata \<times> bytes) option" where
  "out_buffer F now g out cmd = do {
     c0 \<leftarrow> arg cmd 0;
     buf \<leftarrow> lower_buf (dbuf c0);
     let cmd = cmd[0 := c0\<lparr>dbuf := buf\<rparr>];
     let is = (\<lambda>name. text_of (cmd ! 0) = msg name);
     let n = length cmd;
     if n = 2 \<and> is ''get'' then call (do_get g out cmd)
     else if n = 3 \<and> is ''set'' then call (do_set g out cmd)
     else if n = 2 \<and> is ''del'' then call (do_del g out cmd)
     else if n = 1 \<and> is ''keys'' then call (do_keys g out)
     else if n \<ge> 4 \<and> even n \<and> is ''hset'' then call (do_hset g out cmd)
     else if n = 3 \<and> is ''hget'' then call (do_hget g out cmd)
     else if n = 2 \<and> is ''hgetall'' then call (do_hgetall g out cmd)
     else if n \<ge> 3 \<and> is ''hdel'' then call (do_hdel g out cmd)
     else if n = 3 \<and> is ''expire'' then call (do_expire now g out cmd)
     else if n = 2 \<and> is ''ttl'' then call (do_ttl now g out cmd)
     else if n = 2 \<and> is ''persist'' then call (do_persist g out cmd)
     else if n = 4 \<and> is ''zadd'' then call (do_zadd g out cmd)
     else if n = 3 \<and> is ''zscore'' then call (do_zscore g out cmd)
     else if n = 3 \<and> is ''zrem'' then call (do_zrem g out cmd)
     else if is ''zquery'' then call (do_zrangequery g out cmd)
     else if is ''lpush'' \<and> n = 3 then call (do_push g out cmd LLIST_SIDE_LEFT)
     else if is ''rpush'' \<and> n = 3 then call (do_push g out cmd LLIST_SIDE_RIGHT)
     else if is ''lpop'' \<and> n \<ge> 2 then call (do_pop g out cmd LLIST_SIDE_LEFT)
     else if is ''rpop'' \<and> n \<ge> 2 then call (do_pop g out cmd LLIST_SIDE_RIGHT)
     else if is ''lrange'' \<and> n = 4 then call (do_lrange g out cmd)
     else if is ''sadd'' then call (do_sadd g out cmd)
     else if is ''srem'' then call (do_srem g out cmd)
     else if is ''smembers'' then call (do_smembers g out cmd)
     else if is ''scard'' then call (do_scard g out cmd)
     else if is ''setbit'' then call (do_setbit g out cmd)
     else if is ''getbit'' then call (do_getbit g out cmd)
     else if is ''bitcount'' then call (do_bitcount g out cmd)
     else if is ''pfadd'' then call (do_pfadd g out cmd)
     else if is ''pfcount'' then call (do_pfcount F g out cmd)
     else if is ''pfmerge'' then call (do_pfmerge g out cmd)
     else if is ''multi'' \<or> is ''exec'' \<or> is ''watch'' \<or> is ''discard'' then Some (g, out)
     else map_option (Pair g) (out_err out (msg ''unknown command''))
   }"

section \<open>State\<close>

text \<open>The list nodes of a \<open>Conn\<close> are in the store \<open>tnodes\<close>; \<open>in_multi\<close> and \<open>tb\<close> are never used.  Of \<open>GlobalData\<close>
  the keyspace, the heap and the jobs are \<open>data\<close>, and the three sentinels are in \<open>tnodes\<close>; \<open>watched_keys\<close> and
  \<open>alive_conns\<close> are never used.\<close>

record Conn =
  fd :: nat
  want_read :: bool
  want_write :: bool
  want_close :: bool
  incoming :: bytes
  outgoing :: bytes
  last_active_ms :: u64
  last_read_ms :: u64
  last_write_ms :: u64

record server =
  data :: gdata
  conns :: "addr \<rightharpoonup> Conn"
  fd_to_conn :: "ptr list"
  tnodes :: "unit dstore"
  ticks :: nat

definition idle_list :: addr where "idle_list = 0"
definition read_list :: addr where "read_list = 1"
definition write_list :: addr where "write_list = 2"
definition idle_timeout :: "addr \<Rightarrow> addr" where "idle_timeout c = 3 * c + 3"
definition read_timeout :: "addr \<Rightarrow> addr" where "read_timeout c = 3 * c + 4"
definition write_timeout :: "addr \<Rightarrow> addr" where "write_timeout c = 3 * c + 5"

definition IDLE_TIMEOUT_MS :: u64 where "IDLE_TIMEOUT_MS = 100 * 1000"
definition READ_TIMEOUT_MS :: u64 where "READ_TIMEOUT_MS = 10 * 1000"
definition WRITE_TIMEOUT_MS :: u64 where "WRITE_TIMEOUT_MS = 5 * 1000"
definition MAX_TTL_TASKS :: nat where "MAX_TTL_TASKS = 200"

type_synonym clock = "nat \<Rightarrow> u64"

definition get_curr_ms :: "clock \<Rightarrow> server \<Rightarrow> u64 \<times> server" where
  "get_curr_ms clk s = (clk (ticks s), s\<lparr>ticks := ticks s + 1\<rparr>)"

text \<open>Changing a connection through its pointer, and the list operations on the embedded nodes.\<close>

definition upd_conn :: "server \<Rightarrow> addr \<Rightarrow> (Conn \<Rightarrow> Conn) \<Rightarrow> server option" where
  "upd_conn s c f = map_option (\<lambda>k. s\<lparr>conns := (conns s)(c \<mapsto> f k)\<rparr>) (conns s c)"

definition detach :: "server \<Rightarrow> addr \<Rightarrow> server option" where
  "detach s n = map_option (\<lambda>t. s\<lparr>tnodes := t\<rparr>) (dlist_deatach (tnodes s) n)"

definition enlist :: "server \<Rightarrow> addr \<Rightarrow> addr \<Rightarrow> server option" where
  "enlist s lst n = map_option (\<lambda>t. s\<lparr>tnodes := t\<rparr>) (dlist_insert_before (tnodes s) lst n)"

text \<open>\<open>fd_to_conn[fd]\<close>, undefined outside of the vector.\<close>

definition conn_at :: "server \<Rightarrow> nat \<Rightarrow> ptr option" where
  "conn_at s i = (if i < length (fd_to_conn s) then Some (fd_to_conn s ! i) else None)"

definition close_conn :: "server \<Rightarrow> addr \<Rightarrow> server option" where
  "close_conn s c = do {
     k \<leftarrow> conns s c;
     _ \<leftarrow> conn_at s (fd k);
     let s = s\<lparr>fd_to_conn := (fd_to_conn s)[fd k := None]\<rparr>;
     s \<leftarrow> detach s (idle_timeout c);
     s \<leftarrow> detach s (read_timeout c);
     s \<leftarrow> detach s (write_timeout c);
     Some (s\<lparr>conns := (conns s)(c := None),
       tnodes := (tnodes s)(idle_timeout c := None, read_timeout c := None, write_timeout c := None)\<rparr>)
   }"

section \<open>Timers\<close>

text \<open>One of the three loops of \<open>process_timers\<close>: the list, the node of a connection in it, the
  time stamp it is judged by and the limit.\<close>

partial_function (option) reap :: "addr \<Rightarrow> (addr \<Rightarrow> addr) \<Rightarrow> (Conn \<Rightarrow> u64) \<Rightarrow> u64 \<Rightarrow> u64 \<Rightarrow> server \<Rightarrow> server option" where
  "reap lst node stamp limit curr_ms s = do {
     empty \<leftarrow> dlist_empty (tnodes s) lst;
     if empty then Some s
     else do {
       h \<leftarrow> tnodes s lst;
       first \<leftarrow> dnext h;
       let c = (first - node 0) div 3;
       k \<leftarrow> conns s c;
       if stamp k + limit \<ge> curr_ms then Some s
       else do {
         s \<leftarrow> close_conn s c;
         reap lst node stamp limit curr_ms s
       }
     }
   }"

text \<open>The database node whose \<open>heap_idx\<close> field has the given address.\<close>

definition ttl_node :: "gdata \<Rightarrow> addr \<Rightarrow> dbval hnode option" where
  "ttl_node g a = find (\<lambda>n. vaddr (hval n) = a) (hm_nodes (gdb g))"

text \<open>The loop over expired keys; \<open>n\<close> is the number of rounds left.\<close>

fun expire_loop :: "nat \<Rightarrow> u64 \<Rightarrow> gdata \<Rightarrow> gdata option" where
  "expire_loop 0 curr_ms g = Some g"
| "expire_loop (Suc n) curr_ms g =
     (case gheap g of
        [] \<Rightarrow> Some g
      | h # _ \<Rightarrow> if hn_val h < curr_ms then do {
            (hp, ix) \<leftarrow> rem_ttl (gheap g, gidx g) (pos_ref h);
            let g = g\<lparr>gheap := hp, gidx := ix\<rparr>;
            hnode \<leftarrow> ttl_node g (pos_ref h);
            (_, g) \<leftarrow> db_delete g \<lparr>pcode = hcode hnode, pkey = Some (hkey hnode)\<rparr>;
            expire_loop n curr_ms g
          }
          else Some g)"

definition process_timers :: "clock \<Rightarrow> server \<Rightarrow> server option" where
  "process_timers clk s = do {
     let (curr_ms, s) = get_curr_ms clk s;
     s \<leftarrow> reap idle_list idle_timeout last_active_ms IDLE_TIMEOUT_MS curr_ms s;
     s \<leftarrow> reap read_list read_timeout last_read_ms READ_TIMEOUT_MS curr_ms s;
     s \<leftarrow> reap write_list write_timeout last_write_ms WRITE_TIMEOUT_MS curr_ms s;
     g \<leftarrow> expire_loop (MAX_TTL_TASKS + 1) curr_ms (data s);
     Some (s\<lparr>data := g\<rparr>)
   }"

text \<open>The difference is taken modulo \<open>2 ^ 64\<close>; the maximum with zero changes nothing.\<close>

definition next_timer_ms :: "clock \<Rightarrow> server \<Rightarrow> (u64 \<times> server) option" where
  "next_timer_ms clk s = do {
     empty \<leftarrow> dlist_empty (tnodes s) idle_list;
     if empty then Some (IDLE_TIMEOUT_MS, s)
     else do {
       let (curr, s) = get_curr_ms clk s;
       h \<leftarrow> tnodes s idle_list;
       first \<leftarrow> dnext h;
       k \<leftarrow> conns s ((first - idle_timeout 0) div 3);
       let conn_timeout = last_active_ms k + IDLE_TIMEOUT_MS;
       let conn_timeout = (case gheap (data s) of [] \<Rightarrow> conn_timeout | h # _ \<Rightarrow> min conn_timeout (hn_val h));
       Some (max 0 (conn_timeout - curr), s)
     }
   }"

section \<open>Requests\<close>

text \<open>\<open>memcpy (&total_len, incoming.data (), 4)\<close> into a zeroed \<open>size_t\<close>.  \<open>EXPIRE\<close> and \<open>TTL\<close> read the clock once
  while they run; the reading is taken here for every request, and the other commands do not use it.\<close>

definition try_one_req :: "'f fpu \<Rightarrow> clock \<Rightarrow> server \<Rightarrow> addr \<Rightarrow> (bool \<times> server) option" where
  "try_one_req F clk s c = do {
     k \<leftarrow> conns s c;
     if length (incoming k) < 4 then Some (False, s)
     else do {
       let total_len = unat (of_le32 (take 4 (incoming k)));
       if length (incoming k) < total_len + 4 then Some (False, s)
       else do {
         cmd \<leftarrow> parse_cmd (drop 4 (incoming k));
         let (header_pos, out) = before_res_build (outgoing k);
         let (now, s) = get_curr_ms clk s;
         (g, out) \<leftarrow> out_buffer F now (data s) out cmd;
         out \<leftarrow> after_res_build out header_pos;
         inc \<leftarrow> buf_consume (incoming k) (4 + total_len);
         Some (True, s\<lparr>data := g, conns := (conns s)(c \<mapsto> k\<lparr>incoming := inc, outgoing := out\<rparr>)\<rparr>)
       }
     }
   }"

lemma try_one_req_shrinks:
  assumes "try_one_req F clk s c = Some (True, s')"
  shows "\<exists>k k'. conns s c = Some k \<and> conns s' c = Some k' \<and> length (incoming k') < length (incoming k)"
proof (cases "before_res_build (outgoing (the (conns s c)))")
  case (Pair h out)
  then show ?thesis
    using assms by (auto simp: try_one_req_def bind_eq_Some_conv Let_def buf_consume_def get_curr_ms_def split: if_splits)
qed

text \<open>\<open>while (try_one_req (conn)) {}\<close>\<close>

function serve :: "'f fpu \<Rightarrow> clock \<Rightarrow> addr \<Rightarrow> server \<Rightarrow> server option" where
  "serve F clk c s = (case try_one_req F clk s c of
     None \<Rightarrow> None
   | Some (b, s') \<Rightarrow> if b then serve F clk c s' else Some s')"
  by pat_completeness auto
termination
  by (relation "measure (\<lambda>(F, clk, c, s). length (incoming (the (conns s c))))")
    (auto dest: try_one_req_shrinks)

declare serve.simps [simp del]

section \<open>Connections\<close>

text \<open>What \<open>read\<close> and \<open>write\<close> return: try again, an error or the end of the stream, or data.\<close>

datatype io = IO_AGAIN | IO_FAIL | IO_DATA bytes
datatype wio = WR_AGAIN | WR_FAIL | WR_SENT nat

definition fresh_node :: "unit DListNode" where
  "fresh_node = \<lparr>dprev = None, dnext = None, dval = ()\<rparr>"

text \<open>\<open>handle_accept\<close> with the descriptor \<open>accept\<close> returned and an unused address.\<close>

definition handle_accept :: "clock \<Rightarrow> server \<Rightarrow> nat option \<Rightarrow> addr \<Rightarrow> (ptr \<times> server) option" where
  "handle_accept clk s connfd c = (case connfd of
     None \<Rightarrow> Some (None, s)
   | Some f \<Rightarrow> do {
       let (t1, s) = get_curr_ms clk s;
       let (t2, s) = get_curr_ms clk s;
       let (t3, s) = get_curr_ms clk s;
       let s = s\<lparr>conns := (conns s)(c \<mapsto> \<lparr>fd = f, want_read = True, want_write = False, want_close = False,
             incoming = [], outgoing = [], last_active_ms = t1, last_read_ms = t2, last_write_ms = t3\<rparr>),
           tnodes := (tnodes s)(idle_timeout c \<mapsto> fresh_node, read_timeout c \<mapsto> fresh_node, write_timeout c \<mapsto> fresh_node)\<rparr>;
       s \<leftarrow> enlist s idle_list (idle_timeout c);
       Some (Some c, s)
     })"

definition handle_read :: "'f fpu \<Rightarrow> clock \<Rightarrow> server \<Rightarrow> addr \<Rightarrow> io \<Rightarrow> server option" where
  "handle_read F clk s c rv = (case rv of
     IO_AGAIN \<Rightarrow> Some s
   | IO_FAIL \<Rightarrow> do {
       s \<leftarrow> upd_conn s c (\<lambda>k. k\<lparr>want_close := True\<rparr>);
       detach s (read_timeout c)
     }
   | IO_DATA bs \<Rightarrow> do {
       s \<leftarrow> upd_conn s c (\<lambda>k. k\<lparr>incoming := incoming k @ bs\<rparr>);
       s \<leftarrow> serve F clk c s;
       let (t, s) = get_curr_ms clk s;
       s \<leftarrow> upd_conn s c (\<lambda>k. k\<lparr>last_read_ms := t\<rparr>);
       k \<leftarrow> conns s c;
       if outgoing k = [] then Some s
       else do {
         s \<leftarrow> upd_conn s c (\<lambda>k. k\<lparr>want_read := False, want_write := True\<rparr>);
         s \<leftarrow> detach s (read_timeout c);
         s \<leftarrow> enlist s write_list (write_timeout c);
         let (t, s) = get_curr_ms clk s;
         upd_conn s c (\<lambda>k. k\<lparr>last_write_ms := t\<rparr>)
       }
     })"

definition handle_write :: "clock \<Rightarrow> server \<Rightarrow> addr \<Rightarrow> wio \<Rightarrow> server option" where
  "handle_write clk s c rv = (case rv of
     WR_AGAIN \<Rightarrow> Some s
   | WR_FAIL \<Rightarrow> do {
       s \<leftarrow> upd_conn s c (\<lambda>k. k\<lparr>want_close := True\<rparr>);
       detach s (write_timeout c)
     }
   | WR_SENT n \<Rightarrow> do {
       k \<leftarrow> conns s c;
       out \<leftarrow> buf_consume (outgoing k) n;
       s \<leftarrow> upd_conn s c (\<lambda>k. k\<lparr>outgoing := out\<rparr>);
       let (t, s) = get_curr_ms clk s;
       s \<leftarrow> upd_conn s c (\<lambda>k. k\<lparr>last_write_ms := t\<rparr>);
       if out \<noteq> [] then Some s
       else do {
         s \<leftarrow> upd_conn s c (\<lambda>k. k\<lparr>want_read := True, want_write := False\<rparr>);
         s \<leftarrow> detach s (write_timeout c);
         s \<leftarrow> enlist s read_list (read_timeout c);
         let (t, s) = get_curr_ms clk s;
         upd_conn s c (\<lambda>k. k\<lparr>last_read_ms := t\<rparr>)
       }
     })"

section \<open>One round of the event loop\<close>

text \<open>What one call of \<open>poll\<close> and the system calls after it return: the events of the listening
  socket and of each descriptor, and the results of \<open>accept\<close>, \<open>read\<close> and \<open>write\<close>.\<close>

record env =
  e_listen :: u8
  e_accept :: "nat option"
  e_addr :: addr
  e_ready :: "nat \<Rightarrow> u8"
  e_read :: "nat \<Rightarrow> io"
  e_write :: "nat \<Rightarrow> wio"

datatype poll_res = POLL_EINTR | POLL_ERROR | POLL_OK env

definition POLLIN :: u8 where "POLLIN = 1"
definition POLLOUT :: u8 where "POLLOUT = 4"
definition POLLERR :: u8 where "POLLERR = 8"

text \<open>The descriptors put into \<open>poll_args\<close> after the listening socket.\<close>

definition poll_fds :: "server \<Rightarrow> nat list option" where
  "poll_fds s = those (map (\<lambda>c. map_option fd (conns s c)) (concat (map (\<lambda>p. case p of None \<Rightarrow> [] | Some c \<Rightarrow> [c]) (fd_to_conn s))))"

definition do_accept :: "clock \<Rightarrow> env \<Rightarrow> server \<Rightarrow> (bool \<times> server) option" where
  "do_accept clk e s =
     (if e_listen e = 0 then Some (True, s)
      else do {
        (p, s) \<leftarrow> handle_accept clk s (e_accept e) (e_addr e);
        (case p of
           None \<Rightarrow> Some (False, s)
         | Some c \<Rightarrow> do {
             k \<leftarrow> conns s c;
             let v = fd_to_conn s;
             let v = (if length v \<le> fd k then v @ replicate (fd k + 1 - length v) None else v);
             Some (True, s\<lparr>fd_to_conn := v[fd k := Some c]\<rparr>)
           })
      })"

definition do_ready :: "'f fpu \<Rightarrow> clock \<Rightarrow> env \<Rightarrow> nat \<Rightarrow> server \<Rightarrow> server option" where
  "do_ready F clk e f s = do {
     let ready = e_ready e f;
     if ready = 0 then Some s
     else do {
       p \<leftarrow> conn_at s f;
       c \<leftarrow> p;
       let (t, s) = get_curr_ms clk s;
       s \<leftarrow> upd_conn s c (\<lambda>k. k\<lparr>last_active_ms := t\<rparr>);
       s \<leftarrow> detach s (idle_timeout c);
       s \<leftarrow> enlist s idle_list (idle_timeout c);
       s \<leftarrow> (if ready AND POLLIN \<noteq> 0 then handle_read F clk s c (e_read e f) else Some s);
       s \<leftarrow> (if ready AND POLLOUT \<noteq> 0 then handle_write clk s c (e_write e f) else Some s);
       k \<leftarrow> conns s c;
       if ready AND POLLERR \<noteq> 0 \<and> want_close k then close_conn s c else Some s
     }
   }"

fun do_sockets :: "'f fpu \<Rightarrow> clock \<Rightarrow> env \<Rightarrow> nat list \<Rightarrow> server \<Rightarrow> server option" where
  "do_sockets F clk e [] s = Some s"
| "do_sockets F clk e (f # fs) s = do { s \<leftarrow> do_ready F clk e f s; do_sockets F clk e fs s }"

text \<open>\<open>Inl ()\<close> when the server exits.  A failed \<open>accept\<close> skips the other sockets and the timers.\<close>

definition loop_round :: "'f fpu \<Rightarrow> clock \<Rightarrow> poll_res \<Rightarrow> server \<Rightarrow> (unit + server) option" where
  "loop_round F clk r s = do {
     fds \<leftarrow> poll_fds s;
     (_, s) \<leftarrow> next_timer_ms clk s;
     (case r of
        POLL_EINTR \<Rightarrow> Some (Inr s)
      | POLL_ERROR \<Rightarrow> Some (Inl ())
      | POLL_OK e \<Rightarrow> do {
          (go, s) \<leftarrow> do_accept clk e s;
          if \<not> go then Some (Inr s)
          else do {
            s \<leftarrow> do_sockets F clk e fds s;
            s \<leftarrow> process_timers clk s;
            Some (Inr s)
          }
        })
   }"

definition init_server :: "server option" where
  "init_server = do {
     let t = [idle_list \<mapsto> fresh_node, read_list \<mapsto> fresh_node, write_list \<mapsto> fresh_node];
     t \<leftarrow> dlist_init t idle_list;
     t \<leftarrow> dlist_init t read_list;
     t \<leftarrow> dlist_init t write_list;
     Some \<lparr>data = empty_gdata, conns = Map.empty, fd_to_conn = [], tnodes = t, ticks = 0\<rparr>
   }"


section \<open>From bytes to replies\<close>

text \<open>The reply under construction, and the finished one.\<close>

definition open_reply :: "bytes \<Rightarrow> u32 \<Rightarrow> bytes \<Rightarrow> bytes" where
  "open_reply out code payload = out @ le32 0 @ TAG_ARR # le32 2 @ TAG_INT # le32 code @ payload"

lemma try_one_req_frame:
  assumes k: "conns s c = Some k" and inc: "incoming k = bs @ rest" and bs: "length bs = 4 + unat (of_le32 bs)"
    and cmd: "parse_cmd (drop 4 (bs @ rest)) = Some cmd"
    and out: "out_buffer F (clk (ticks s)) (data s) (open_reply (outgoing k) RES_OK []) cmd = Some (g, open_reply (outgoing k) code payload)"
    and len: "length (outgoing k) < 2 ^ 32" "10 + length payload \<le> MAX_MESSAGE_LEN"
  shows "try_one_req F clk s c = Some (True, s\<lparr>ticks := ticks s + 1, data := g,
     conns := (conns s)(c \<mapsto> k\<lparr>incoming := rest, outgoing := outgoing k @ frame code payload\<rparr>)\<rparr>)"
proof -
  have l4: "take 4 (bs @ rest) = take 4 bs" "4 \<le> length bs" using bs by simp_all
  have "of_le32 (take 4 bs) = of_le32 bs" by (simp add: of_le32_def)
  then have tl: "unat (of_le32 (take 4 (incoming k))) = length bs - 4" using bs inc l4(1) by simp
  have b: "before_res_build (outgoing k) = (of_nat (length (outgoing k)), open_reply (outgoing k) RES_OK [])"
    by (simp add: before_res_build_eq open_reply_def)
  have a: "after_res_build (open_reply (outgoing k) code payload) (of_nat (length (outgoing k))) = Some (outgoing k @ frame code payload)"
    using after_res_build_frame [OF len(1,2), of code] by (simp add: open_reply_def)
  have cons: "buf_consume (incoming k) (4 + (length bs - 4)) = Some rest" using inc l4(2) by (simp add: buf_consume_def)
  show ?thesis using k cmd inc out a b tl l4(2) cons
    by (simp add: try_one_req_def get_curr_ms_def Let_def)
qed

lemma lower_buf_map:
  "lower_buf (map Some bs @ Some 0 # r) = Some (map Some (map tolower (cstr bs)) @ drop (length (cstr bs)) (map Some bs @ Some 0 # r))"
  by (induction bs) (auto simp: cstr_def)

lemma tolower_0: "tolower b = 0 \<longleftrightarrow> b = 0"
proof -
  have "b + 32 \<noteq> 0" if "65 \<le> b" "b \<le> 90"
  proof -
    have "unat b \<le> 90" using that(2) by (simp add: word_le_nat_alt)
    then have "unat (b + 32) = unat b + 32" by (simp add: unat_word_ariths)
    then show ?thesis by auto
  qed
  moreover have "b \<noteq> 0" if "65 \<le> b" using that by auto
  ultimately show ?thesis by (auto simp: tolower_def)
qed

lemma lower_name:
  assumes "wf_dstr t"
  shows "\<exists>buf. lower_buf (dbuf t) = Some buf \<and> text_of (t\<lparr>dbuf := buf\<rparr>) = map tolower (text_of t)"
proof -
  let ?bs = "dstr_bytes t"
  have l: "dsize t < length (dbuf t)" using assms by (simp add: wf_dstr_def)
  have pre: "take (dsize t) (dbuf t) = map Some ?bs"
  proof -
    have "None \<notin> set (take (dsize t) (dbuf t))" using assms by (simp add: wf_dstr_def)
    then have "map (Some \<circ> the) (take (dsize t) (dbuf t)) = take (dsize t) (dbuf t)"
      by (intro map_idI) (metis comp_apply option.collapse)
    then show ?thesis by (simp add: dstr_bytes_def)
  qed
  have d: "dbuf t = map Some ?bs @ Some 0 # drop (Suc (dsize t)) (dbuf t)"
    using id_take_nth_drop [OF l] pre assms by (simp add: wf_dstr_def)
  let ?b = "map Some (map tolower (cstr ?bs)) @ drop (length (cstr ?bs)) (dbuf t)"
  have "lower_buf (dbuf t) = Some ?b" using lower_buf_map [of ?bs "drop (Suc (dsize t)) (dbuf t)"] d by simp
  moreover have "text_of (t\<lparr>dbuf := ?b\<rparr>) = map tolower (text_of t)"
  proof -
    have le: "length (cstr ?bs) \<le> dsize t" using assms by (metis cstr_def length_dstr_bytes length_takeWhile_le)
    have "take (dsize t) ?b = map Some (map tolower (cstr ?bs)) @ take (dsize t - length (cstr ?bs)) (drop (length (cstr ?bs)) (dbuf t))"
      using le by simp
    also have "take (dsize t - length (cstr ?bs)) (drop (length (cstr ?bs)) (dbuf t)) = drop (length (cstr ?bs)) (map Some ?bs)"
      using pre by (metis drop_take)
    finally have "dstr_bytes (t\<lparr>dbuf := ?b\<rparr>) = map tolower (cstr ?bs) @ drop (length (cstr ?bs)) ?bs"
      by (simp add: dstr_bytes_def drop_map comp_def)
    moreover have "drop (length (cstr ?bs)) ?bs = dropWhile (\<lambda>b. b \<noteq> 0) ?bs" unfolding cstr_def by (simp add: dropWhile_eq_drop)
    moreover have "takeWhile (\<lambda>b. b \<noteq> 0) (map tolower (cstr bs) @ dropWhile (\<lambda>b. b \<noteq> 0) bs) = map tolower (cstr bs)" for bs
    proof -
      have "\<forall>b \<in> set (map tolower (cstr bs)). b \<noteq> 0"
        by (auto simp: cstr_def tolower_0 dest: set_takeWhileD)
      then have "takeWhile (\<lambda>b. b \<noteq> 0) (map tolower (cstr bs) @ dropWhile (\<lambda>b. b \<noteq> 0) bs)
          = map tolower (cstr bs) @ takeWhile (\<lambda>b. b \<noteq> 0) (dropWhile (\<lambda>b. b \<noteq> 0) bs)" by (intro takeWhile_append2) auto
      moreover have "takeWhile (\<lambda>b. b \<noteq> 0) (dropWhile (\<lambda>b. b \<noteq> 0) bs) = []"
        by (induction bs) auto
      ultimately show ?thesis by simp
    qed
    ultimately show ?thesis by (simp add: text_of_def cstr_def [of "_ @ _"])
  qed
  ultimately show ?thesis by blast
qed

text \<open>Dispatch on the name of the command, in any mixture of cases.\<close>

definition named :: "dstr \<Rightarrow> string \<Rightarrow> bool" where
  "named t name \<longleftrightarrow> wf_dstr t \<and> map tolower (text_of t) = msg name"

lemma dispatch_get: "named t ''get'' \<Longrightarrow> \<exists>t'. out_buffer F now g out [t, key] = call (do_get g out [t', key])"
  using lower_name [of t] by (auto simp: named_def out_buffer_def arg_def)

lemma dispatch_set: "named t ''set'' \<Longrightarrow> \<exists>t'. out_buffer F now g out [t, key, val] = call (do_set g out [t', key, val])"
  using lower_name [of t] by (auto simp: named_def out_buffer_def arg_def)

text \<open>The commands and the numbers of words they are accepted with.\<close>

definition commands :: "(string \<times> (nat \<Rightarrow> bool)) list" where
  "commands = [(''get'', \<lambda>n. n = 2), (''set'', \<lambda>n. n = 3), (''del'', \<lambda>n. n = 2), (''keys'', \<lambda>n. n = 1),
     (''hset'', \<lambda>n. 4 \<le> n \<and> even n), (''hget'', \<lambda>n. n = 3), (''hgetall'', \<lambda>n. n = 2), (''hdel'', \<lambda>n. 3 \<le> n),
     (''expire'', \<lambda>n. n = 3), (''ttl'', \<lambda>n. n = 2), (''persist'', \<lambda>n. n = 2), (''zadd'', \<lambda>n. n = 4), (''zscore'', \<lambda>n. n = 3),
     (''zrem'', \<lambda>n. n = 3), (''zquery'', \<lambda>n. True), (''lpush'', \<lambda>n. n = 3), (''rpush'', \<lambda>n. n = 3), (''lpop'', \<lambda>n. 2 \<le> n),
     (''rpop'', \<lambda>n. 2 \<le> n), (''lrange'', \<lambda>n. n = 4), (''sadd'', \<lambda>n. True), (''srem'', \<lambda>n. True), (''smembers'', \<lambda>n. True),
     (''scard'', \<lambda>n. True), (''setbit'', \<lambda>n. True), (''getbit'', \<lambda>n. True), (''bitcount'', \<lambda>n. True), (''pfadd'', \<lambda>n. True),
     (''pfcount'', \<lambda>n. True), (''pfmerge'', \<lambda>n. True), (''multi'', \<lambda>n. True), (''exec'', \<lambda>n. True), (''watch'', \<lambda>n. True),
     (''discard'', \<lambda>n. True)]"

definition accepted :: "dstr list \<Rightarrow> bool" where
  "accepted cmd \<longleftrightarrow> list_ex (\<lambda>(name, ok). map tolower (text_of (cmd ! 0)) = msg name \<and> ok (length cmd)) commands"

lemma skip_if:
  "\<not> (b \<and> a) \<Longrightarrow> (if a \<and> b then x else y) = y"
  "\<not> (a \<and> b) \<Longrightarrow> (if a \<and> b then x else y) = y"
  "\<not> (c \<and> a \<and> b) \<Longrightarrow> (if a \<and> b \<and> c then x else y) = y"
  "\<not> (a \<and> True) \<Longrightarrow> \<not> (b \<and> True) \<Longrightarrow> \<not> (c \<and> True) \<Longrightarrow> \<not> (d \<and> True) \<Longrightarrow> (if a \<or> b \<or> c \<or> d then x else y) = y"
  "\<not> (a \<and> True) \<Longrightarrow> (if a then x else y) = y"
  by auto

lemma dispatch_unknown:
  assumes "wf_dstr t" and "\<not> accepted (t # ts)"
  shows "out_buffer F now g out (t # ts) = map_option (Pair g) (out_err out (msg ''unknown command''))"
proof -
  obtain buf where b: "lower_buf (dbuf t) = Some buf" "text_of (t\<lparr>dbuf := buf\<rparr>) = map tolower (text_of t)"
    using lower_name [OF assms(1)] by blast
  have a: "arg (t # ts) 0 = Some t" by (simp add: arg_def)
  from assms(2) show ?thesis
    unfolding out_buffer_def accepted_def commands_def a b Option.bind.bind_lunit Let_def list_update.simps nat.case nth_Cons_0
      list_ex_Nil_iff list_ex_Cons_iff prod.case length_Cons de_Morgan_disj
    by (elim conjE) ((erule skip_if(1-3) [THEN trans] | (erule skip_if(4) [THEN trans], assumption, assumption, assumption)
      | erule skip_if(5) [THEN trans])+, rule refl)
qed

lemma named_cong: "wf_dstr t' \<Longrightarrow> dstr_bytes t' = dstr_bytes t \<Longrightarrow> named t name \<Longrightarrow> named t' name"
  by (simp add: named_def text_of_def)

lemma key_ok_cong: "wf_dstr t' \<Longrightarrow> dstr_bytes t' = dstr_bytes t \<Longrightarrow> key_ok t \<Longrightarrow> key_ok t' \<and> kof t' = kof t \<and> dsize t' = dsize t"
  by (metis key_ok_def kof_def length_dstr_bytes)

lemma open_reply_append: "open_reply out code payload @ xs = open_reply out code (payload @ xs)"
  by (simp add: open_reply_def)

lemma serve_more: "try_one_req F clk s c = Some (True, s') \<Longrightarrow> serve F clk c s = serve F clk c s'"
  by (subst serve.simps) simp

lemma serve_short: "conns s c = Some k \<Longrightarrow> length (incoming k) < 4 \<Longrightarrow> serve F clk c s = Some s"
  by (subst serve.simps) (simp add: try_one_req_def)

text \<open>One request of the client, served.\<close>

lemma serve_request:
  assumes "client_handle_write query = Some (Inr bs)" and "\<forall>t \<in> set query. wf_dstr t"
    and "5 + sum_list (map (\<lambda>t. 5 + dsize t) query) \<le> CLIENT_MAX_MESSAGE_LEN"
    and k: "conns s c = Some k" and inc: "incoming k = bs @ rest"
    and len: "length (outgoing k) < 2 ^ 32" "10 + length payload \<le> MAX_MESSAGE_LEN"
    and out: "\<And>cmd. map dstr_bytes cmd = map dstr_bytes query \<Longrightarrow> (\<forall>t \<in> set cmd. wf_dstr t) \<Longrightarrow> \<exists>g. P g
       \<and> out_buffer F (clk (ticks s)) (data s) (open_reply (outgoing k) RES_OK []) cmd = Some (g, open_reply (outgoing k) code payload)"
  shows "\<exists>g. P g \<and> serve F clk c s = serve F clk c (s\<lparr>ticks := ticks s + 1, data := g,
     conns := (conns s)(c \<mapsto> k\<lparr>incoming := rest, outgoing := outgoing k @ frame code payload\<rparr>)\<rparr>)"
proof -
  from request_parses [OF assms(2,3), of rest] obtain cmd where
    cmd: "length bs = 4 + unat (of_le32 bs)" "parse_cmd (drop 4 (bs @ rest)) = Some cmd"
      "map dstr_bytes cmd = map dstr_bytes query" "\<forall>t \<in> set cmd. wf_dstr t" using assms(1) by auto
  obtain g where g: "P g" "out_buffer F (clk (ticks s)) (data s) (open_reply (outgoing k) RES_OK []) cmd = Some (g, open_reply (outgoing k) code payload)"
    using out [OF cmd(3,4)] by blast
  with serve_more [OF try_one_req_frame [where F = F and clk = clk, OF k inc cmd(1,2) g(2) len]] show ?thesis by blast
qed

lemma out_buffer_set:
  assumes "hm_ok (gdb g)" and "named n ''set''" and "key_ok key" and "wf_dstr val" and "dsize val \<le> MAX_STR_SIZE"
    and old: "\<And>e. dbv g (kof key) = Some e \<Longrightarrow> \<exists>w. e = EStr w \<and> dsize val + dstr_cap w \<le> MAX_STR_SIZE"
    and cmd: "map dstr_bytes cmd = map dstr_bytes [n, key, val]" "\<forall>t \<in> set cmd. wf_dstr t"
  shows "\<exists>g'. (hm_ok (gdb g') \<and> (\<exists>v. wf_dstr v \<and> dstr_bytes v = dstr_bytes val \<and> dbv g' (kof key) = Some (EStr v)))
     \<and> out_buffer F now g (open_reply out RES_OK []) cmd = Some (g', open_reply out RES_OK (enc RNull))"
proof -
  obtain n' key' val' where c: "cmd = [n', key', val']" "wf_dstr n'" "wf_dstr key'" "wf_dstr val'"
    "dstr_bytes n' = dstr_bytes n" "dstr_bytes key' = dstr_bytes key" "dstr_bytes val' = dstr_bytes val"
    using cmd by (auto simp: map_eq_Cons_conv)
  have k: "key_ok key'" "kof key' = kof key" using key_ok_cong [OF c(3,6) assms(3)] by simp_all
  have v: "dsize val' = dsize val" using c(4,7) assms(4) by (metis length_dstr_bytes)
  obtain t where t: "out_buffer F now g (open_reply out RES_OK []) cmd = call (do_set g (open_reply out RES_OK []) [t, key', val'])"
    using dispatch_set [OF named_cong [OF c(2,5) assms(2)]] c(1) by blast
  from do_set_spec [OF assms(1) k(1) c(4), of "open_reply out RES_OK []" t] assms(5) old v k(2) obtain g' w where
    "do_set g (open_reply out RES_OK []) [t, key', val'] = Some (SUCCESS, g', out_null (open_reply out RES_OK []))"
    "hm_ok (gdb g')" "wf_dstr w" "dstr_bytes w = dstr_bytes val" "kept ((dbv g)(kof key \<mapsto> EStr w)) (dbv g')"
    using c(7) by auto
  moreover from this(5) have "dbv g' (kof key) = Some (EStr w)" using kept_plain [of _ _ "kof key"] by fastforce
  ultimately show ?thesis using t by (auto simp: call_def out_null_def buf_defs open_reply_append)
qed

lemma out_buffer_get:
  assumes "hm_ok (gdb g)" and "named n ''get''" and "key_ok key" and "dbv g (kof key) = Some (EStr v)" and "wf_dstr v" and "dsize v < 2 ^ 32"
    and cmd: "map dstr_bytes cmd = map dstr_bytes [n, key]" "\<forall>t \<in> set cmd. wf_dstr t"
  shows "out_buffer F now g (open_reply out RES_OK []) cmd = Some (g, open_reply out RES_OK (enc (RStr (dstr_bytes v))))"
proof -
  obtain n' key' where c: "cmd = [n', key']" "wf_dstr n'" "wf_dstr key'" "dstr_bytes n' = dstr_bytes n" "dstr_bytes key' = dstr_bytes key"
    using cmd by (auto simp: map_eq_Cons_conv)
  have k: "key_ok key'" "kof key' = kof key" using key_ok_cong [OF c(3,5) assms(3)] by simp_all
  obtain t where "out_buffer F now g (open_reply out RES_OK []) cmd = call (do_get g (open_reply out RES_OK []) [t, key'])"
    using dispatch_get [OF named_cong [OF c(2,4) assms(2)]] c(1) by blast
  then show ?thesis using do_get_spec [OF assms(1) k(1) _ assms(5,6)] assms(4) k(2) by (simp add: call_def open_reply_append)
qed

section \<open>Properties of request processing\<close>

text \<open>C9: a client that sends \<open>SET key val\<close> and \<open>GET key\<close> in one piece, followed by the beginning of
  another request, gets the two replies in order, the second with exactly the bytes of the
  first request's value; the rest of the input is kept for later.\<close>

theorem pipelined_set_get:
  assumes "hm_ok (gdb (data s))" and "named n1 ''set''" and "named n2 ''get''" and "key_ok key" and "wf_dstr val"
    and "20 + dsize n1 + dsize key + dsize val \<le> CLIENT_MAX_MESSAGE_LEN" and "15 + dsize n2 + dsize key \<le> CLIENT_MAX_MESSAGE_LEN"
    and "\<And>e. dbv (data s) (kof key) = Some e \<Longrightarrow> \<exists>w. e = EStr w \<and> dsize val + dstr_cap w \<le> MAX_STR_SIZE"
    and "client_handle_write [n1, key, val] = Some (Inr bs1)" and "client_handle_write [n2, key] = Some (Inr bs2)"
    and "conns s c = Some k" and "incoming k = bs1 @ bs2 @ tail" and "length tail < 4" and "outgoing k = []"
  shows "\<exists>s' k' r. serve F clk c s = Some s' \<and> conns s' c = Some k' \<and> incoming k' = tail
     \<and> client_handle_read (outgoing k') = Some (Inr (RES_OK, [INull], r))
     \<and> client_handle_read r = Some (Inr (RES_OK, [received (RStr (dstr_bytes val))], []))"
proof -
  let ?f1 = "frame RES_OK (enc RNull)" and ?f2 = "frame RES_OK (enc (RStr (dstr_bytes val)))"
  have wf: "wf_dstr n1" "wf_dstr n2" "wf_dstr key" using assms(2-4) by (simp_all add: named_def key_ok_def)
  have sz: "dsize val \<le> MAX_STR_SIZE" "dsize val \<le> 4096" using assms(6) by (simp_all add: CLIENT_MAX_MESSAGE_LEN_def MAX_STR_SIZE_def)
  let ?P = "\<lambda>g. hm_ok (gdb g) \<and> (\<exists>v. wf_dstr v \<and> dstr_bytes v = dstr_bytes val \<and> dbv g (kof key) = Some (EStr v))"
  let ?k1 = "k\<lparr>incoming := bs2 @ tail, outgoing := outgoing k @ ?f1\<rparr>"
  let ?s1 = "\<lambda>g. s\<lparr>ticks := ticks s + 1, data := g, conns := (conns s)(c \<mapsto> ?k1)\<rparr>"
  have "\<exists>g. ?P g \<and> serve F clk c s = serve F clk c (?s1 g)"
  proof (rule serve_request [OF assms(9) _ _ assms(11,12)])
    show "\<forall>t \<in> set [n1, key, val]. wf_dstr t" using wf assms(5) by simp
    show "5 + sum_list (map (\<lambda>t. 5 + dsize t) [n1, key, val]) \<le> CLIENT_MAX_MESSAGE_LEN" using assms(6) by simp
    show "length (outgoing k) < 2 ^ 32" "10 + length (enc RNull) \<le> MAX_MESSAGE_LEN"
      using assms(14) by (simp_all add: MAX_MESSAGE_LEN_def)
    show "\<exists>g. ?P g \<and> out_buffer F (clk (ticks s)) (data s) (open_reply (outgoing k) RES_OK []) cmd
        = Some (g, open_reply (outgoing k) RES_OK (enc RNull))"
      if "map dstr_bytes cmd = map dstr_bytes [n1, key, val]" "\<forall>t \<in> set cmd. wf_dstr t" for cmd
      by (rule out_buffer_set [OF assms(1,2,4,5) sz(1) assms(8) that])
  qed
  then obtain g1 v where g1: "hm_ok (gdb g1)" "wf_dstr v" "dstr_bytes v = dstr_bytes val" "dbv g1 (kof key) = Some (EStr v)"
    and s1: "serve F clk c s = serve F clk c (?s1 g1)" by blast
  have v: "dsize v = dsize val" using g1(2,3) assms(5) by (metis length_dstr_bytes)
  let ?s = "?s1 g1"
  let ?k2 = "?k1\<lparr>incoming := tail, outgoing := outgoing ?k1 @ ?f2\<rparr>"
  let ?s2 = "\<lambda>g. ?s\<lparr>ticks := ticks ?s + 1, data := g, conns := (conns ?s)(c \<mapsto> ?k2)\<rparr>"
  have "\<exists>g. g = g1 \<and> serve F clk c ?s = serve F clk c (?s2 g)"
  proof (rule serve_request [OF assms(10), where k = ?k1])
    show "\<forall>t \<in> set [n2, key]. wf_dstr t" using wf by simp
    show "5 + sum_list (map (\<lambda>t. 5 + dsize t) [n2, key]) \<le> CLIENT_MAX_MESSAGE_LEN" using assms(7) by simp
    show "conns ?s c = Some ?k1" "incoming ?k1 = bs2 @ tail" by simp_all
    show "length (outgoing ?k1) < 2 ^ 32" using assms(14) by (simp add: frame_def)
    show "10 + length (enc (RStr (dstr_bytes val))) \<le> MAX_MESSAGE_LEN"
      using sz(2) assms(5) by (simp add: MAX_MESSAGE_LEN_def length_dstr_bytes)
    show "\<exists>g. g = g1 \<and> out_buffer F (clk (ticks ?s)) (data ?s) (open_reply (outgoing ?k1) RES_OK []) cmd
        = Some (g, open_reply (outgoing ?k1) RES_OK (enc (RStr (dstr_bytes val))))"
      if "map dstr_bytes cmd = map dstr_bytes [n2, key]" "\<forall>t \<in> set cmd. wf_dstr t" for cmd
      using out_buffer_get [OF g1(1) assms(3,4) g1(4,2) _ that] g1(3) v sz(2) by simp
  qed
  moreover have "serve F clk c (?s2 g1) = Some (?s2 g1)" by (rule serve_short [where k = ?k2]) (simp_all add: assms(13))
  ultimately have "serve F clk c s = Some (?s2 g1)" using s1 by simp
  moreover have "client_handle_read (?f1 @ ?f2) = Some (Inr (RES_OK, [INull], ?f2))"
    using client_reads_frame [of "[RNull]" RES_OK ?f2] by (simp add: MAX_MESSAGE_LEN_def received_def)
  moreover have "client_handle_read ?f2 = Some (Inr (RES_OK, [received (RStr (dstr_bytes val))], []))"
    using client_reads_frame [of "[RStr (dstr_bytes val)]" RES_OK "[]"] sz(2) assms(5) by (simp add: MAX_MESSAGE_LEN_def length_dstr_bytes)
  ultimately show ?thesis using assms(14)
    by (intro exI [of _ "?s2 g1"] exI [of _ ?k2] exI [of _ ?f2]) simp
qed

definition word3 :: "u8 \<Rightarrow> u8 \<Rightarrow> u8 \<Rightarrow> dstr" where
  "word3 a b c = \<lparr>dsize = 3, dfree = 0, dbuf = [Some a, Some b, Some c, Some 0]\<rparr>"

lemma named_word3:
  assumes "0 \<notin> {a, b, c}" and "msg name = map tolower [a, b, c]"
  shows "named (word3 a b c) name" "wf_dstr (word3 a b c)" "dsize (word3 a b c) = 3"
  using assms by (simp_all add: named_def word3_def wf_dstr_def text_of_def dstr_bytes_def cstr_def)

definition one_conn :: "gdata \<Rightarrow> bytes \<Rightarrow> server" where
  "one_conn g inc = \<lparr>data = g, conns = [0 \<mapsto> \<lparr>fd = 4, want_read = True, want_write = False, want_close = False, incoming = inc,
     outgoing = [], last_active_ms = 0, last_read_ms = 0, last_write_ms = 0\<rparr>], fd_to_conn = [], tnodes = Map.empty, ticks = 0\<rparr>"

theorem pipelined_set_get_witness:
  "\<exists>bs1 bs2 s' k' r. client_handle_write [word3 83 101 84, key_a, key_a] = Some (Inr bs1)
     \<and> client_handle_write [word3 71 69 84, key_a] = Some (Inr bs2)
     \<and> serve real_fpu (\<lambda>_. 0) 0 (one_conn empty_gdata (bs1 @ bs2 @ [5])) = Some s' \<and> conns s' 0 = Some k' \<and> incoming k' = [5]
     \<and> client_handle_read (outgoing k') = Some (Inr (RES_OK, [INull], r))
     \<and> client_handle_read r = Some (Inr (RES_OK, [IStr [Some 97, None]], []))"
proof -
  have n: "named (word3 83 101 84) ''set''" "wf_dstr (word3 83 101 84)" "dsize (word3 83 101 84) = 3"
      "named (word3 71 69 84) ''get''" "wf_dstr (word3 71 69 84)" "dsize (word3 71 69 84) = 3"
    using named_word3 [of 83 101 84 "''set''"] named_word3 [of 71 69 84 "''get''"] by (simp_all add: msg_def tolower_def)
  obtain bs1 where b1: "client_handle_write [word3 83 101 84, key_a, key_a] = Some (Inr bs1)"
    using request_parses [of "[word3 83 101 84, key_a, key_a]"] n by (auto simp: CLIENT_MAX_MESSAGE_LEN_def)
  obtain bs2 where b2: "client_handle_write [word3 71 69 84, key_a] = Some (Inr bs2)"
    using request_parses [of "[word3 71 69 84, key_a]"] n by (auto simp: CLIENT_MAX_MESSAGE_LEN_def)
  show ?thesis
    using pipelined_set_get [of "one_conn empty_gdata (bs1 @ bs2 @ [5])", OF _ n(1,4) key_a_ok(1,2) _ _ _ b1 b2, where c = 0 and tail = "[5]" and F = real_fpu and clk = "\<lambda>_. 0"]
      n b1 b2 by (simp add: one_conn_def empty_gdata_ok CLIENT_MAX_MESSAGE_LEN_def received_def str_buf_def)
qed


text \<open>C29: a request whose first word is not the name of a command, in any mixture of cases, or that
  has the wrong number of words for it, is answered with the error status and the message
  \<open>unknown command\<close>; the keyspace is unchanged and the request is consumed.\<close>

theorem unknown_command_reply:
  assumes "query \<noteq> []" and "\<forall>t \<in> set query. wf_dstr t" and "\<not> accepted query"
    and "5 + sum_list (map (\<lambda>t. 5 + dsize t) query) \<le> CLIENT_MAX_MESSAGE_LEN"
    and "client_handle_write query = Some (Inr bs)"
    and "conns s c = Some k" and "incoming k = bs @ tail" and "length tail < 4" and "length (outgoing k) < 2 ^ 32"
  shows "serve F clk c s = Some (s\<lparr>ticks := ticks s + 1, conns := (conns s)(c \<mapsto> k\<lparr>incoming := tail,
     outgoing := outgoing k @ frame RES_ERR (TAG_ERROR # le32 15 @ msg ''unknown command'')\<rparr>)\<rparr>)"
proof -
  let ?p = "TAG_ERROR # le32 15 @ msg ''unknown command''"
  let ?k = "k\<lparr>incoming := tail, outgoing := outgoing k @ frame RES_ERR ?p\<rparr>"
  have l: "length (msg ''unknown command'') = 15" by (simp add: msg_def)
  have "\<exists>g. g = data s \<and> serve F clk c s = serve F clk c (s\<lparr>ticks := ticks s + 1, data := g, conns := (conns s)(c \<mapsto> ?k)\<rparr>)"
  proof (rule serve_request [OF assms(5,2,4,6,7,9)])
    show "10 + length ?p \<le> MAX_MESSAGE_LEN" by (simp add: l MAX_MESSAGE_LEN_def)
    show "\<exists>g. g = data s \<and> out_buffer F (clk (ticks s)) (data s) (open_reply (outgoing k) RES_OK []) cmd
        = Some (g, open_reply (outgoing k) RES_ERR ?p)"
      if c: "map dstr_bytes cmd = map dstr_bytes query" "\<forall>t \<in> set cmd. wf_dstr t" for cmd
    proof -
      obtain t ts u us where q: "cmd = t # ts" "query = u # us" "dstr_bytes t = dstr_bytes u" "length ts = length us"
        using c(1) assms(1) by (cases cmd; cases query) (auto dest: map_eq_imp_length_eq)
      have "\<not> accepted cmd" using assms(3) q by (simp add: accepted_def text_of_def)
      then have "out_buffer F (clk (ticks s)) (data s) (open_reply (outgoing k) RES_OK []) cmd
          = map_option (Pair (data s)) (out_err (open_reply (outgoing k) RES_OK []) (msg ''unknown command''))"
        using dispatch_unknown [of t ts F] c(2) q(1) by simp
      then show ?thesis
        using out_err_frame(1) [of "outgoing k @ le32 0 @ TAG_ARR # le32 2 @ [TAG_INT]"] by (simp add: open_reply_def l)
    qed
  qed
  moreover have "serve F clk c (s\<lparr>ticks := ticks s + 1, data := data s, conns := (conns s)(c \<mapsto> ?k)\<rparr>)
      = Some (s\<lparr>ticks := ticks s + 1, data := data s, conns := (conns s)(c \<mapsto> ?k)\<rparr>)"
    by (rule serve_short [where k = ?k]) (simp_all add: assms(8))
  ultimately show ?thesis by simp
qed

theorem unknown_command_reply_witness:
  "\<exists>bs s' k'. client_handle_write [word3 71 69 84, key_a, key_a] = Some (Inr bs)
     \<and> serve real_fpu (\<lambda>_. 0) 0 (one_conn empty_gdata bs) = Some s' \<and> conns s' 0 = Some k'
     \<and> outgoing k' = frame RES_ERR (TAG_ERROR # le32 15 @ msg ''unknown command'')"
proof -
  let ?q = "[word3 71 69 84, key_a, key_a]"
  have n: "named (word3 71 69 84) ''get''" "wf_dstr (word3 71 69 84)" "dsize (word3 71 69 84) = 3"
    using named_word3 [of 71 69 84 "''get''"] by (simp_all add: msg_def tolower_def)
  have a: "\<not> accepted ?q" using n(1) by (simp add: accepted_def commands_def named_def msg_def)
  obtain bs where b: "client_handle_write ?q = Some (Inr bs)"
    using request_parses [of ?q] n by (auto simp: CLIENT_MAX_MESSAGE_LEN_def)
  show ?thesis
    using unknown_command_reply [of ?q, OF _ _ a _ b, of "one_conn empty_gdata bs" 0 _ "[]" real_fpu "\<lambda>_. 0"] n b
    by (simp add: one_conn_def CLIENT_MAX_MESSAGE_LEN_def)
qed

end
