(* ===== verification/Timers.thy ===== *)
theory Timers
  imports Server
begin

text \<open>
  The timeout lists of the server (\<open>close_conn\<close>, \<open>process_timers\<close>, \<open>next_timer_ms\<close> and the list
  operations of the handlers in \<open>src/src/server.cpp\<close>): when the three lists and the table of
  descriptors are consistent, what the timers do with them, and how the handlers leave that
  state behind.
\<close>


section \<open>The timeout lists\<close>

text \<open>Both the sentinel of list \<open>r\<close> and the nodes of the connections in it have addresses equal to
  \<open>r\<close> modulo three, so that the operations on one list leave the others alone.\<close>

definition tnode :: "nat \<Rightarrow> addr \<Rightarrow> addr" where
  "tnode r c = 3 * c + 3 + r"

lemma timeout_nodes:
  "idle_timeout c = tnode 0 c" "read_timeout c = tnode 1 c" "write_timeout c = tnode 2 c"
  "idle_list = 0" "read_list = 1" "write_list = 2"
  by (simp_all add: tnode_def idle_timeout_def read_timeout_def write_timeout_def idle_list_def read_list_def write_list_def)

lemma tnode_mod [simp]: "r < 3 \<Longrightarrow> tnode r c mod 3 = r" "tnode r c = tnode r d \<longleftrightarrow> c = d" "r < 3 \<Longrightarrow> tnode r c \<noteq> r"
  by (simp_all add: tnode_def) presburger

lemma tnode_other [simp]: "q < 3 \<Longrightarrow> r < 3 \<Longrightarrow> q \<noteq> r \<Longrightarrow> tnode q c \<noteq> tnode r d"
  by (metis tnode_mod(1))

text \<open>The list with sentinel \<open>h\<close> holds the connections \<open>cs\<close>.  The nodes of the other connections of \<open>D\<close> can be
  detached without harm: they have never been linked or, where \<open>lax\<close> allows it, they were the last to leave the list
  and still point at the sentinel, and the list is empty.  (\<open>dlist_deatach\<close> keeps the pointers of the node it removes.)\<close>

definition untouched :: "'a dstore \<Rightarrow> addr \<Rightarrow> bool" where
  "untouched t n \<longleftrightarrow> nextof t n = None \<and> prevof t n = None"

definition spent :: "bool \<Rightarrow> 'a dstore \<Rightarrow> addr \<Rightarrow> addr list \<Rightarrow> addr \<Rightarrow> bool" where
  "spent lax t h cs n \<longleftrightarrow> untouched t n \<or> lax \<and> cs = [] \<and> nextof t n = Some h \<and> prevof t n = Some h"

definition linked :: "bool \<Rightarrow> 'a dstore \<Rightarrow> addr \<Rightarrow> (addr \<Rightarrow> addr) \<Rightarrow> addr set \<Rightarrow> addr list \<Rightarrow> bool" where
  "linked lax t h node D cs \<longleftrightarrow> ring t h (map node cs) \<and> set cs \<subseteq> D
     \<and> (\<forall>c \<in> D. node c \<in> dom t \<and> (c \<notin> set cs \<longrightarrow> spent lax t h cs (node c)))"

lemmas linked_defs = linked_def spent_def untouched_def

text \<open>Only the write list is left empty between requests.\<close>

abbreviation fam :: "'a dstore \<Rightarrow> nat \<Rightarrow> addr set \<Rightarrow> addr list \<Rightarrow> bool" where
  "fam t r \<equiv> linked (r = 2) t r (tnode r)"

lemma linked_distinct: "linked lax t h node D cs \<Longrightarrow> distinct cs"
  by (auto simp: linked_def ring_def distinct_map)

definition same :: "'a dstore \<Rightarrow> 'a dstore \<Rightarrow> addr \<Rightarrow> bool" where
  "same t t' a \<longleftrightarrow> (a \<in> dom t' \<longleftrightarrow> a \<in> dom t) \<and> nextof t' a = nextof t a \<and> prevof t' a = prevof t a"

lemma ring_agree:
  assumes "ring t h xs" and "\<forall>a \<in> set (h # xs). same t t' a"
  shows "ring t' h xs"
proof -
  have "links t' (h # xs @ [h]) = links t (h # xs @ [h])"
    using assms(2) by (intro links_cong) (auto simp: same_def dest: in_set_butlastD split: if_splits)
  moreover have "set (h # xs) \<subseteq> dom t'"
    using assms(1) assms(2) [THEN bspec] by (intro subsetI) (simp only: ring_def same_def subset_iff)
  ultimately show ?thesis using assms(1) by (simp add: ring_def)
qed

lemma linked_agree:
  assumes "linked lax t h node D cs" and "D' \<subseteq> D" and "set cs \<subseteq> D'" and "\<And>a. a = h \<or> (\<exists>c \<in> D'. a = node c) \<Longrightarrow> same t t' a"
  shows "linked lax t' h node D' cs"
proof -
  have "same t t' a" if "a \<in> set (h # map node cs)" for a
    by (rule assms(4)) (use that assms(3) in auto)
  then have "ring t' h (map node cs)" using assms(1) ring_agree [of t] by (simp only: linked_def) blast
  moreover have "same t t' (node c)" if "c \<in> D'" for c using assms(4) that by blast
  ultimately show ?thesis using assms(1-3) unfolding linked_defs same_def by (metis subset_iff)
qed

lemma fam_other: "fam t q D cs \<Longrightarrow> q < 3 \<Longrightarrow> (\<And>a. a mod 3 = q \<Longrightarrow> same t t' a) \<Longrightarrow> fam t' q D cs"
  by (rule linked_agree [of "q = 2" t q "tnode q" D cs D]) (auto simp: linked_def)

lemma linked_untouched: "linked lax t h node D cs \<Longrightarrow> c \<in> D \<Longrightarrow> c \<notin> set cs \<Longrightarrow> \<not> lax \<or> cs \<noteq> [] \<Longrightarrow> untouched t (node c)"
  by (auto simp: linked_def spent_def)

lemma linked_empty:
  assumes "ring t h []" and "\<And>c. c \<in> D \<Longrightarrow> node c \<in> dom t \<and> spent lax t h [] (node c)"
  shows "linked lax t h node D []"
  using assms by (simp add: linked_def)

lemma same_trans: "same t t' a \<Longrightarrow> same t' t'' a \<Longrightarrow> same t t'' a"
  by (simp add: same_def)

lemma off_list: "r < 3 \<Longrightarrow> a mod 3 \<noteq> r \<Longrightarrow> a \<notin> insert r (tnode r ` X)"
  by auto

text \<open>One timeout list as the connections use it: an interface of the sentinel and of the node each connection
  owns in the list.  Its laws are all the operations on the list need.\<close>

locale timeout_list =
  fixes head :: addr and node :: "addr \<Rightarrow> addr"
  assumes node_inj: "node c = node d \<longleftrightarrow> c = d"
    and node_head: "node c \<noteq> head"
begin

lemma unlink_unlinked:
  assumes f: "linked lax t head node D cs" and "c \<in> D" and "c \<notin> set cs"
  shows "\<exists>t'. dlist_deatach t (node c) = Some t' \<and> dom t' = dom t \<and> (\<forall>a. same t t' a)"
proof -
  have n: "node c \<in> dom t" "spent lax t head cs (node c)" using assms by (simp_all add: linked_def)
  have r: "cs = [] \<Longrightarrow> head \<in> dom t \<and> nextof t head = Some head \<and> prevof t head = Some head" using f by (auto simp: linked_def ring_def)
  have "\<exists>t'. dlist_deatach t (node c) = Some t' \<and> dom t' = dom t
     \<and> nextof t' = (case prevof t (node c) of Some p \<Rightarrow> (nextof t)(p := nextof t (node c)) | None \<Rightarrow> nextof t)
     \<and> prevof t' = (case nextof t (node c) of Some x \<Rightarrow> (prevof t)(x := prevof t (node c)) | None \<Rightarrow> prevof t)"
    by (rule deatach_links [OF n(1)]) (use n(2) r in \<open>auto simp: spent_def untouched_def\<close>)
  then show ?thesis using n(2) r by (auto simp: same_def spent_def untouched_def)
qed

lemma unlink_linked:
  assumes f: "linked lax t head node D cs" and cs: "cs = xs @ c # ys"
  shows "\<exists>t'. dlist_deatach t (node c) = Some t' \<and> linked lax t' head node (D - {c}) (xs @ ys) \<and> dom t' = dom t
     \<and> (\<forall>a. a \<notin> insert head (node ` set (xs @ ys)) \<longrightarrow> same t t' a)"
proof -
  have d: "c \<notin> set (xs @ ys)" "distinct (xs @ ys)" using linked_distinct [OF f] cs by auto
  have "ring t head (map node xs @ node c # map node ys)" using f cs by (simp add: linked_def)
  from ring_deatach [OF this] obtain t' where t': "dlist_deatach t (node c) = Some t'"
      "ring t' head (map node (xs @ ys))" "dom t' = dom t"
      "\<forall>a. a \<notin> insert head (node ` set (xs @ ys)) \<longrightarrow> nextof t' a = nextof t a \<and> prevof t' a = prevof t a" by (auto simp: image_Un)
  then have p: "nextof t' (node b) = nextof t (node b) \<and> prevof t' (node b) = prevof t (node b)" if "b \<notin> set (xs @ ys)" for b
    using that by (intro t'(4) [rule_format]) (auto simp: node_inj node_head simp del: set_append)
  have "linked lax t' head node (D - {c}) (xs @ ys)" using f t'(2,3) d cs unfolding linked_defs by (auto simp: p)
  with t' show ?thesis by (auto simp: same_def)
qed

text \<open>The last connection that leaves the list is spent.\<close>

lemma unlink_last:
  assumes f: "linked True t head node D [c]"
  shows "\<exists>t'. dlist_deatach t (node c) = Some t' \<and> linked True t' head node D [] \<and> dom t' = dom t
     \<and> (\<forall>a. a \<noteq> head \<longrightarrow> same t t' a)"
proof -
  from unlink_linked [OF f, of "[]" c "[]"] obtain t' where
    t': "dlist_deatach t (node c) = Some t'" "linked True t' head node (D - {c}) []" "dom t' = dom t" "\<forall>a. a \<noteq> head \<longrightarrow> same t t' a" by auto
  have "nextof t (node c) = Some head" "prevof t (node c) = Some head" "node c \<in> dom t" using f by (auto simp: linked_def ring_def)
  then have "node c \<in> dom t' \<and> spent True t' head [] (node c)" using t'(4) node_head by (simp add: same_def spent_def)
  then have "linked True t' head node D []" using t'(2) by (auto simp: linked_def)
  with t' show ?thesis by blast
qed

lemma unlink:
  assumes f: "linked lax t head node D cs" and c: "c \<in> D"
  shows "\<exists>t'. dlist_deatach t (node c) = Some t' \<and> linked lax t' head node (D - {c}) (removeAll c cs) \<and> dom t' = dom t
     \<and> (\<forall>a. a \<notin> insert head (node ` (set cs - {c})) \<longrightarrow> same t t' a)"
proof (cases "c \<in> set cs")
  case True
  then obtain xs ys where cs: "cs = xs @ c # ys" by (meson split_list)
  have "c \<notin> set (xs @ ys)" using linked_distinct [OF f] cs by auto
  then have "removeAll c cs = xs @ ys" "set cs - {c} = set (xs @ ys)" using cs by auto
  with unlink_linked [OF f cs] show ?thesis by simp
next
  case False
  from unlink_unlinked [OF f c False] obtain t' where t': "dlist_deatach t (node c) = Some t'" "dom t' = dom t" "\<And>a. same t t' a" by blast
  have "linked lax t' head node (D - {c}) cs" using f False by (intro linked_agree [OF f]) (auto simp: t'(3) linked_def)
  with False t' show ?thesis by (simp add: removeAll_id)
qed

lemma link_last:
  assumes f: "linked lax t head node D cs" and c: "node c \<in> dom t" "c \<notin> set cs" and F: "F \<subseteq> insert c D" "set (c # cs) \<subseteq> F"
    and u: "\<And>d. d \<in> F \<Longrightarrow> d \<notin> set (c # cs) \<Longrightarrow> untouched t (node d)"
  shows "\<exists>t'. dlist_insert_before t head (node c) = Some t' \<and> linked lax t' head node F (cs @ [c]) \<and> dom t' = dom t
     \<and> (\<forall>a. a \<notin> insert head (node ` set (c # cs)) \<longrightarrow> same t t' a)"
proof -
  have "node c \<notin> set (head # map node cs)" using c(2) by (auto simp: node_inj node_head)
  with c(1) ring_insert_before [of t head "map node cs" "node c"] f obtain t' where
    t': "dlist_insert_before t head (node c) = Some t'" "ring t' head (map node (cs @ [c]))" "dom t' = dom t"
      "\<forall>a. a \<notin> insert head (node ` set (c # cs)) \<longrightarrow> nextof t' a = nextof t a \<and> prevof t' a = prevof t a" by (auto simp: linked_def)
  have p: "nextof t' (node b) = nextof t (node b) \<and> prevof t' (node b) = prevof t (node b)" if "b \<notin> set (c # cs)" for b
    using that by (intro t'(4) [rule_format]) (auto simp: node_inj node_head)
  have "spent lax t' head (cs @ [c]) (node d)" if "d \<in> F" "d \<notin> set (cs @ [c])" for d
    using u [of d] p [of d] that by (simp add: spent_def untouched_def)
  then have "linked lax t' head node F (cs @ [c])" using f c(1) t'(2,3) F unfolding linked_def by auto
  with t' show ?thesis by (auto simp: same_def)
qed

text \<open>The usual case: every connection of the server can be followed.\<close>

lemma link_last_all:
  assumes f: "linked lax t head node D cs" and c: "c \<in> D" "c \<notin> set cs" and "\<not> lax \<or> cs \<noteq> []"
  shows "\<exists>t'. dlist_insert_before t head (node c) = Some t' \<and> linked lax t' head node D (cs @ [c]) \<and> dom t' = dom t
     \<and> (\<forall>a. a \<notin> insert head (node ` set (c # cs)) \<longrightarrow> same t t' a)"
  by (rule link_last [OF f]) (use f c linked_untouched [OF f _ _ assms(4)] in \<open>auto simp: linked_def\<close>)

text \<open>A connection that comes back.\<close>

lemma link_last_back:
  assumes f: "linked False t head node (D - {c}) cs" and c: "node c \<in> dom t" "c \<in> D" "c \<notin> set cs"
  shows "\<exists>t'. dlist_insert_before t head (node c) = Some t' \<and> linked False t' head node D (cs @ [c]) \<and> dom t' = dom t
     \<and> (\<forall>a. a \<notin> insert head (node ` set (c # cs)) \<longrightarrow> same t t' a)"
  by (rule link_last [OF f c(1,3)]) (use f c(2) linked_untouched [OF f] in \<open>auto simp: linked_def\<close>)

end

text \<open>The three lists of the server are such lists.\<close>

interpretation idle: timeout_list 0 "tnode 0"
  by unfold_locales simp_all

interpretation reads: timeout_list 1 "tnode 1"
  by unfold_locales simp_all

interpretation writes: timeout_list 2 "tnode 2"
  by unfold_locales simp_all

text \<open>Every connection has its entry in the table of descriptors.\<close>

definition fds_ok :: "server \<Rightarrow> bool" where
  "fds_ok s \<longleftrightarrow> (\<forall>c k. conns s c = Some k \<longrightarrow> fd k < length (fd_to_conn s) \<and> fd_to_conn s ! fd k = Some c)"

text \<open>The three lists with the connections in them; \<open>D\<close> are those whose nodes can be trusted.\<close>

definition lists_ok :: "'a dstore \<Rightarrow> addr set \<Rightarrow> (nat \<Rightarrow> addr list) \<Rightarrow> bool" where
  "lists_ok t D L \<longleftrightarrow> fam t 0 D (L 0) \<and> fam t 1 D (L 1) \<and> fam t 2 D (L 2)"

text \<open>The state between requests: every connection whose replies have been sent is in the read list, and its node for
  the empty write list still points at the sentinel.\<close>

definition conns_ok :: "server \<Rightarrow> (nat \<Rightarrow> addr list) \<Rightarrow> bool" where
  "conns_ok s L \<longleftrightarrow> lists_ok (tnodes s) (dom (conns s)) L \<and> fds_ok s"

lemma unlink_all:
  assumes "fam t 0 D0 (L 0)" "fam t 1 D1 (L 1)" "fam t 2 D2 (L 2)" and c: "c \<in> D0" "c \<in> D1" "c \<in> D2"
  shows "\<exists>t0 t1 t2. dlist_deatach t (tnode 0 c) = Some t0 \<and> dlist_deatach t0 (tnode 1 c) = Some t1 \<and> dlist_deatach t1 (tnode 2 c) = Some t2
     \<and> fam t2 0 (D0 - {c}) (removeAll c (L 0)) \<and> fam t2 1 (D1 - {c}) (removeAll c (L 1)) \<and> fam t2 2 (D2 - {c}) (removeAll c (L 2))
     \<and> dom t2 = dom t \<and> (\<forall>a. (\<forall>r < 3. a \<notin> insert r (tnode r ` (set (L r) - {c}))) \<longrightarrow> same t t2 a)"
proof -
  let ?out = "\<lambda>r a. a \<notin> insert r (tnode r ` (set (L r) - {c}))"
  obtain t0 where t0: "dlist_deatach t (tnode 0 c) = Some t0" "fam t0 0 (D0 - {c}) (removeAll c (L 0))" "dom t0 = dom t"
    "\<And>a. ?out 0 a \<Longrightarrow> same t t0 a" using idle.unlink [OF assms(1,4)] by auto
  have "fam t0 1 D1 (L 1)" using assms(2) by (rule fam_other) (simp_all add: t0(4) off_list del: insert_iff)
  from reads.unlink [OF this c(2)] obtain t1 where t1: "dlist_deatach t0 (tnode 1 c) = Some t1" "fam t1 1 (D1 - {c}) (removeAll c (L 1))" "dom t1 = dom t0"
    "\<And>a. ?out 1 a \<Longrightarrow> same t0 t1 a" by auto
  have s1: "same t t1 a" if "?out 0 a" "?out 1 a" for a
    using same_trans [OF t0(4) t1(4)] that by blast
  have "fam t1 2 D2 (L 2)" using assms(3) by (rule fam_other) (simp_all add: s1 off_list del: insert_iff)
  from writes.unlink [OF this c(3)] obtain t2 where t2: "dlist_deatach t1 (tnode 2 c) = Some t2" "fam t2 2 (D2 - {c}) (removeAll c (L 2))" "dom t2 = dom t1"
    "\<And>a. ?out 2 a \<Longrightarrow> same t1 t2 a" by auto
  have f1: "fam t2 1 (D1 - {c}) (removeAll c (L 1))"
    using t1(2) by (rule fam_other) (simp_all add: t2(4) off_list del: insert_iff)
  have s2: "same t0 t2 a" if "?out 1 a" "?out 2 a" for a
    using same_trans [OF t1(4) t2(4)] that by blast
  have "fam t2 0 (D0 - {c}) (removeAll c (L 0))"
    using t0(2) by (rule fam_other) (simp_all add: s2 off_list del: insert_iff)
  moreover have "same t t2 a" if "\<forall>r < 3. ?out r a" for a
    using same_trans [OF s1 t2(4)] that [rule_format, of 0] that [rule_format, of 1] that [rule_format, of 2] by simp
  ultimately show ?thesis using t0(1,3) t1(1,3) t2(1,2,3) f1 by auto
qed

text \<open>Closing a connection whose nodes can be trusted.\<close>

lemma free_nodes:
  "a \<notin> {tnode 0 c, tnode 1 c, tnode 2 c} \<Longrightarrow> same t (t(tnode 0 c := None, tnode 1 c := None, tnode 2 c := None)) a"
  by (simp add: same_def nextof_def prevof_def domIff)

lemma close_conn_fam:
  assumes f: "fam (tnodes s) 0 D0 (L 0)" "fam (tnodes s) 1 D1 (L 1)" "fam (tnodes s) 2 D2 (L 2)" and c: "c \<in> D0" "c \<in> D1" "c \<in> D2"
    and k: "conns s c = Some k" "fd k < length (fd_to_conn s)"
  shows "\<exists>t. close_conn s c = Some (s\<lparr>conns := (conns s)(c := None), fd_to_conn := (fd_to_conn s)[fd k := None], tnodes := t\<rparr>)
     \<and> fam t 0 (D0 - {c}) (removeAll c (L 0)) \<and> fam t 1 (D1 - {c}) (removeAll c (L 1)) \<and> fam t 2 (D2 - {c}) (removeAll c (L 2))
     \<and> dom t = dom (tnodes s) - {tnode 0 c, tnode 1 c, tnode 2 c}
     \<and> (\<forall>a. (\<forall>r < 3. a \<notin> insert r (insert (tnode r c) (tnode r ` set (L r)))) \<longrightarrow> same (tnodes s) t a)"
proof -
  from unlink_all [OF f c] obtain t0 t1 t2 where
    d: "dlist_deatach (tnodes s) (tnode 0 c) = Some t0" "dlist_deatach t0 (tnode 1 c) = Some t1" "dlist_deatach t1 (tnode 2 c) = Some t2"
    and t2: "fam t2 0 (D0 - {c}) (removeAll c (L 0))" "fam t2 1 (D1 - {c}) (removeAll c (L 1))" "fam t2 2 (D2 - {c}) (removeAll c (L 2))"
      "dom t2 = dom (tnodes s)" "\<forall>a. (\<forall>r < 3. a \<notin> insert r (tnode r ` (set (L r) - {c}))) \<longrightarrow> same (tnodes s) t2 a" by blast
  let ?t = "t2(tnode 0 c := None, tnode 1 c := None, tnode 2 c := None)"
  have st: "same t2 ?t a" if "a = r \<and> r < 3 \<or> (\<exists>b. b \<noteq> c \<and> r < 3 \<and> a = tnode r b)" for a r
    using that by (intro free_nodes) (auto simp: tnode_def)
  have fm: "fam ?t r (D - {c}) (removeAll c cs)" if "fam t2 r (D - {c}) (removeAll c cs)" "r < 3" for r D cs
  proof (rule linked_agree [OF that(1) order_refl])
    show "set (removeAll c cs) \<subseteq> D - {c}" using that(1) by (simp add: linked_def)
    show "same t2 ?t a" if "a = r \<or> (\<exists>b \<in> D - {c}. a = tnode r b)" for a using that \<open>r < 3\<close> by (intro st [of a r]) auto
  qed
  have "same (tnodes s) ?t a" if "\<forall>r < 3. a \<notin> insert r (insert (tnode r c) (tnode r ` set (L r)))" for a
  proof (rule same_trans [OF t2(5) [rule_format] free_nodes])
    show "a \<notin> insert r (tnode r ` (set (L r) - {c}))" if "r < 3" for r using that \<open>\<forall>r < 3. _\<close> by auto
    show "a \<notin> {tnode 0 c, tnode 1 c, tnode 2 c}" using that [rule_format, of 0] that [rule_format, of 1] that [rule_format, of 2] by simp
  qed
  moreover have "close_conn s c = Some (s\<lparr>conns := (conns s)(c := None), fd_to_conn := (fd_to_conn s)[fd k := None], tnodes := ?t\<rparr>)"
    using k d by (simp add: close_conn_def conn_at_def detach_def timeout_nodes)
  moreover have "dom ?t = dom (tnodes s) - {tnode 0 c, tnode 1 c, tnode 2 c}" using t2(4) by auto
  ultimately show ?thesis using fm [OF t2(1)] fm [OF t2(2)] fm [OF t2(3)] by (intro exI [of _ ?t]) simp
qed

lemma close_conn_spec:
  assumes "conns_ok s L" and "conns s c = Some k"
  shows "\<exists>s'. close_conn s c = Some s' \<and> conns_ok s' (\<lambda>r. removeAll c (L r)) \<and> conns s' = (conns s)(c := None)
     \<and> data s' = data s \<and> ticks s' = ticks s \<and> fd_to_conn s' = (fd_to_conn s)[fd k := None]"
proof -
  have f: "fam (tnodes s) 0 (dom (conns s)) (L 0)" "fam (tnodes s) 1 (dom (conns s)) (L 1)" "fam (tnodes s) 2 (dom (conns s)) (L 2)"
    and k: "fds_ok s" using assms(1) by (simp_all add: conns_ok_def lists_ok_def)
  have c: "c \<in> dom (conns s)" "fd k < length (fd_to_conn s)" using assms(2) k by (auto simp: fds_ok_def)
  from close_conn_fam [where L = L, OF f c(1,1,1) assms(2) c(2)] obtain t where
    t: "close_conn s c = Some (s\<lparr>conns := (conns s)(c := None), fd_to_conn := (fd_to_conn s)[fd k := None], tnodes := t\<rparr>)" (is "_ = Some ?s")
      "fam t 0 (dom (conns s) - {c}) (removeAll c (L 0))" "fam t 1 (dom (conns s) - {c}) (removeAll c (L 1))"
      "fam t 2 (dom (conns s) - {c}) (removeAll c (L 2))" by blast
  have "fds_ok ?s" unfolding fds_ok_def
  proof (intro allI impI)
    fix b j assume "conns ?s b = Some j"
    then have b: "b \<noteq> c" "conns s b = Some j" by (auto split: if_splits)
    then have "fd j < length (fd_to_conn s)" "fd_to_conn s ! fd j = Some b" "fd_to_conn s ! fd k = Some c" using k assms(2) by (auto simp: fds_ok_def)
    with b(1) show "fd j < length (fd_to_conn ?s) \<and> fd_to_conn ?s ! fd j = Some b" by (cases "fd j = fd k") auto
  qed
  with t show ?thesis by (simp add: conns_ok_def lists_ok_def)
qed


text \<open>The lists without the connections of a set.\<close>

definition without :: "addr list \<Rightarrow> (nat \<Rightarrow> addr list) \<Rightarrow> nat \<Rightarrow> addr list" where
  "without X L r = filter (\<lambda>c. c \<notin> set X) (L r)"

lemma without_simps:
  "without [] L = L" "without xs (without [x] L) = without (x # xs) L" "without [c] L = (\<lambda>r. removeAll c (L r))"
  "without ys (without xs L) = without (xs @ ys) L"
  by (auto simp: without_def fun_eq_iff removeAll_filter_not_eq intro!: filter_cong)

definition stale :: "(Conn \<Rightarrow> u64) \<Rightarrow> u64 \<Rightarrow> u64 \<Rightarrow> server \<Rightarrow> addr \<Rightarrow> bool" where
  "stale stamp limit curr_ms s c \<longleftrightarrow> stamp (the (conns s c)) + limit < curr_ms"

lemma ring_first: "ring t h (x # xs) \<Longrightarrow> t h \<noteq> None \<and> nextof t h = Some x"
  by (auto simp: ring_def)

lemma conns_ok_fam: "conns_ok s L \<Longrightarrow> r < 3 \<Longrightarrow> fam (tnodes s) r (dom (conns s)) (L r)"
proof -
  assume "conns_ok s L" and "r < 3"
  from this(2) have "r = 0 \<or> r = 1 \<or> r = 2" by linarith
  with \<open>conns_ok s L\<close> show ?thesis by (auto simp: conns_ok_def lists_ok_def)
qed

lemma reap_spec:
  assumes "conns_ok s L" and "r < 3" and "X = takeWhile (stale stamp limit curr_ms s) (L r)"
  shows "\<exists>s'. reap r (tnode r) stamp limit curr_ms s = Some s' \<and> conns_ok s' (without X L)
     \<and> conns s' = conns s |` (- set X) \<and> data s' = data s \<and> ticks s' = ticks s"
  using assms
proof (induction "L r" arbitrary: s L X)
  case Nil
  then have "fam (tnodes s) r (dom (conns s)) []" using conns_ok_fam [of s L r] by simp
  then have "dlist_empty (tnodes s) r = Some True" by (auto simp: linked_def ring_def dlist_empty_def nextof_def bind_eq_Some_conv)
  with Nil show ?case by (subst reap.simps) (simp add: without_simps restrict_map_def)
next
  case (Cons c cs)
  then have f: "fam (tnodes s) r (dom (conns s)) (c # cs)" using conns_ok_fam [of s L r] by simp
  then obtain k h where k: "conns s c = Some k" "tnodes s r = Some h" "dnext h = Some (tnode r c)"
    using ring_first [of "tnodes s" r "tnode r c" "map (tnode r) cs"] by (auto simp: linked_def nextof_def)
  have e: "dlist_empty (tnodes s) r = Some False" using k Cons.prems(2) by (simp add: dlist_empty_def)
  have d: "(tnode r c - tnode r 0) div 3 = c" by (simp add: tnode_def)
  show ?case
  proof (cases "stale stamp limit curr_ms s c")
    case False
    then have "X = []" using Cons.prems(3) Cons.hyps(2) [symmetric] by simp
    then show ?thesis using False Cons.prems(1) k e d by (subst reap.simps) (simp add: stale_def without_simps Let_def not_less restrict_map_def)
  next
    case True
    from close_conn_spec [OF Cons.prems(1) k(1)] obtain s1 where
      s1: "close_conn s c = Some s1" "conns_ok s1 (without [c] L)" "conns s1 = (conns s)(c := None)" "data s1 = data s" "ticks s1 = ticks s"
      by (auto simp: without_simps)
    have dist: "c \<notin> set cs" using linked_distinct [OF f] by simp
    have cs: "without [c] L r = cs" using dist Cons.hyps(2) [symmetric] by (auto simp: without_def filter_id_conv)
    have st: "takeWhile (stale stamp limit curr_ms s1) cs = takeWhile (stale stamp limit curr_ms s) cs"
      using dist by (intro takeWhile_cong) (auto simp: stale_def s1(3))
    from Cons.hyps(1) [OF cs [symmetric] s1(2) Cons.prems(2) refl] obtain s2 where
      s2: "reap r (tnode r) stamp limit curr_ms s1 = Some s2" "conns_ok s2 (without X L)"
      "conns s2 = conns s1 |` (- set (takeWhile (stale stamp limit curr_ms s) cs))" "data s2 = data s" "ticks s2 = ticks s"
      using True Cons.prems(3) Cons.hyps(2) [symmetric] s1(4,5) by (auto simp: without_simps(2) cs st)
    have "reap r (tnode r) stamp limit curr_ms s = Some s2"
      using True k e d s1(1) s2(1) by (subst reap.simps) (simp add: stale_def Let_def not_less)
    moreover have "conns s2 = conns s |` (- set X)"
      using s2(3) True Cons.prems(3) Cons.hyps(2) [symmetric] by (auto simp: s1(3) restrict_map_def fun_eq_iff)
    ultimately show ?thesis using s2 by blast
  qed
qed

text \<open>C23: each of the three loops of \<open>process_timers\<close> closes the connections at the front of its list up to the first whose
  time is not up: first those of the idle list, then of the read list and of the write list among the
  connections that are left.  A connection that is overdue behind one that is not stays open.  All three
  loops end, no other connection changes, and the lists and the table of descriptors stay consistent: \<open>conns_ok\<close>, which
  holds between requests, also of connections whose replies have been sent, but not while several replies are
  pending (what can happen then is the fault shown below).\<close>

theorem process_timers_closes_expired:
  assumes "conns_ok s L" and "now = clk (ticks s)" and "expire_loop (MAX_TTL_TASKS + 1) now (data s) = Some g"
    and "X = takeWhile (stale last_active_ms IDLE_TIMEOUT_MS now s) (L 0)"
    and "Y = takeWhile (stale last_read_ms READ_TIMEOUT_MS now s) (without X L 1)"
    and "Z = takeWhile (stale last_write_ms WRITE_TIMEOUT_MS now s) (without (X @ Y) L 2)"
  shows "\<exists>s'. process_timers clk s = Some s' \<and> conns s' = conns s |` (- set (X @ Y @ Z)) \<and> conns_ok s' (without (X @ Y @ Z) L)
     \<and> data s' = g"
proof -
  let ?s = "s\<lparr>ticks := ticks s + 1\<rparr>"
  have left: "takeWhile (stale f l now u) (without A L r) = takeWhile (stale f l now s) (without A L r)"
    if "conns u = conns s |` (- set A)" for f l u A r
    using that by (intro takeWhile_cong) (auto simp: stale_def without_def)
  have "conns_ok ?s L" "stale f l now ?s = stale f l now s" for f l using assms(1) by (simp_all add: conns_ok_def fds_ok_def stale_def fun_eq_iff)
  with reap_spec [of ?s L 0 X last_active_ms IDLE_TIMEOUT_MS now] assms(4) obtain s1 where
    s1: "reap 0 (tnode 0) last_active_ms IDLE_TIMEOUT_MS now ?s = Some s1" "conns_ok s1 (without X L)" "conns s1 = conns s |` (- set X)" "data s1 = data s"
    by auto
  from reap_spec [OF s1(2), of 1 Y last_read_ms READ_TIMEOUT_MS now] assms(5) obtain s2 where
    s2: "reap 1 (tnode 1) last_read_ms READ_TIMEOUT_MS now s1 = Some s2" "conns_ok s2 (without (X @ Y) L)" "conns s2 = conns s |` (- set (X @ Y))" "data s2 = data s"
    by (auto simp: left [OF s1(3)] s1(3,4) without_simps)
  from reap_spec [OF s2(2), of 2 Z last_write_ms WRITE_TIMEOUT_MS now] assms(6) obtain s3 where
    s3: "reap 2 (tnode 2) last_write_ms WRITE_TIMEOUT_MS now s2 = Some s3" "conns_ok s3 (without (X @ Y @ Z) L)" "conns s3 = conns s |` (- set (X @ Y @ Z))" "data s3 = data s"
    by (auto simp: left [OF s2(3)] s2(3,4) without_simps Int_assoc)
  have n: "idle_timeout = tnode 0" "read_timeout = tnode 1" "write_timeout = tnode 2" by (simp_all add: fun_eq_iff timeout_nodes)
  have "process_timers clk s = Some (s3\<lparr>data := g\<rparr>)"
    using s1(1) s2(1) s3(1,4) assms(2,3) by (simp add: process_timers_def get_curr_ms_def n timeout_nodes(4-) del: expire_loop.simps)
  with s3 show ?thesis by (auto simp: conns_ok_def fds_ok_def)
qed

text \<open>Two connections, the first silent for too long.\<close>

definition conn_since :: "nat \<Rightarrow> u64 \<Rightarrow> Conn" where
  "conn_since f t = \<lparr>fd = f, want_read = True, want_write = False, want_close = False, incoming = [],
     outgoing = [], last_active_ms = t, last_read_ms = t, last_write_ms = t\<rparr>"

definition two_conns :: server where
  "two_conns = \<lparr>data = empty_gdata, conns = [0 \<mapsto> conn_since 0 5, 1 \<mapsto> conn_since 1 200000], fd_to_conn = [Some 0, Some 1],
     tnodes = [0 \<mapsto> \<lparr>dprev = Some 6, dnext = Some 3, dval = ()\<rparr>, 1 \<mapsto> \<lparr>dprev = Some 1, dnext = Some 1, dval = ()\<rparr>,
       2 \<mapsto> \<lparr>dprev = Some 8, dnext = Some 5, dval = ()\<rparr>, 3 \<mapsto> \<lparr>dprev = Some 0, dnext = Some 6, dval = ()\<rparr>, 4 \<mapsto> fresh_node,
       5 \<mapsto> \<lparr>dprev = Some 2, dnext = Some 8, dval = ()\<rparr>, 6 \<mapsto> \<lparr>dprev = Some 3, dnext = Some 0, dval = ()\<rparr>, 7 \<mapsto> fresh_node,
       8 \<mapsto> \<lparr>dprev = Some 5, dnext = Some 2, dval = ()\<rparr>], ticks = 0\<rparr>"

definition two_lists :: "nat \<Rightarrow> addr list" where
  "two_lists r = (if r = 1 then [] else [0, 1])"

lemma two_conns_ok: "conns_ok two_conns two_lists"
  by (simp add: conns_ok_def lists_ok_def linked_defs ring_def two_conns_def two_lists_def tnode_def nextof_def prevof_def fresh_node_def
      fds_ok_def conn_since_def)

text \<open>Two connections in the read list, both with an earlier reply sent, and output for the first.\<close>

definition two_served :: server where
  "two_served = \<lparr>data = empty_gdata, conns = [0 \<mapsto> (conn_since 0 5)\<lparr>outgoing := [7]\<rparr>, 1 \<mapsto> conn_since 1 200000], fd_to_conn = [Some 0, Some 1],
     tnodes = [0 \<mapsto> \<lparr>dprev = Some 6, dnext = Some 3, dval = ()\<rparr>, 1 \<mapsto> \<lparr>dprev = Some 7, dnext = Some 4, dval = ()\<rparr>,
       2 \<mapsto> \<lparr>dprev = Some 2, dnext = Some 2, dval = ()\<rparr>, 3 \<mapsto> \<lparr>dprev = Some 0, dnext = Some 6, dval = ()\<rparr>,
       4 \<mapsto> \<lparr>dprev = Some 1, dnext = Some 7, dval = ()\<rparr>, 5 \<mapsto> \<lparr>dprev = Some 2, dnext = Some 2, dval = ()\<rparr>,
       6 \<mapsto> \<lparr>dprev = Some 3, dnext = Some 0, dval = ()\<rparr>, 7 \<mapsto> \<lparr>dprev = Some 4, dnext = Some 1, dval = ()\<rparr>,
       8 \<mapsto> \<lparr>dprev = Some 2, dnext = Some 2, dval = ()\<rparr>], ticks = 0\<rparr>"

definition served_lists :: "nat \<Rightarrow> addr list" where
  "served_lists r = (if r = 2 then [] else [0, 1])"

lemma two_served_ok: "conns_ok two_served served_lists"
  by (simp add: conns_ok_def lists_ok_def linked_defs ring_def two_served_def served_lists_def tnode_def nextof_def prevof_def fds_ok_def conn_since_def)

theorem process_timers_closes_expired_witness:
  "\<exists>s'. process_timers (\<lambda>_. 200001) two_served = Some s' \<and> conns s' = [1 \<mapsto> conn_since 1 200000] \<and> conns_ok s' (without [0] served_lists)"
proof -
  have e: "expire_loop (MAX_TTL_TASKS + 1) 200001 (data two_served) = Some empty_gdata"
    by (simp add: two_served_def empty_gdata_def)
  show ?thesis
    using process_timers_closes_expired [OF two_served_ok refl, of "\<lambda>_. 200001", OF e refl refl refl]
    by (auto simp: two_served_def served_lists_def stale_def without_def conn_since_def IDLE_TIMEOUT_MS_def READ_TIMEOUT_MS_def WRITE_TIMEOUT_MS_def)
qed

lemma deatach_freed:
  assumes "nextof t n = Some x" and "t x = None"
  shows "dlist_deatach t n = None"
proof -
  obtain d where d: "t n = Some d" "dnext d = Some x" using assms(1) by (auto simp: nextof_def bind_eq_Some_conv)
  have "set_prev t' x q = None" if "case dprev d of Some p \<Rightarrow> set_next t p (dnext d) = Some t' | None \<Rightarrow> t' = t" for t' q
  proof -
    have "t' x = None" using that assms(2) by (auto simp: set_next_def split: option.splits if_splits)
    then show ?thesis by (simp add: set_prev_def)
  qed
  then show ?thesis using d by (cases "dprev d"; cases "set_next t (the (dprev d)) (dnext d)") (auto simp: dlist_deatach_def)
qed

text \<open>What remains after the last byte of a reply is sent: the node in the write list still points at
  its former successor.\<close>

lemma handle_write_done:
  assumes "conns_ok s L" and k: "conns s a = Some k" "outgoing k \<noteq> []" and "a \<notin> set (L 1)" and w: "L 2 = xs @ a # b # ys"
  shows "\<exists>s'. handle_write clk s a (WR_SENT (length (outgoing k))) = Some s' \<and> fds_ok s' \<and> dom (conns s') = dom (conns s)
     \<and> fam (tnodes s') 0 (dom (conns s)) (L 0) \<and> fam (tnodes s') 1 (dom (conns s)) (L 1 @ [a])
     \<and> fam (tnodes s') 2 (dom (conns s) - {a}) (xs @ b # ys) \<and> nextof (tnodes s') (tnode 2 a) = Some (tnode 2 b)"
proof -
  let ?D = "dom (conns s)"
  have f: "fam (tnodes s) 0 ?D (L 0)" "fam (tnodes s) 1 ?D (L 1)" "fam (tnodes s) 2 ?D (L 2)" and D: "a \<in> ?D"
    using assms(1) k(1) by (auto simp: conns_ok_def lists_ok_def)
  have da: "a \<notin> set (xs @ b # ys)" using linked_distinct [OF f(3)] w by auto
  obtain t where t: "dlist_deatach (tnodes s) (tnode 2 a) = Some t" "fam t 2 (?D - {a}) (xs @ b # ys)" "dom t = dom (tnodes s)"
    "\<And>c. c \<notin> insert 2 (tnode 2 ` (set (L 2) - {a})) \<Longrightarrow> same (tnodes s) t c"
    using writes.unlink [OF f(3) D] w da by auto
  have "links (tnodes s) ((2 # map (tnode 2) xs) @ tnode 2 a # tnode 2 b # map (tnode 2) ys @ [2])" using f(3) w by (simp add: linked_def ring_def)
  from links_adjacent [OF this] have "nextof (tnodes s) (tnode 2 a) = Some (tnode 2 b)" ..
  then have n: "nextof t (tnode 2 a) = Some (tnode 2 b)" using t(4) [of "tnode 2 a"] by (simp add: same_def image_iff)
  have o: "fam t 0 ?D (L 0)" "fam t 1 ?D (L 1)"
    by (rule fam_other [OF f(1)] fam_other [OF f(2)]; simp add: t(4) off_list del: insert_iff)+
  from reads.link_last_all [OF o(2) D assms(4)] obtain t' where t': "dlist_insert_before t 1 (tnode 1 a) = Some t'" "fam t' 1 ?D (L 1 @ [a])"
    "\<forall>a. a mod 3 \<noteq> 1 \<longrightarrow> same t t' a" using off_list [of 1 _ "set (a # L 1)"] by (auto simp del: insert_iff)
  have "fam t' 0 ?D (L 0)" "fam t' 2 (?D - {a}) (xs @ b # ys)"
    by (rule fam_other [OF o(1)] fam_other [OF t(2)]; simp add: t'(3))+
  moreover have "nextof t' (tnode 2 a) = Some (tnode 2 b)" using t'(3) n by (simp add: same_def)
  moreover have "fds_ok s" using assms(1) by (simp add: conns_ok_def)
  ultimately show ?thesis
    using k t(1) t'(1,2) D by (auto simp: handle_write_def buf_consume_def upd_conn_def get_curr_ms_def detach_def enlist_def timeout_nodes
        fds_ok_def Let_def)
qed

text \<open>C35: detaching a node leaves its own pointers as they are, and \<open>close_conn\<close> detaches the nodes of
  all three lists whether they are linked or not.  So when a connection has sent its reply
  and left the write list, and its successor in that list is closed, closing
  the connection itself writes into the freed successor.\<close>

theorem close_after_neighbour_faults:
  assumes "conns_ok s L" and "conns s a = Some k" and "outgoing k \<noteq> []" and "a \<notin> set (L 1)" and "L 2 = xs @ a # b # ys"
  shows "\<exists>s1 s2. handle_write clk s a (WR_SENT (length (outgoing k))) = Some s1 \<and> close_conn s1 b = Some s2
     \<and> a \<in> dom (conns s2) \<and> close_conn s2 a = None"
proof -
  let ?D = "dom (conns s)"
  define L' where "L' = L(1 := L 1 @ [a], 2 := xs @ b # ys)"
  from handle_write_done [OF assms, of clk] obtain s1 where s1: "handle_write clk s a (WR_SENT (length (outgoing k))) = Some s1"
    "fds_ok s1" "dom (conns s1) = ?D" "fam (tnodes s1) 0 ?D (L' 0)" "fam (tnodes s1) 1 ?D (L' 1)"
    "fam (tnodes s1) 2 (?D - {a}) (L' 2)" "nextof (tnodes s1) (tnode 2 a) = Some (tnode 2 b)" by (auto simp: L'_def)
  have b: "b \<in> ?D" "b \<in> ?D - {a}" using s1(6) by (auto simp: linked_def L'_def)
  obtain j where j: "conns s1 b = Some j" "fd j < length (fd_to_conn s1)" using b(1) s1(2,3) by (fastforce simp: fds_ok_def dom_def)
  from close_conn_fam [OF s1(4-6) b(1,1,2) j] obtain t where
    c1: "close_conn s1 b = Some (s1\<lparr>conns := (conns s1)(b := None), fd_to_conn := (fd_to_conn s1)[fd j := None], tnodes := t\<rparr>)" (is "_ = Some ?s2")
    and t: "fam t 0 (?D - {b}) (removeAll b (L' 0))" "fam t 1 (?D - {b}) (removeAll b (L' 1))" "fam t 2 (?D - {a} - {b}) (removeAll b (L' 2))"
      "dom t = dom (tnodes s1) - {tnode 0 b, tnode 1 b, tnode 2 b}"
      "\<forall>c. (\<forall>r < 3. c \<notin> insert r (insert (tnode r b) (tnode r ` set (L' r)))) \<longrightarrow> same (tnodes s1) t c" by blast
  have a: "a \<in> ?D" "a \<noteq> b" using assms(2) b(2) by auto
  have "tnode 2 a \<notin> insert r (insert (tnode r b) (tnode r ` set (L' r)))" if "r < 3" for r
  proof (cases "r = 2")
    case True
    then show ?thesis using s1(6) a(2) by (auto simp: linked_def)
  next
    case False
    then show ?thesis using off_list [of r "tnode 2 a" "insert b (set (L' r))"] that by simp
  qed
  with t(5) s1(7) have n: "nextof t (tnode 2 a) = Some (tnode 2 b)" by (simp add: same_def)
  have ab: "a \<in> ?D - {b}" using a by simp
  obtain t0 where t0: "dlist_deatach t (tnode 0 a) = Some t0" "dom t0 = dom t" "\<And>c. c mod 3 \<noteq> 0 \<Longrightarrow> same t t0 c"
    using idle.unlink [OF t(1) ab] off_list [of 0] by (fastforce simp del: insert_iff)
  have "fam t0 1 (?D - {b}) (removeAll b (L' 1))" using t(2) by (rule fam_other) (simp_all add: t0(3))
  from reads.unlink [OF this ab] obtain t1 where t1: "dlist_deatach t0 (tnode 1 a) = Some t1" "dom t1 = dom t" "\<And>c. c mod 3 \<noteq> 1 \<Longrightarrow> same t0 t1 c"
    using t0(2) off_list [of 1] by (fastforce simp del: insert_iff)
  have "nextof t1 (tnode 2 a) = Some (tnode 2 b)" using n t0(3) [of "tnode 2 a"] t1(3) [of "tnode 2 a"] by (simp add: same_def)
  moreover have "t1 (tnode 2 b) = None" using t1(2) t(4) by auto
  ultimately have "dlist_deatach t1 (tnode 2 a) = None" by (rule deatach_freed)
  moreover have "conns ?s2 a = conns s1 a" using a(2) by simp
  ultimately have "close_conn ?s2 a = None" using t0(1) t1(1)
    by (simp add: close_conn_def detach_def timeout_nodes conn_at_def bind_eq_None_conv)
  then show ?thesis using s1(1,3) c1 a by auto
qed

theorem close_after_neighbour_faults_witness:
  "\<exists>s1 s2. handle_write (\<lambda>_. 0) (two_conns\<lparr>conns := [0 \<mapsto> (conn_since 0 5)\<lparr>outgoing := [7]\<rparr>, 1 \<mapsto> conn_since 1 6]\<rparr>) 0 (WR_SENT 1) = Some s1
     \<and> close_conn s1 1 = Some s2 \<and> close_conn s2 0 = None"
proof -
  let ?s = "two_conns\<lparr>conns := [0 \<mapsto> (conn_since 0 5)\<lparr>outgoing := [7]\<rparr>, 1 \<mapsto> conn_since 1 6]\<rparr>"
  have "dom (conns ?s) = dom (conns two_conns)" by (simp add: two_conns_def)
  then have "conns_ok ?s two_lists" using two_conns_ok by (simp add: conns_ok_def fds_ok_def two_conns_def conn_since_def)
  from close_after_neighbour_faults [OF this, of 0 _ "[]" 1 "[]" "\<lambda>_. 0"] show ?thesis by (auto simp: two_lists_def)
qed

section \<open>The timeout of poll\<close>

text \<open>C34: the time to wait is a difference of unsigned numbers.  When the earliest deadline has passed by
  \<open>n\<close> milliseconds the result is \<open>2 ^ 64 - n\<close>, not zero, and the conversion to the \<open>int\<close> that
  \<open>poll\<close> takes is the negative number \<open>- n\<close>, which means to wait without a limit.\<close>

theorem next_timer_ms_overdue:
  assumes "conns_ok s L" and "L 0 = c # cs" and "conns s c = Some k" and "gheap (data s) = h # hs"
    and "unat (hn_val h) + n = unat (clk (ticks s))" and "0 < n" and "n \<le> 2 ^ 31" and "hn_val h \<le> last_active_ms k + IDLE_TIMEOUT_MS"
  shows "\<exists>t s'. next_timer_ms clk s = Some (t, s') \<and> unat t = 2 ^ 64 - n \<and> sint (ucast t :: 32 word) = - int n"
proof -
  let ?now = "clk (ticks s)"
  have f: "ring (tnodes s) 0 (tnode 0 c # map (tnode 0) cs)" using assms(1,2) by (auto simp: conns_ok_def lists_ok_def linked_def)
  then obtain d where d: "tnodes s 0 = Some d" "dnext d = Some (tnode 0 c)" using ring_first [OF f] by (auto simp: nextof_def)
  have "dlist_empty (tnodes s) 0 = Some False" using d by (simp add: dlist_empty_def)
  then have t: "next_timer_ms clk s = Some (hn_val h - ?now, s\<lparr>ticks := ticks s + 1\<rparr>)"
    using d assms(3,4,8) by (simp add: next_timer_ms_def timeout_nodes get_curr_ms_def tnode_def min_def Let_def)
  have nw: "?now = hn_val h + of_nat n" using assms(5) by (metis of_nat_add of_nat_unat ucast_id)
  then have e: "hn_val h - ?now = - of_nat n" by simp
  have "- of_nat n = (of_nat (2 ^ 64 - n) :: u64)" using assms(7) by (simp add: of_nat_diff)
  then have u: "unat (- of_nat n :: u64) = 2 ^ 64 - n" using assms(6) by (simp add: unat_of_nat)
  have "ucast (- of_nat n :: u64) = (of_nat (2 ^ 64 - n) :: 32 word)" by (metis of_nat_unat u)
  also have "\<dots> = - of_nat n" using assms(7) by (simp add: of_nat_diff)
  finally have "ucast (- of_nat n :: u64) = (- of_nat n :: 32 word)" .
  moreover have "sint (word_of_int (- int n) :: 32 word) = - int n"
    using assms(7) by (subst sint_sbintrunc') (simp add: signed_take_bit_int_eq_self)
  ultimately show ?thesis using t e u by simp
qed

theorem next_timer_ms_overdue_witness:
  "\<exists>t s'. next_timer_ms (\<lambda>_. 1003) (two_conns\<lparr>data := empty_gdata\<lparr>gheap := [\<lparr>hn_val = 1000, pos_ref = 7\<rparr>]\<rparr>\<rparr>) = Some (t, s')
     \<and> sint (ucast t :: 32 word) = - 3"
proof -
  let ?s = "two_conns\<lparr>data := empty_gdata\<lparr>gheap := [\<lparr>hn_val = 1000, pos_ref = 7\<rparr>]\<rparr>\<rparr>"
  have "conns_ok ?s two_lists" using two_conns_ok by (simp add: conns_ok_def fds_ok_def)
  from next_timer_ms_overdue [OF this, of 0 "[1]" "conn_since 0 5" _ "[]" 3 "\<lambda>_. 1003"] show ?thesis
    by (auto simp: two_lists_def two_conns_def conn_since_def IDLE_TIMEOUT_MS_def)
qed


section \<open>Expiry of keys\<close>

text \<open>Every deadline of the heap belongs to a node of the keyspace, and knows where it is.\<close>

definition ttl_ok :: "gdata \<Rightarrow> bool" where
  "ttl_ok g \<longleftrightarrow> hm_ok (gdb g) \<and> refs_ok (gheap g, gidx g) \<and> inj_on (vaddr \<circ> hval) (ran (hm_abs (gdb g)))
     \<and> pos_ref ` set (gheap g) \<subseteq> (vaddr \<circ> hval) ` ran (hm_abs (gdb g)) \<and> length (gheap g) \<le> 2 ^ 32"

text \<open>The keyspace without the nodes at the given addresses.\<close>

definition expire :: "addr set \<Rightarrow> ('k \<rightharpoonup> dbval hnode) \<Rightarrow> 'k \<rightharpoonup> dbval hnode" where
  "expire A m k = (case m k of None \<Rightarrow> None | Some n \<Rightarrow> if vaddr (hval n) \<in> A then None else Some n)"

lemma expire_simps: "expire {} m = m" "expire A (expire B m) = expire (A \<union> B) m"
  by (auto simp: expire_def fun_eq_iff split: option.split)

lemma ran_expire: "ran (expire A m) = {n \<in> ran m. vaddr (hval n) \<notin> A}"
  by (fastforce simp: expire_def ran_def split: option.splits if_splits)

lemma hm_nodes_ran: "hm_ok hm \<Longrightarrow> set (hm_nodes hm) = ran (hm_abs hm)"
  by (auto simp: hm_ok_def hm_abs_def ran_def nodes_map_Some)

lemma ttl_node_abs:
  assumes "hm_ok (gdb g)" and "inj_on (vaddr \<circ> hval) (ran (hm_abs (gdb g)))" and "a \<in> (vaddr \<circ> hval) ` ran (hm_abs (gdb g))"
  shows "\<exists>n. ttl_node g a = Some n \<and> vaddr (hval n) = a \<and> (hm_abs (gdb g))(nkey n := None) = expire {a} (hm_abs (gdb g))
     \<and> hm_abs (gdb g) (nkey n) = Some n"
proof -
  obtain n where n: "ttl_node g a = Some n"
    using assms(3) hm_nodes_ran [OF assms(1)] by (cases "ttl_node g a") (auto simp: ttl_node_def find_None_iff)
  then have n': "n \<in> set (hm_nodes (gdb g))" "vaddr (hval n) = a" by (auto simp: ttl_node_def find_Some_iff)
  have key: "hm_abs (gdb g) k = Some m \<longleftrightarrow> m \<in> set (hm_nodes (gdb g)) \<and> nkey m = k" for k m
    using assms(1) by (simp add: hm_ok_def hm_abs_def nodes_map_Some)
  have "(hm_abs (gdb g))(nkey n := None) = expire {a} (hm_abs (gdb g))"
  proof (rule ext)
    fix k
    show "((hm_abs (gdb g))(nkey n := None)) k = expire {a} (hm_abs (gdb g)) k"
    proof (cases "hm_abs (gdb g) k")
      case (Some m)
      then have "m \<in> ran (hm_abs (gdb g))" "n \<in> ran (hm_abs (gdb g))" using n'(1) hm_nodes_ran [OF assms(1)] by (auto intro: ranI)
      then have "vaddr (hval m) = a \<longleftrightarrow> m = n" using assms(2) n'(2) by (auto simp: inj_on_def)
      moreover have "m = n \<longleftrightarrow> k = nkey n" using Some key n'(1) by (metis option.inject)
      ultimately show ?thesis using Some by (simp add: expire_def)
    qed (simp add: expire_def)
  qed
  with n n' key show ?thesis by auto
qed

lemma expire_round:
  assumes ok: "ttl_ok g" and h: "gheap g = h # hs"
  shows "\<exists>hp ix g' b n. rem_ttl (gheap g, gidx g) (pos_ref h) = Some (hp, ix) \<and> ttl_node (g\<lparr>gheap := hp, gidx := ix\<rparr>) (pos_ref h) = Some n
     \<and> db_delete (g\<lparr>gheap := hp, gidx := ix\<rparr>) \<lparr>pcode = hcode n, pkey = Some (hkey n)\<rparr> = Some (b, g') \<and> ttl_ok g'
     \<and> mset (gheap g) = add_mset h (mset (gheap g')) \<and> hm_abs (gdb g') = expire {pos_ref h} (hm_abs (gdb g))"
proof -
  let ?m = "hm_abs (gdb g)"
  have o: "hm_ok (gdb g)" "refs_ok (gheap g, gidx g)" "inj_on (vaddr \<circ> hval) (ran ?m)" "pos_ref ` set (gheap g) \<subseteq> (vaddr \<circ> hval) ` ran ?m"
      "length (gheap g) \<le> 2 ^ 32" using ok by (simp_all add: ttl_ok_def)
  have "gidx g (pos_ref h) = Some (Some 0)" using o(2) h by (auto simp: refs_ok_def)
  with rem_ttl_spec [OF o(2), of 0 "pos_ref h"] h o(5) obtain hp ix where
    r: "rem_ttl (gheap g, gidx g) (pos_ref h) = Some (hp, ix)" "refs_ok (hp, ix)" "add_mset h (mset hp) = mset (gheap g)" by auto
  let ?g = "g\<lparr>gheap := hp, gidx := ix\<rparr>"
  obtain n where n: "ttl_node ?g (pos_ref h) = Some n" "vaddr (hval n) = pos_ref h" "?m(nkey n := None) = expire {pos_ref h} ?m" "?m (nkey n) = Some n"
    using ttl_node_abs [of ?g "pos_ref h"] o h by auto
  let ?p = "\<lparr>pcode = hcode n, pkey = Some (hkey n)\<rparr>"
  have pk: "pkeyof ?p = nkey n" by (simp add: pkeyof_def nkey_def)
  from hm_delete_abs [OF o(1), of ?p db_ops] obtain hm q where
    hm: "hm_delete db_ops (gdb g) ?p = Some (hm, Some (touched db_ops n), q)" "hm_ok hm" "hm_abs hm = expire {pos_ref h} ?m"
    using n by (auto simp: pk)
  let ?g' = "?g\<lparr>gdb := hm, gjobs := gjobs g @ q, gidx := ix(pos_ref h := None)\<rparr>"
  have dl: "db_delete ?g ?p = Some (True, ?g')" using hm(1) n(2) by (simp add: db_delete_def)
  have st: "set (gheap g) = insert h (set hp)" using r(3) by (metis set_mset_add_mset_insert set_mset_mset)
  have "distinct (map pos_ref (h # hp))" using o(2) r(3) distinct_map_mset [of pos_ref "gheap g" "h # hp"] by (simp add: refs_ok_def)
  then have nin: "pos_ref h \<notin> pos_ref ` set hp" by simp
  have "refs_ok (hp, ix(pos_ref h := None))" using r(2) nin by (auto simp: refs_ok_def) (metis imageI nth_mem)
  moreover have "length hp \<le> 2 ^ 32" using o(5) arg_cong [OF r(3), of size] by simp
  moreover have "pos_ref ` set hp \<subseteq> (vaddr \<circ> hval) ` ran (expire {pos_ref h} ?m)"
  proof
    fix a assume a: "a \<in> pos_ref ` set hp"
    then have "a \<in> pos_ref ` set (gheap g)" using st by blast
    then obtain m where "m \<in> ran ?m" "a = vaddr (hval m)" using o(4) by auto
    with a nin show "a \<in> (vaddr \<circ> hval) ` ran (expire {pos_ref h} ?m)" unfolding ran_expire by force
  qed
  moreover have "inj_on (vaddr \<circ> hval) (ran (expire {pos_ref h} ?m))" using o(3) by (auto simp: ran_expire inj_on_def)
  ultimately have "ttl_ok ?g'" using hm by (simp add: ttl_ok_def)
  then show ?thesis using r n dl hm by (intro exI [of _ hp] exI [of _ ix] exI [of _ ?g']) auto
qed

text \<open>C26: the loop over expired keys removes exactly the keys whose deadlines it takes from the heap.
  Each of these deadlines has passed, they are at most as many as the rounds allowed, and where they are
  fewer the loop stopped because no deadline is left or the one at the root has not
  passed.  Every other key keeps its node.\<close>

theorem expire_loop_removes_expired:
  assumes "ttl_ok g"
  shows "\<exists>g' E. expire_loop n now g = Some g' \<and> ttl_ok g' \<and> mset (gheap g) = E + mset (gheap g') \<and> size E \<le> n
     \<and> (\<forall>h \<in># E. hn_val h < now) \<and> (size E = n \<or> gheap g' = [] \<or> now \<le> hn_val (hd (gheap g')))
     \<and> hm_abs (gdb g') = expire (pos_ref ` set_mset E) (hm_abs (gdb g))"
  using assms
proof (induction n arbitrary: g)
  case 0
  then show ?case by (intro exI [of _ g] exI [of _ "{#}"]) (simp add: expire_simps)
next
  case (Suc n)
  show ?case
  proof (cases "gheap g = [] \<or> now \<le> hn_val (hd (gheap g))")
    case True
    then show ?thesis using Suc.prems by (intro exI [of _ g] exI [of _ "{#}"]) (auto simp: expire_simps split: list.split)
  next
    case False
    then obtain h hs where h: "gheap g = h # hs" "hn_val h < now" by (cases "gheap g") auto
    from expire_round [OF Suc.prems h(1)] obtain hp ix g1 b m where
      r: "rem_ttl (gheap g, gidx g) (pos_ref h) = Some (hp, ix)" "ttl_node (g\<lparr>gheap := hp, gidx := ix\<rparr>) (pos_ref h) = Some m"
        "db_delete (g\<lparr>gheap := hp, gidx := ix\<rparr>) \<lparr>pcode = hcode m, pkey = Some (hkey m)\<rparr> = Some (b, g1)" "ttl_ok g1"
        "mset (gheap g) = add_mset h (mset (gheap g1))" "hm_abs (gdb g1) = expire {pos_ref h} (hm_abs (gdb g))" by blast
    from Suc.IH [OF r(4)] obtain g' E where e: "expire_loop n now g1 = Some g'" "ttl_ok g'" "mset (gheap g1) = E + mset (gheap g')" "size E \<le> n"
      "\<forall>h \<in># E. hn_val h < now" "size E = n \<or> gheap g' = [] \<or> now \<le> hn_val (hd (gheap g'))"
      "hm_abs (gdb g') = expire (pos_ref ` set_mset E) (hm_abs (gdb g1))" by blast
    have "expire_loop (Suc n) now g = Some g'" using h r(1-3) e(1) by (simp add: Let_def)
    then show ?thesis using e r(5,6) h(2) by (intro exI [of _ g'] exI [of _ "add_mset h E"]) (auto simp: expire_simps)
  qed
qed

theorem expire_loop_removes_expired_witness:
  "\<exists>g g'. dbv g (kof key_a) = Some (EStr key_a) \<and> expire_loop 201 6 g = Some g' \<and> gheap g' = [] \<and> dbv g' (kof key_a) = None"
proof -
  let ?n = "\<lparr>hcode = str_hash [97], hkey = key_a, hval = \<lparr>vaddr = 0, vent = EStr key_a\<rparr>\<rparr>"
  obtain hm q f where hm: "hm_ok hm" "\<forall>x. f x = x \<or> f x = touched db_ops x" "hm_abs hm = map_option f \<circ> [nkey ?n \<mapsto> ?n]"
    using hm_insert_abs [of empty_hmap ?n db_ops] by auto
  have fn: "vaddr (hval (f ?n)) = 0" using hm(2) by (metis touched_addr hnode.select_convs(3) dbval.select_convs(1))
  have fe: "vent (hval (f ?n)) = EStr key_a"
    using hm(2) touched_ent [of ?n] by (metis ent_clear_plain(1) hnode.select_convs(3) dbval.select_convs(2))
  have nk: "nkey ?n = kof key_a" by (simp add: nkey_def kof_def)
  have abs: "hm_abs hm = [kof key_a \<mapsto> f ?n]" using hm(3) nk by auto
  let ?g = "empty_gdata\<lparr>gdb := hm, gheap := [\<lparr>hn_val = 5, pos_ref = 0\<rparr>], gidx := [0 \<mapsto> Some 0]\<rparr>"
  have "ttl_ok ?g" using hm(1) abs fn by (simp add: ttl_ok_def refs_ok_def)
  from expire_loop_removes_expired [OF this, of 201 6] obtain g' E where
    e: "expire_loop 201 6 ?g = Some g'" "{#\<lparr>hn_val = 5, pos_ref = 0\<rparr>#} = E + mset (gheap g')"
      "size E = 201 \<or> gheap g' = [] \<or> 6 \<le> hn_val (hd (gheap g'))" "hm_abs (gdb g') = expire (pos_ref ` set_mset E) (hm_abs hm)" by auto
  have "gheap g' = []"
  proof (rule ccontr)
    assume "gheap g' \<noteq> []"
    then have "gheap g' = [\<lparr>hn_val = 5, pos_ref = 0\<rparr>]" "E = {#}" using e(2) by (cases "gheap g'"; auto simp: union_is_single single_is_union)+
    then show False using e(3) by simp
  qed
  moreover from this have "E = {#\<lparr>hn_val = 5, pos_ref = 0\<rparr>#}" using e(2) by simp
  ultimately have "hm_abs (gdb g') (kof key_a) = None" using e(4) abs fn by (simp add: expire_def)
  then show ?thesis using e(1) \<open>gheap g' = []\<close> abs fe by (intro exI [of _ ?g] exI [of _ g']) (simp add: dbv_def)
qed


section \<open>New connections, requests and replies\<close>

lemma init_server_ok: "\<exists>s. init_server = Some s \<and> conns_ok s (\<lambda>_. []) \<and> conns s = Map.empty"
  by (simp add: init_server_def dlist_init_def set_prev_def set_next_def idle_list_def read_list_def write_list_def conns_ok_def
      lists_ok_def linked_defs ring_def fds_ok_def nextof_def prevof_def)

lemma fam_grow:
  assumes "fam t r D cs" and "r < 3" and "c \<notin> D" and "\<And>a. a mod 3 = r \<Longrightarrow> a \<noteq> tnode r c \<Longrightarrow> t' a = t a" and "t' (tnode r c) = Some fresh_node"
  shows "fam t' r (insert c D) cs"
proof -
  have sm: "same t t' a" if "a mod 3 = r" "a \<noteq> tnode r c" for a using assms(4) [OF that] by (simp add: same_def nextof_def prevof_def domIff)
  have "fam t' r D cs"
  proof (rule linked_agree [OF assms(1) order_refl])
    show "set cs \<subseteq> D" using assms(1) by (simp add: linked_def)
    show "same t t' a" if "a = r \<or> (\<exists>c \<in> D. a = tnode r c)" for a using that assms(2,3) by (intro sm) auto
  qed
  then show ?thesis using assms(5,3) by (auto simp: linked_defs nextof_def prevof_def fresh_node_def)
qed

definition new_conn :: "nat \<Rightarrow> u64 \<Rightarrow> u64 \<Rightarrow> u64 \<Rightarrow> Conn" where
  "new_conn f t1 t2 t3 = \<lparr>fd = f, want_read = True, want_write = False, want_close = False, incoming = [], outgoing = [],
     last_active_ms = t1, last_read_ms = t2, last_write_ms = t3\<rparr>"

lemma fds_ok_insert:
  assumes "fds_ok s" and "\<And>d k. conns s d = Some k \<Longrightarrow> fd k \<noteq> fd k'" and "conns s c = None"
    and "conns s' = (conns s)(c \<mapsto> k')" and "fd_to_conn s' = (let v = fd_to_conn s; v = (if length v \<le> fd k' then v @ replicate (fd k' + 1 - length v) None else v) in v[fd k' := Some c])"
  shows "fds_ok s'"
  unfolding fds_ok_def
proof (intro allI impI)
  fix d k assume d: "conns s' d = Some k"
  show "fd k < length (fd_to_conn s') \<and> fd_to_conn s' ! fd k = Some d"
  proof (cases "d = c")
    case True
    then show ?thesis using d assms(4,5) by (auto simp: Let_def nth_append)
  next
    case False
    then have "conns s d = Some k" using d assms(4) by simp
    with assms(1,2) have "fd k < length (fd_to_conn s)" "fd_to_conn s ! fd k = Some d" "fd k \<noteq> fd k'" by (auto simp: fds_ok_def)
    then show ?thesis using assms(5) by (auto simp: Let_def nth_append)
  qed
qed

text \<open>C24: accepting a connection keeps the three lists and the table of descriptors consistent: the new
  connection is at the end of the idle list and in the table under its descriptor, no
  other connection changes.\<close>

theorem accept_keeps_lists:
  assumes "conns_ok s L" and "e_listen e \<noteq> 0" and "e_accept e = Some f" and "c = e_addr e" and "conns s c = None"
    and "\<And>d k. conns s d = Some k \<Longrightarrow> fd k \<noteq> f"
  shows "\<exists>s' t1 t2 t3. do_accept clk e s = Some (True, s') \<and> conns_ok s' (L(0 := L 0 @ [c]))
     \<and> conns s' = (conns s)(c \<mapsto> new_conn f t1 t2 t3) \<and> data s' = data s"
proof -
  let ?D = "dom (conns s)"
  let ?t = "(tnodes s)(tnode 0 c \<mapsto> fresh_node, tnode 1 c \<mapsto> fresh_node, tnode 2 c \<mapsto> fresh_node)"
  let ?k = "new_conn f (clk (ticks s)) (clk (Suc (ticks s))) (clk (Suc (Suc (ticks s))))"
  have cD: "c \<notin> ?D" using assms(5) by auto
  have grow: "fam ?t r (insert c ?D) (L r)" if "r < 3" for r
  proof (rule fam_grow [OF conns_ok_fam [OF assms(1) that] that cD])
    have "r = 0 \<or> r = 1 \<or> r = 2" using that by linarith
    then show "?t (tnode r c) = Some fresh_node" by (elim disjE) simp_all
    show "?t a = tnodes s a" if "a mod 3 = r" "a \<noteq> tnode r c" for a
    proof -
      have "a \<noteq> tnode q c" if "q < 3" for q using tnode_mod(1) [OF that, of c] \<open>a mod 3 = r\<close> \<open>a \<noteq> tnode r c\<close> by auto
      from this [of 0] this [of 1] this [of 2] show ?thesis by simp
    qed
  qed
  have "c \<notin> set (L 0)" using conns_ok_fam [OF assms(1), of 0] cD by (auto simp: linked_def)
  from idle.link_last_all [OF grow [of 0] insertI1 this] obtain t' where t': "dlist_insert_before ?t 0 (tnode 0 c) = Some t'" "fam t' 0 (insert c ?D) (L 0 @ [c])"
    "\<forall>a. a mod 3 \<noteq> 0 \<longrightarrow> same ?t t' a" using off_list [of 0 _ "set (c # L 0)"] by (auto simp del: insert_iff)
  have o: "fam t' 1 (insert c ?D) (L 1)" "fam t' 2 (insert c ?D) (L 2)"
    using fam_other [OF grow, of 1 t'] fam_other [OF grow, of 2 t'] t'(3) by simp_all
  let ?s = "s\<lparr>ticks := Suc (Suc (Suc (ticks s))), conns := (conns s)(c \<mapsto> ?k), tnodes := t'\<rparr>"
  define v where "v = (if length (fd_to_conn s) \<le> f then fd_to_conn s @ replicate (f + 1 - length (fd_to_conn s)) None else fd_to_conn s)"
  let ?s' = "?s\<lparr>fd_to_conn := v[f := Some c]\<rparr>"
  have fk: "fd ?k = f" by (simp add: new_conn_def)
  have acc: "handle_accept clk s (Some f) c = Some (Some c, ?s)"
    using t'(1) by (simp add: handle_accept_def get_curr_ms_def enlist_def timeout_nodes new_conn_def)
  have "do_accept clk e s = Some (True, ?s')"
    using assms(2-4) acc fk by (simp add: do_accept_def v_def Let_def)
  moreover have "fds_ok ?s'"
  proof (rule fds_ok_insert [of s ?k c])
    show "fds_ok s" using assms(1) by (simp add: conns_ok_def)
    show "fd k \<noteq> fd ?k" if "conns s d = Some k" for d k using assms(6) [OF that] fk by simp
  qed (simp_all add: assms(5) fk v_def Let_def)
  ultimately show ?thesis using t'(2) o by (intro exI [of _ ?s']) (auto simp: conns_ok_def lists_ok_def)
qed

theorem accept_keeps_lists_witness:
  "\<exists>s s' L. init_server = Some s \<and> do_accept (\<lambda>_. 9) \<lparr>e_listen = POLLIN, e_accept = Some 5, e_addr = 0, e_ready = (\<lambda>_. 0), e_read = (\<lambda>_. IO_AGAIN),
       e_write = (\<lambda>_. WR_AGAIN)\<rparr> s = Some (True, s') \<and> conns_ok s' L \<and> L 0 = [0]"
proof -
  let ?e = "\<lparr>e_listen = POLLIN, e_accept = Some 5, e_addr = 0, e_ready = (\<lambda>_. 0), e_read = (\<lambda>_. IO_AGAIN), e_write = (\<lambda>_. WR_AGAIN)\<rparr>"
  obtain s where s: "init_server = Some s" "conns_ok s (\<lambda>_. [])" "conns s = Map.empty" using init_server_ok by blast
  from accept_keeps_lists [OF s(2), of ?e 5 0 "\<lambda>_. 9"] s(3) obtain s' where
    "do_accept (\<lambda>_. 9) ?e s = Some (True, s')" "conns_ok s' ((\<lambda>_. [])(0 := [] @ [0]))" by (auto simp: POLLIN_def)
  with s(1) show ?thesis by (metis append_Nil fun_upd_same)
qed

text \<open>Serving requests touches neither the lists nor the descriptors.\<close>

lemma conns_ok_cong:
  assumes "conns_ok s L" and "tnodes s' = tnodes s" "fd_to_conn s' = fd_to_conn s" "\<And>d. map_option fd (conns s' d) = map_option fd (conns s d)"
  shows "conns_ok s' L \<and> dom (conns s') = dom (conns s)"
proof -
  have "dom (conns s') = dom (conns s)" using assms(4) by (metis (no_types, lifting) domIff map_option_is_None set_eq_iff)
  moreover have "fds_ok s'"
    unfolding fds_ok_def
  proof (intro allI impI)
    fix d k assume "conns s' d = Some k"
    then obtain k' where k': "conns s d = Some k'" "fd k' = fd k" using assms(4) [of d] by (cases "conns s d") auto
    then show "fd k < length (fd_to_conn s') \<and> fd_to_conn s' ! fd k = Some d"
      using assms(1,3) unfolding conns_ok_def fds_ok_def by metis
  qed
  ultimately show ?thesis using assms(1,2) by (simp add: conns_ok_def)
qed

lemma try_one_req_keeps:
  assumes "try_one_req F clk s c = Some (b, s')" and "conns_ok s L"
  shows "conns_ok s' L \<and> dom (conns s') = dom (conns s)"
proof (rule conns_ok_cong [OF assms(2)])
  show "tnodes s' = tnodes s" "fd_to_conn s' = fd_to_conn s" "map_option fd (conns s' d) = map_option fd (conns s d)" for d
    using assms(1) by (cases "before_res_build (outgoing (the (conns s c)))";
      auto simp: try_one_req_def get_curr_ms_def bind_eq_Some_conv Let_def split: if_splits)+
qed

lemma serve_keeps: "serve F clk c s = Some s' \<Longrightarrow> conns_ok s L \<Longrightarrow> conns_ok s' L \<and> dom (conns s') = dom (conns s)"
proof (induction F clk c s rule: serve.induct)
  case (1 F clk c s)
  obtain b s1 where t: "try_one_req F clk s c = Some (b, s1)" using 1(2) by (subst (asm) serve.simps) (auto split: option.splits)
  note k = try_one_req_keeps [OF t 1(3)]
  show ?case
  proof (cases b)
    case True
    then have "serve F clk c s1 = Some s'" using 1(2) t by (subst (asm) serve.simps) simp
    from 1(1) [OF t refl True this] k show ?thesis by simp
  next
    case False
    then show ?thesis using 1(2) t k by (subst (asm) serve.simps) simp
  qed
qed

lemma upd_conn_keeps:
  assumes "upd_conn s c f = Some s'" and "conns_ok s L" and "\<And>k. fd (f k) = fd k"
  shows "conns_ok s' L"
proof -
  have "conns_ok s' L \<and> dom (conns s') = dom (conns s)"
    using assms(1,3) by (intro conns_ok_cong [OF assms(2)]) (auto simp: upd_conn_def)
  then show ?thesis ..
qed

lemma ticks_keeps [simp]: "conns_ok (s\<lparr>ticks := n\<rparr>) L = conns_ok s L"
  by (simp add: conns_ok_def fds_ok_def)

text \<open>While a connection is being answered it is in the write list and in no read list; the pointers of its read node
  are those of its former neighbours.\<close>

definition rings :: "'a dstore \<Rightarrow> (nat \<Rightarrow> addr list) \<Rightarrow> bool" where
  "rings t L \<longleftrightarrow> ring t 0 (map (tnode 0) (L 0)) \<and> ring t 1 (map (tnode 1) (L 1)) \<and> ring t 2 (map (tnode 2) (L 2))"

definition answering :: "'a dstore \<Rightarrow> addr set \<Rightarrow> (nat \<Rightarrow> addr list) \<Rightarrow> addr \<Rightarrow> bool" where
  "answering t D L c \<longleftrightarrow> c \<in> D \<and> fam t 0 D (L 0) \<and> fam t 1 (D - {c}) (L 1) \<and> tnode 1 c \<in> dom t \<and> fam t 2 {c} [c]
     \<and> (\<forall>d \<in> D - {c}. tnode 2 d \<in> dom t \<and> spent True t 2 [] (tnode 2 d))"

lemma to_write_list:
  assumes "conns_ok s L" and c: "c \<in> dom (conns s)" "c \<notin> set (L 2)" and L': "L' = L(1 := removeAll c (L 1), 2 := L 2 @ [c])"
  shows "\<exists>s1 t. detach s (read_timeout c) = Some s1 \<and> enlist s1 write_list (write_timeout c) = Some (s\<lparr>tnodes := t\<rparr>)
     \<and> rings t L' \<and> (L 2 = [] \<longrightarrow> answering t (dom (conns s)) L' c)"
proof -
  let ?D = "dom (conns s)"
  have f: "fam (tnodes s) r ?D (L r)" if "r < 3" for r using assms(1) that by (rule conns_ok_fam)
  have "fam (tnodes s) 1 ?D (L 1)" by (rule conns_ok_fam [OF assms(1)]) simp
  from reads.unlink [OF this c(1)] obtain t where
    t: "dlist_deatach (tnodes s) (tnode 1 c) = Some t" "fam t 1 (?D - {c}) (removeAll c (L 1))" "dom t = dom (tnodes s)"
      "\<And>a. a mod 3 \<noteq> 1 \<Longrightarrow> same (tnodes s) t a" using off_list [of 1 _ "set (L 1) - {c}"] by (auto simp del: insert_iff)
  have ft: "fam t 0 ?D (L 0)" "fam t 2 ?D (L 2)" using fam_other [OF f, of 0 t] fam_other [OF f, of 2 t] t(4) by simp_all
  have n: "tnode 2 c \<in> dom t" "tnode 1 c \<in> dom t" using ft(2) f [of 1] c(1) t(3) by (auto simp: linked_def)
  from ft(2) have sub: "set (c # L 2) \<subseteq> insert c ?D" by (auto simp: linked_def)
  have "\<exists>t'. dlist_insert_before t 2 (tnode 2 c) = Some t' \<and> linked True t' 2 (tnode 2) (set (c # L 2)) (L 2 @ [c]) \<and> dom t' = dom t
     \<and> (\<forall>a. a \<notin> insert 2 (tnode 2 ` set (c # L 2)) \<longrightarrow> same t t' a)"
    using ft(2) by (intro writes.link_last [OF _ n(1) c(2) sub]) auto
  then obtain t' where t': "dlist_insert_before t 2 (tnode 2 c) = Some t'" "linked True t' 2 (tnode 2) (set (c # L 2)) (L 2 @ [c])" "dom t' = dom t"
      "\<forall>a. a \<notin> insert 2 (tnode 2 ` set (c # L 2)) \<longrightarrow> same t t' a" by auto
  have off: "same t t' a" if "a mod 3 \<noteq> 2" for a
    by (rule t'(4) [rule_format], rule off_list) (simp_all add: that)
  have ft': "fam t' 0 ?D (L 0)" "fam t' 1 (?D - {c}) (removeAll c (L 1))"
    using fam_other [OF ft(1), of t'] fam_other [OF t(2), of t'] off by simp_all
  have "rings t' L'" using ft' t'(2) by (simp add: rings_def L' linked_def)
  moreover have "answering t' ?D L' c" if "L 2 = []"
  proof -
    have "tnode 2 d \<in> dom t' \<and> spent True t' 2 [] (tnode 2 d)" if "d \<in> ?D - {c}" for d
      using that ft(2) t'(3) t'(4) [rule_format, of "tnode 2 d"] \<open>L 2 = []\<close> by (auto simp: linked_defs same_def)
    then show ?thesis using ft' t'(2,3) n(2) c(1) that by (simp add: answering_def L')
  qed
  ultimately show ?thesis using t(1) t'(1)
    by (intro exI [of _ "s\<lparr>tnodes := t\<rparr>"] exI [of _ t']) (simp add: detach_def enlist_def timeout_nodes)
qed

lemma fds_ok_upd:
  "fds_ok s \<Longrightarrow> conns s c = Some k \<Longrightarrow> fd k' = fd k \<Longrightarrow> conns s' = (conns s)(c \<mapsto> k') \<Longrightarrow> fd_to_conn s' = fd_to_conn s \<Longrightarrow> fds_ok s'"
  by (auto simp: fds_ok_def)

lemma handle_write_answers:
  assumes a: "answering (tnodes s) (dom (conns s)) L c" and "c \<notin> set (L 1)" and "fds_ok s" and k: "conns s c = Some k" "outgoing k \<noteq> []"
  shows "\<exists>s' k'. handle_write clk s c (WR_SENT (length (outgoing k))) = Some s' \<and> conns_ok s' (L(1 := L 1 @ [c], 2 := []))
     \<and> conns s' = (conns s)(c \<mapsto> k') \<and> outgoing k' = [] \<and> want_read k' \<and> \<not> want_write k' \<and> data s' = data s"
proof -
  let ?D = "dom (conns s)"
  have f: "c \<in> ?D" "fam (tnodes s) 0 ?D (L 0)" "fam (tnodes s) 1 (?D - {c}) (L 1)" "tnode 1 c \<in> dom (tnodes s)"
      "linked True (tnodes s) 2 (tnode 2) {c} [c]" using a by (simp_all add: answering_def)
  from writes.unlink_last [OF f(5)] obtain t where
    t: "dlist_deatach (tnodes s) (tnode 2 c) = Some t" "linked True t 2 (tnode 2) {c} []" "dom t = dom (tnodes s)" "\<forall>a. a \<noteq> 2 \<longrightarrow> same (tnodes s) t a"
    by auto
  have "tnode 2 d \<in> dom t \<and> spent True t 2 [] (tnode 2 d)" if "d \<in> ?D" for d
    using that a t(2,3) t(4) [rule_format, of "tnode 2 d"] by (cases "d = c") (auto simp: answering_def linked_def same_def spent_def untouched_def)
  then have f2: "fam t 2 ?D []" using t(2) by (auto simp: linked_def)
  have o: "fam t 0 ?D (L 0)" "fam t 1 (?D - {c}) (L 1)" 
    by (rule fam_other [OF f(2)] fam_other [OF f(3)], simp, rule t(4) [rule_format], fastforce)+
  have "tnode 1 c \<in> dom t" using f(4) t(3) by simp
  with reads.link_last_back [of t ?D c "L 1"] o(2) f(1) assms(2) obtain t' where
    t': "dlist_insert_before t 1 (tnode 1 c) = Some t'" "fam t' 1 ?D (L 1 @ [c])" "\<And>a. a mod 3 \<noteq> 1 \<Longrightarrow> same t t' a"
    using off_list [of 1 _ "set (c # L 1)"] by (auto simp del: insert_iff)
  have o': "fam t' 0 ?D (L 0)" "fam t' 2 ?D []" using fam_other [OF o(1), of t'] fam_other [OF f2, of t'] t'(3) by simp_all
  let ?k = "k\<lparr>outgoing := [], last_write_ms := clk (ticks s), want_read := True, want_write := False, last_read_ms := clk (Suc (ticks s))\<rparr>"
  let ?s = "s\<lparr>ticks := Suc (Suc (ticks s)), conns := (conns s)(c \<mapsto> ?k), tnodes := t'\<rparr>"
  have "handle_write clk s c (WR_SENT (length (outgoing k))) = Some ?s"
    using k t(1) t'(1) by (simp add: handle_write_def buf_consume_def upd_conn_def get_curr_ms_def detach_def enlist_def timeout_nodes Let_def)
  moreover have "dom (conns ?s) = ?D" using f(1) by auto
  then have "conns_ok ?s (L(1 := L 1 @ [c], 2 := []))" using o' t'(2) fds_ok_upd [OF assms(3) k(1), of ?k ?s] by (simp add: conns_ok_def lists_ok_def)
  ultimately show ?thesis by (intro exI [of _ ?s] exI [of _ ?k]) simp
qed


lemma handle_read_idle:
  assumes "conns_ok s L" and "conns s c = Some k" and "serve F clk c (s\<lparr>conns := (conns s)(c \<mapsto> k\<lparr>incoming := incoming k @ bs\<rparr>)\<rparr>) = Some s1"
    and "conns s1 c = Some k1"
  shows "\<exists>s2. upd_conn (s1\<lparr>ticks := Suc (ticks s1)\<rparr>) c (\<lambda>k. k\<lparr>last_read_ms := clk (ticks s1)\<rparr>) = Some s2 \<and> conns_ok s2 L
     \<and> conns s2 = (conns s1)(c \<mapsto> k1\<lparr>last_read_ms := clk (ticks s1)\<rparr>) \<and> data s2 = data s1
     \<and> (outgoing k1 = [] \<longrightarrow> handle_read F clk s c (IO_DATA bs) = Some s2)"
proof -
  let ?s = "s\<lparr>conns := (conns s)(c \<mapsto> k\<lparr>incoming := incoming k @ bs\<rparr>)\<rparr>"
  have u: "upd_conn s c (\<lambda>k. k\<lparr>incoming := incoming k @ bs\<rparr>) = Some ?s" using assms(2) by (simp add: upd_conn_def)
  have "conns_ok ?s L" using upd_conn_keeps [OF u assms(1)] by simp
  from serve_keeps [OF assms(3) this] have s1: "conns_ok s1 L" by simp
  let ?s2 = "s1\<lparr>ticks := Suc (ticks s1), conns := (conns s1)(c \<mapsto> k1\<lparr>last_read_ms := clk (ticks s1)\<rparr>)\<rparr>"
  have s2: "upd_conn (s1\<lparr>ticks := Suc (ticks s1)\<rparr>) c (\<lambda>k. k\<lparr>last_read_ms := clk (ticks s1)\<rparr>) = Some ?s2" using assms(4) by (simp add: upd_conn_def)
  moreover have "conns_ok ?s2 L" using upd_conn_keeps [OF s2, of L] s1 by simp
  ultimately show ?thesis using u assms(3) by (auto simp: handle_read_def get_curr_ms_def)
qed

text \<open>C25: a read with data, whose requests are served without a fault, from any connection that is not in the write
  list.  Without output the lists stay as they are.  With output the connection leaves the read list, wherever
  it is in it, and becomes the last of the write list, and the three lists are rings of exactly these connections.  If
  no other reply was pending, sending the whole reply moves it to the end of the read list and the lists and
  the table of descriptors are consistent again, so that the same holds for the next request.\<close>

theorem handle_read_keeps_lists:
  assumes ok: "conns_ok s L" and k: "conns s c = Some k" and c: "c \<notin> set (L 2)"
    and sv: "serve F clk c (s\<lparr>conns := (conns s)(c \<mapsto> k\<lparr>incoming := incoming k @ bs\<rparr>)\<rparr>) = Some s1" and k1: "conns s1 c = Some k1"
  shows "\<exists>s2. handle_read F clk s c (IO_DATA bs) = Some s2 \<and> data s2 = data s1 \<and>
     (if outgoing k1 = [] then conns_ok s2 L
      else rings (tnodes s2) (L(1 := removeAll c (L 1), 2 := L 2 @ [c]))
        \<and> (L 2 = [] \<longrightarrow> (\<exists>s3 k3. handle_write clk s2 c (WR_SENT (length (outgoing k1))) = Some s3
             \<and> conns_ok s3 (L(1 := removeAll c (L 1) @ [c])) \<and> conns s3 c = Some k3 \<and> outgoing k3 = [] \<and> want_read k3 \<and> \<not> want_write k3)))"
proof -
  from handle_read_idle [OF ok k sv k1] obtain s2 where
    s2: "upd_conn (s1\<lparr>ticks := Suc (ticks s1)\<rparr>) c (\<lambda>k. k\<lparr>last_read_ms := clk (ticks s1)\<rparr>) = Some s2" "conns_ok s2 L" "data s2 = data s1"
      "conns s2 = (conns s1)(c \<mapsto> k1\<lparr>last_read_ms := clk (ticks s1)\<rparr>)" "outgoing k1 = [] \<longrightarrow> handle_read F clk s c (IO_DATA bs) = Some s2"
    by blast
  show ?thesis
  proof (cases "outgoing k1 = []")
    case True
    then show ?thesis using s2 by auto
  next
    case False
    let ?k3 = "k1\<lparr>last_read_ms := clk (ticks s1), want_read := False, want_write := True\<rparr>"
    let ?s3 = "s2\<lparr>conns := (conns s2)(c \<mapsto> ?k3)\<rparr>"
    let ?L = "L(1 := removeAll c (L 1), 2 := L 2 @ [c])"
    have s3: "upd_conn s2 c (\<lambda>k. k\<lparr>want_read := False, want_write := True\<rparr>) = Some ?s3" by (simp add: upd_conn_def s2(4))
    have ok3: "conns_ok ?s3 L" using upd_conn_keeps [OF s3 s2(2)] by simp
    from to_write_list [OF ok3 _ c refl] obtain s4 t where
      s4: "detach ?s3 (read_timeout c) = Some s4" "enlist s4 write_list (write_timeout c) = Some (?s3\<lparr>tnodes := t\<rparr>)" "rings t ?L"
        "L 2 = [] \<Longrightarrow> answering t (dom (conns ?s3)) ?L c" by auto
    let ?k6 = "?k3\<lparr>last_write_ms := clk (ticks s2)\<rparr>"
    let ?s6 = "?s3\<lparr>tnodes := t, ticks := Suc (ticks s2), conns := (conns ?s3)(c \<mapsto> ?k6)\<rparr>"
    have u: "upd_conn s c (\<lambda>k. k\<lparr>incoming := incoming k @ bs\<rparr>) = Some (s\<lparr>conns := (conns s)(c \<mapsto> k\<lparr>incoming := incoming k @ bs\<rparr>)\<rparr>)"
        "upd_conn (?s3\<lparr>tnodes := t, ticks := Suc (ticks s2)\<rparr>) c (\<lambda>k. k\<lparr>last_write_ms := clk (ticks s2)\<rparr>) = Some ?s6"
      using k by (simp_all add: upd_conn_def)
    have "handle_read F clk s c (IO_DATA bs) = Some ?s6"
      using False u sv s2(1,4) s3 s4(1,2) by (simp add: handle_read_def get_curr_ms_def)
    moreover have "\<exists>s3 k3. handle_write clk ?s6 c (WR_SENT (length (outgoing k1))) = Some s3 \<and> conns_ok s3 (L(1 := removeAll c (L 1) @ [c]))
        \<and> conns s3 c = Some k3 \<and> outgoing k3 = [] \<and> want_read k3 \<and> \<not> want_write k3" if "L 2 = []"
    proof -
      have "dom (conns ?s6) = dom (conns ?s3)" by auto
      then have "answering (tnodes ?s6) (dom (conns ?s6)) ?L c" using s4(4) [OF that] by simp
      moreover have "fds_ok ?s6" by (rule fds_ok_upd [of ?s3 c ?k3 ?k6]) (use ok3 in \<open>simp_all add: conns_ok_def\<close>)
      moreover have "(?L)(1 := ?L 1 @ [c], 2 := []) = L(1 := removeAll c (L 1) @ [c])" using that by (auto simp: fun_eq_iff)
      ultimately show ?thesis using handle_write_answers [of ?s6 ?L c ?k6 clk] False by auto
    qed
    ultimately show ?thesis using False s2(3) s4(3) by (intro exI [of _ ?s6]) simp
  qed
qed


theorem handle_read_keeps_lists_witness:
  "\<exists>s2 s3. handle_read real_fpu (\<lambda>_. 0) two_served 0 (IO_DATA [1]) = Some s2 \<and> rings (tnodes s2) (served_lists(1 := [1], 2 := [0]))
     \<and> handle_write (\<lambda>_. 0) s2 0 (WR_SENT 1) = Some s3 \<and> conns_ok s3 (served_lists(1 := [1, 0]))"
proof -
  let ?k = "(conn_since 0 5)\<lparr>outgoing := [7]\<rparr>"
  let ?k1 = "?k\<lparr>incoming := incoming ?k @ [1]\<rparr>"
  let ?s = "two_served\<lparr>conns := (conns two_served)(0 \<mapsto> ?k1)\<rparr>"
  have k: "conns two_served 0 = Some ?k" "conns ?s 0 = Some ?k1" by (simp_all add: two_served_def)
  have sv: "serve real_fpu (\<lambda>_. 0) 0 ?s = Some ?s" by (rule serve_short [OF k(2)]) (simp add: conn_since_def)
  have "0 \<notin> set (served_lists 2)" by (simp add: served_lists_def)
  from handle_read_keeps_lists [OF two_served_ok k(1) this sv k(2)] show ?thesis by (auto simp: served_lists_def)
qed

end
