(* ===== verification/Threadpool.thy ===== *)
theory Threadpool
  imports Main
begin

text \<open>
  The thread pool (\<open>src/src/threadpool.cpp\<close>, \<open>threadpool.h\<close>) as a step relation: the worker
  threads and the one thread that produces work interleave at the calls of the pthread
  library and at the accesses to the queue.

  The mutex is its holder.  A thread in \<open>pthread_cond_wait\<close> has released the mutex; it
  wakes up by a signal, which unblocks at least one waiting thread if there is
  one, or for no reason, and must get the mutex again before the call returns.
  The history variables \<open>produced\<close> and \<open>started\<close> record the order of \<open>push\<close> and \<open>pop\<close>.
\<close>

section \<open>Definitions\<close>

record ThreadPoolWork =
  work_f :: nat
  work_arg :: nat

text \<open>Where a worker is in the loop of \<open>work\<close>.\<close>

datatype worker =
    Start                        \<comment> \<open>before \<open>pthread_mutex_lock\<close>\<close>
  | Check                        \<comment> \<open>at \<open>while (queue.empty ())\<close>, with the mutex\<close>
  | Waiting                      \<comment> \<open>in \<open>pthread_cond_wait\<close>\<close>
  | Woken                        \<comment> \<open>in \<open>pthread_cond_wait\<close>, waiting for the mutex\<close>
  | Popped ThreadPoolWork        \<comment> \<open>before \<open>pthread_mutex_unlock\<close>\<close>
  | Running ThreadPoolWork       \<comment> \<open>in \<open>work.f (work.arg)\<close>\<close>

text \<open>Where the producing thread is in \<open>threadpool_produce\<close>.\<close>

datatype producer = Away | Locking ThreadPoolWork | Pushing ThreadPoolWork | Signalling | Unlocking

datatype holder = Worker nat | Producer

record ThreadPool =
  threads :: "worker list"
  queue :: "ThreadPoolWork list"
  mutex :: "holder option"
  pstate :: producer
  produced :: "ThreadPoolWork list"
  started :: "ThreadPoolWork list"

text \<open>Initialisation stops at the first call that fails; the threads created so far run.\<close>

definition threadpool_init :: "bool \<Rightarrow> bool \<Rightarrow> (nat \<Rightarrow> bool) \<Rightarrow> nat \<Rightarrow> ThreadPool" where
  "threadpool_init mutex_ok cond_ok created thread_cnt =
     \<lparr>threads = (if mutex_ok \<and> cond_ok then map (\<lambda>_. Start) (takeWhile created [0..<thread_cnt]) else []),
      queue = [], mutex = None, pstate = Away, produced = [], started = []\<rparr>"

definition at :: "ThreadPool \<Rightarrow> nat \<Rightarrow> worker \<Rightarrow> bool" where
  "at s i w \<longleftrightarrow> i < length (threads s) \<and> threads s ! i = w"

definition move :: "ThreadPool \<Rightarrow> nat \<Rightarrow> worker \<Rightarrow> ThreadPool" where
  "move s i w = s\<lparr>threads := (threads s)[i := w]\<rparr>"

inductive work_step :: "ThreadPool \<Rightarrow> ThreadPool \<Rightarrow> bool" where
  lock: "at s i Start \<Longrightarrow> mutex s = None \<Longrightarrow> work_step s ((move s i Check)\<lparr>mutex := Some (Worker i)\<rparr>)"
| wait: "at s i Check \<Longrightarrow> queue s = [] \<Longrightarrow> work_step s ((move s i Waiting)\<lparr>mutex := None\<rparr>)"
| relock: "at s i Woken \<Longrightarrow> mutex s = None \<Longrightarrow> work_step s ((move s i Check)\<lparr>mutex := Some (Worker i)\<rparr>)"
| pop: "at s i Check \<Longrightarrow> queue s = w # q \<Longrightarrow> work_step s ((move s i (Popped w))\<lparr>queue := q, started := started s @ [w]\<rparr>)"
| unlock: "at s i (Popped w) \<Longrightarrow> work_step s ((move s i (Running w))\<lparr>mutex := None\<rparr>)"
| returned: "at s i (Running w) \<Longrightarrow> work_step s (move s i Start)"

text \<open>\<open>pthread_cond_wait\<close> may return without a signal.\<close>

inductive spurious_wakeup :: "ThreadPool \<Rightarrow> ThreadPool \<Rightarrow> bool" where
  spurious: "at s i Waiting \<Longrightarrow> spurious_wakeup s (move s i Woken)"

definition waiting :: "ThreadPool \<Rightarrow> nat set" where
  "waiting s = {i. at s i Waiting}"

text \<open>The effect of a signal that unblocks the threads of \<open>A\<close>.\<close>

definition wake :: "nat set \<Rightarrow> worker list \<Rightarrow> worker list" where
  "wake A ts = map (\<lambda>i. if i \<in> A then Woken else ts ! i) [0..<length ts]"

text \<open>A new call of \<open>threadpool_produce\<close>, and the steps of the call.\<close>

inductive produce_call :: "ThreadPool \<Rightarrow> ThreadPool \<Rightarrow> bool" where
  call: "pstate s = Away \<Longrightarrow> produce_call s (s\<lparr>pstate := Locking w\<rparr>)"

inductive produce_step :: "ThreadPool \<Rightarrow> ThreadPool \<Rightarrow> bool" where
  plock: "pstate s = Locking w \<Longrightarrow> mutex s = None \<Longrightarrow> produce_step s (s\<lparr>pstate := Pushing w, mutex := Some Producer\<rparr>)"
| push: "pstate s = Pushing w \<Longrightarrow> produce_step s (s\<lparr>pstate := Signalling, queue := queue s @ [w], produced := produced s @ [w]\<rparr>)"
| signal: "pstate s = Signalling \<Longrightarrow> A \<subseteq> waiting s \<Longrightarrow> A = {} \<longrightarrow> waiting s = {} \<Longrightarrow>
    produce_step s (s\<lparr>pstate := Unlocking, threads := wake A (threads s)\<rparr>)"
| punlock: "pstate s = Unlocking \<Longrightarrow> produce_step s (s\<lparr>pstate := Away, mutex := None\<rparr>)"

inductive tp_step :: "ThreadPool \<Rightarrow> ThreadPool \<Rightarrow> bool" where
  worker: "work_step s s' \<Longrightarrow> tp_step s s'"
| producer: "produce_step s s' \<Longrightarrow> tp_step s s'"
| caller: "produce_call s s' \<Longrightarrow> tp_step s s'"
| waking: "spurious_wakeup s s' \<Longrightarrow> tp_step s s'"

text \<open>The steps of a pool that gets no new calls.\<close>

definition pool_move :: "ThreadPool \<Rightarrow> ThreadPool \<Rightarrow> bool" where
  "pool_move s s' \<longleftrightarrow> work_step s s' \<or> produce_step s s' \<or> spurious_wakeup s s'"

inductive_cases work_stepE: "work_step s s'"
inductive_cases produce_stepE: "produce_step s s'"
inductive_cases produce_callE: "produce_call s s'"
inductive_cases spurious_wakeupE: "spurious_wakeup s s'"
inductive_cases tp_stepE: "tp_step s s'"

section \<open>Invariants of transition systems\<close>

locale invariant =
  fixes init :: "'s \<Rightarrow> bool" and step :: "'s \<Rightarrow> 's \<Rightarrow> bool" and inv :: "'s \<Rightarrow> bool"
  assumes starts: "init s \<Longrightarrow> inv s"
    and keeps: "inv s \<Longrightarrow> step s s' \<Longrightarrow> inv s'"
begin

lemma reachable_inv: "step\<^sup>*\<^sup>* s0 s \<Longrightarrow> init s0 \<Longrightarrow> inv s"
  by (induction rule: rtranclp_induct) (auto intro: starts keeps)

end

definition fresh_pool :: "ThreadPool \<Rightarrow> bool" where
  "fresh_pool s \<longleftrightarrow> (\<exists>m c cr n. s = threadpool_init m c cr n)"

section \<open>The invariant of the pool\<close>

text \<open>The mutex is held by exactly the thread that is between lock and unlock.\<close>

definition holds :: "worker \<Rightarrow> bool" where
  "holds w \<longleftrightarrow> (case w of Check \<Rightarrow> True | Popped _ \<Rightarrow> True | _ \<Rightarrow> False)"

definition pholds :: "producer \<Rightarrow> bool" where
  "pholds p \<longleftrightarrow> (case p of Pushing _ \<Rightarrow> True | Signalling \<Rightarrow> True | Unlocking \<Rightarrow> True | _ \<Rightarrow> False)"

definition mutex_ok :: "ThreadPool \<Rightarrow> bool" where
  "mutex_ok s \<longleftrightarrow> (\<forall>i < length (threads s). holds (threads s ! i) \<longleftrightarrow> mutex s = Some (Worker i))
     \<and> (\<forall>i. mutex s = Some (Worker i) \<longrightarrow> i < length (threads s)) \<and> (pholds (pstate s) \<longleftrightarrow> mutex s = Some Producer)"

text \<open>The threads on their way to the queue.\<close>

definition coming :: "worker \<Rightarrow> bool" where
  "coming w \<longleftrightarrow> w = Start \<or> w = Check \<or> w = Woken"

definition coming_cnt :: "ThreadPool \<Rightarrow> nat" where
  "coming_cnt s = length (filter coming (threads s)) + (if pstate s = Signalling then 1 else 0)"

lemma count_update:
  "i < length xs \<Longrightarrow> length (filter P (xs[i := x])) + (if P (xs ! i) then 1 else 0) = length (filter P xs) + (if P x then 1 else 0)"
proof (induction xs arbitrary: i)
  case (Cons y ys)
  then show ?case using Cons.IH [of "i - 1"] by (cases i) auto
qed simp

lemma move_simps [simp]: "mutex (move s i w) = mutex s" "queue (move s i w) = queue s" "pstate (move s i w) = pstate s"
  "started (move s i w) = started s" "produced (move s i w) = produced s" "threads (move s i w) = (threads s)[i := w]"
  by (simp_all add: move_def)

lemma waiting_update: "Waiting \<in> set (ts[i := w]) \<Longrightarrow> w = Waiting \<or> Waiting \<in> set ts"
  using set_update_subset_insert [of ts i w] by auto

lemma work_step_mutex:
  assumes "work_step s s'" and "mutex_ok s"
  shows "mutex_ok s'"
  using assms by (cases rule: work_step.cases) (auto simp: mutex_ok_def at_def nth_list_update holds_def pholds_def)

lemma produce_step_mutex:
  assumes "produce_step s s'" and "mutex_ok s"
  shows "mutex_ok s'"
  using assms by (cases rule: produce_step.cases) (auto simp: mutex_ok_def wake_def waiting_def at_def holds_def pholds_def)

lemma produce_call_mutex:
  assumes "produce_call s s'" and "mutex_ok s"
  shows "mutex_ok s'"
  using assms by (cases rule: produce_call.cases) (auto simp: mutex_ok_def pholds_def)

lemma spurious_wakeup_mutex:
  assumes "spurious_wakeup s s'" and "mutex_ok s"
  shows "mutex_ok s'"
  using assms by (cases rule: spurious_wakeup.cases) (auto simp: mutex_ok_def at_def nth_list_update holds_def)

lemmas step_mutex = work_step_mutex produce_step_mutex produce_call_mutex spurious_wakeup_mutex

lemma count_move:
  "at s i v \<Longrightarrow> length (filter coming ((threads s)[i := w])) + (if coming v then 1 else 0) = length (filter coming (threads s)) + (if coming w then 1 else 0)"
  using count_update [of i "threads s" coming w] by (simp add: at_def)

lemma coming_simps [simp]: "coming Start" "coming Check" "coming Woken" "\<not> coming Waiting" "\<not> coming (Popped w)" "\<not> coming (Running w)"
  by (simp_all add: coming_def)

definition attended :: "ThreadPool \<Rightarrow> bool" where
  "attended s \<longleftrightarrow> (Waiting \<in> set (threads s) \<longrightarrow> length (queue s) \<le> coming_cnt s)"

lemma attended_move:
  assumes "attended s" and "at s i v" and "w \<noteq> Waiting" and "threads s' = (threads s)[i := w]" and "pstate s' = pstate s"
    and "length (queue s') + (if coming v \<and> \<not> coming w then 1 else 0) \<le> length (queue s)"
  shows "attended s'"
  using assms(1,3-6) count_move [OF assms(2), of w] waiting_update [of "threads s" i w]
  by (auto simp: attended_def coming_cnt_def split: if_splits)

lemma work_step_attended:
  assumes "work_step s s'" and "attended s"
  shows "attended s'"
  using assms(1)
proof cases
  case (wait i)
  then show ?thesis by (simp add: attended_def)
qed (auto intro: attended_move [OF assms(2)])

lemma produce_call_attended: "produce_call s s' \<Longrightarrow> attended s \<Longrightarrow> attended s'"
  by (auto simp: attended_def coming_cnt_def elim!: produce_callE)

lemma spurious_wakeup_attended: "spurious_wakeup s s' \<Longrightarrow> attended s \<Longrightarrow> attended s'"
  by (auto elim!: spurious_wakeupE intro: attended_move)

lemma filter_wake:
  assumes "A \<subseteq> {i. i < length ts \<and> ts ! i = Waiting}" and "A \<noteq> {}"
  shows "length (filter coming ts) < length (filter coming (wake A ts))"
proof -
  have c: "length (filter coming xs) = card {i. i < length xs \<and> coming (xs ! i)}" for xs by (rule length_filter_conv_card)
  have "{i. i < length ts \<and> coming (ts ! i)} \<subset> {i. i < length (wake A ts) \<and> coming (wake A ts ! i)}"
    (is "?X \<subset> ?Y")
  proof -
    obtain a where a: "a \<in> A" "a < length ts" "ts ! a = Waiting" using assms by blast
    then have "a \<in> ?Y" "a \<notin> ?X" by (simp_all add: wake_def)
    moreover have "?X \<subseteq> ?Y" by (auto simp: wake_def)
    ultimately show ?thesis by blast
  qed
  then show ?thesis unfolding c by (intro psubset_card_mono) simp_all
qed

lemma produce_step_attended:
  assumes "produce_step s s'" and "attended s"
  shows "attended s'"
  using assms(1)
proof cases
  case (signal A)
  show ?thesis
  proof (cases "A = {}")
    case True
    then have "Waiting \<notin> set (threads s')" using signal by (auto simp: waiting_def at_def wake_def in_set_conv_nth)
    then show ?thesis by (simp add: attended_def)
  next
    case False
    then have "length (filter coming (threads s)) < length (filter coming (threads s'))" "Waiting \<in> set (threads s)"
      using signal filter_wake [of A "threads s"] by (auto simp: waiting_def at_def in_set_conv_nth)
    then show ?thesis using assms(2) signal by (simp add: attended_def coming_cnt_def)
  qed
qed (use assms(2) in \<open>auto simp: attended_def coming_cnt_def\<close>)

lemmas step_attended = work_step_attended produce_step_attended produce_call_attended spurious_wakeup_attended

text \<open>Work is started in the order in which it was produced, none is lost and none started twice.\<close>

definition fifo :: "ThreadPool \<Rightarrow> bool" where
  "fifo s \<longleftrightarrow> produced s = started s @ queue s"

definition pool_ok :: "ThreadPool \<Rightarrow> bool" where
  "pool_ok s \<longleftrightarrow> mutex_ok s \<and> fifo s \<and> attended s"

lemma tp_step_fifo: "tp_step s s' \<Longrightarrow> fifo s \<Longrightarrow> fifo s'"
  by (auto simp: fifo_def elim!: tp_step.cases work_step.cases produce_step.cases produce_callE spurious_wakeupE)

interpretation pool: invariant fresh_pool tp_step pool_ok
proof
  show "pool_ok s" if "fresh_pool s" for s
    using that by (auto simp: fresh_pool_def threadpool_init_def pool_ok_def mutex_ok_def fifo_def attended_def holds_def pholds_def split: if_splits)
  show "pool_ok s'" if "pool_ok s" "tp_step s s'" for s s'
    using that(2,1) tp_step_fifo [OF that(2)] by cases (auto simp: pool_ok_def intro: step_mutex step_attended)
qed

section \<open>Properties of the thread pool\<close>

text \<open>C27: in every state the pool can get into, under any interleaving and with spurious wake-ups, the work that was
  produced is what was started followed by what is queued: each item is started at most
  once, in the order of production, and none is lost.  At most one thread is inside the critical section.\<close>

theorem pool_fifo_mutex:
  assumes "fresh_pool s0" and "tp_step\<^sup>*\<^sup>* s0 s"
  shows "produced s = started s @ queue s \<and>
     (\<forall>i j v w. at s i v \<and> holds v \<and> at s j w \<and> holds w \<longrightarrow> i = j \<and> \<not> pholds (pstate s))"
  using pool.reachable_inv [OF assms(2,1)] by (auto simp: pool_ok_def fifo_def mutex_ok_def at_def)

text \<open>A pool with one worker, and the producer after its \<open>push\<close>.\<close>

definition job :: "nat \<Rightarrow> ThreadPoolWork" where
  "job n = \<lparr>work_f = n, work_arg = 0\<rparr>"

definition pool1 :: ThreadPool where
  "pool1 = threadpool_init True True (\<lambda>_. True) 1"

definition pushed :: ThreadPool where
  "pushed = pool1\<lparr>pstate := Signalling, mutex := Some Producer, queue := [job 1], produced := [job 1]\<rparr>"

lemma pool1_pushed: "fresh_pool pool1" "tp_step\<^sup>*\<^sup>* pool1 pushed" "threads pushed = [Start]" "queue pushed = [job 1]" "started pushed = []"
proof -
  let ?s1 = "pool1\<lparr>pstate := Locking (job 1)\<rparr>"
  let ?s2 = "?s1\<lparr>pstate := Pushing (job 1), mutex := Some Producer\<rparr>"
  have "tp_step pool1 ?s1" by (intro caller call) (simp add: pool1_def threadpool_init_def)
  moreover have "tp_step ?s1 ?s2" by (intro producer plock) (simp_all add: pool1_def threadpool_init_def)
  moreover have "tp_step ?s2 (?s2\<lparr>pstate := Signalling, queue := queue ?s2 @ [job 1], produced := produced ?s2 @ [job 1]\<rparr>)"
    by (intro producer push) simp
  then have "tp_step ?s2 pushed" by (simp add: pushed_def pool1_def threadpool_init_def)
  ultimately show "tp_step\<^sup>*\<^sup>* pool1 pushed" by (blast intro: rtranclp_trans)
  show "fresh_pool pool1" by (auto simp: fresh_pool_def pool1_def)
qed (simp_all add: pushed_def pool1_def threadpool_init_def)

theorem pool_fifo_mutex_witness:
  "tp_step\<^sup>*\<^sup>* pool1 pushed \<and> queue pushed = [job 1] \<and> produced pushed = started pushed @ queue pushed"
  using pool_fifo_mutex [OF pool1_pushed(1,2)] pool1_pushed(2,4) by simp

section \<open>Progress\<close>

text \<open>How many steps a thread can make before it takes work from the queue.\<close>

primrec effort :: "worker \<Rightarrow> nat" where
  "effort Check = 0" | "effort Start = 1" | "effort Woken = 1" | "effort Waiting = 2" | "effort (Running w) = 2" | "effort (Popped w) = 3"

primrec peffort :: "producer \<Rightarrow> nat" where
  "peffort Away = 0" | "peffort Unlocking = 1" | "peffort Signalling = 2" | "peffort (Pushing w) = 3" | "peffort (Locking w) = 4"

definition steps_left :: "ThreadPool \<Rightarrow> nat" where
  "steps_left s = sum_list (map effort (threads s)) + peffort (pstate s)"

lemma steps_left_bound: "steps_left s \<le> 3 * length (threads s) + 4"
proof -
  have "effort w \<le> 3" for w by (cases w) simp_all
  then have "sum_list (map effort ws) \<le> 3 * length ws" for ws by (induction ws) (simp_all add: add_mono)
  moreover have "peffort p \<le> 4" for p by (cases p) simp_all
  ultimately show ?thesis by (simp add: steps_left_def add_mono)
qed

lemma effort_move: "at s i v \<Longrightarrow> effort w < effort v \<Longrightarrow> sum_list (map effort ((threads s)[i := w])) < sum_list (map effort (threads s))"
proof -
  assume a: "at s i v" and "effort w < effort v"
  have "sum_list (map effort (xs[i := w])) + effort (xs ! i) = sum_list (map effort xs) + effort w" if "i < length xs" for xs
    using that
  proof (induction xs arbitrary: i)
    case (Cons x xs)
    then show ?case by (cases i) auto
  qed simp
  from this [of "threads s"] a \<open>effort w < effort v\<close> show ?thesis by (simp add: at_def)
qed

lemma effort_wake:
  assumes "A \<subseteq> waiting s"
  shows "sum_list (map effort (wake A (threads s))) \<le> sum_list (map effort (threads s))"
proof -
  have "effort (wake A (threads s) ! i) \<le> effort (threads s ! i)" if "i < length (threads s)" for i
    using that assms by (auto simp: wake_def waiting_def at_def)
  moreover have "length (wake A (threads s)) = length (threads s)" by (simp add: wake_def)
  ultimately show ?thesis by (auto simp: sum_list_sum_nth intro!: sum_mono)
qed

text \<open>While there is work, every step takes the first item or leaves fewer steps to make.\<close>

lemma pool_move_progress:
  assumes "pool_move s s'" and "queue s = w # q"
  shows "started s' = started s @ [w] \<or> started s' = started s \<and> steps_left s' < steps_left s \<and> (\<exists>q'. queue s' = w # q')"
  using assms(1) unfolding pool_move_def
proof (elim disjE)
  assume "work_step s s'"
  then show ?thesis
    by cases (use assms(2) effort_move in \<open>auto simp: steps_left_def\<close>)
next
  assume "produce_step s s'"
  then show ?thesis
    by cases (use assms(2) effort_wake in \<open>auto simp: steps_left_def intro: le_imp_less_Suc add_mono\<close>)
next
  assume "spurious_wakeup s s'"
  then show ?thesis by cases (use assms(2) effort_move in \<open>auto simp: steps_left_def\<close>)
qed

lemma pool_move_started: "pool_move s s' \<Longrightarrow> \<exists>r. started s' = started s @ r"
  by (auto simp: pool_move_def elim!: work_step.cases produce_step.cases spurious_wakeupE)

lemma pool_run_started: "(pool_move ^^ n) s s' \<Longrightarrow> \<exists>r. started s' = started s @ r"
proof (induction n arbitrary: s')
  case (Suc n)
  then obtain t where "(pool_move ^^ n) s t" "pool_move t s'" by auto
  with Suc.IH [of t] pool_move_started [of t s'] show ?case by auto
qed simp

lemma pool_run_progress:
  "(pool_move ^^ n) s s' \<Longrightarrow> queue s = w # q \<Longrightarrow> steps_left s < n \<Longrightarrow> \<exists>r. started s' = started s @ w # r"
proof (induction n arbitrary: s q)
  case (Suc n)
  from Suc.prems(1) obtain t where t: "pool_move s t" "(pool_move ^^ n) t s'" by (metis relpowp_Suc_D2)
  from pool_move_progress [OF t(1) Suc.prems(2)] show ?case
  proof (elim disjE conjE exE)
    assume "started t = started s @ [w]"
    with pool_run_started [OF t(2)] show ?thesis by auto
  next
    fix q' assume "started t = started s" "steps_left t < steps_left s" "queue t = w # q'"
    with Suc.IH [OF t(2)] Suc.prems(3) show ?thesis by simp
  qed
qed simp

text \<open>With work in the queue some thread can go on, without a spurious wake-up: the waiting threads were signalled.\<close>

lemma not_stuck:
  assumes ok: "pool_ok s" and "threads s \<noteq> []" and q: "queue s = w # q"
  shows "\<exists>s'. work_step s s' \<or> produce_step s s'"
proof -
  have m: "mutex_ok s" and att: "attended s" using ok by (simp_all add: pool_ok_def)
  show ?thesis
  proof (cases "mutex s")
    case None
    have "\<exists>i v. at s i v \<and> v \<noteq> Waiting"
    proof (rule ccontr)
      assume "\<not> ?thesis"
      then have all: "\<forall>v \<in> set (threads s). v = Waiting" by (auto simp: at_def in_set_conv_nth)
      then have "Waiting \<in> set (threads s)" using assms(2) by (cases "threads s") auto
      moreover have "filter coming (threads s) = []" using all by (auto simp: filter_empty_conv)
      moreover have "pstate s \<noteq> Signalling" using m None by (auto simp: mutex_ok_def pholds_def)
      ultimately show False using att q by (simp add: attended_def coming_cnt_def)
    qed
    then obtain i v where v: "at s i v" "v \<noteq> Waiting" by blast
    have "\<not> holds v" using m v(1) None by (auto simp: mutex_ok_def at_def)
    then show ?thesis using v None by (cases v) (auto simp: holds_def intro: work_step.intros)
  next
    case (Some h)
    show ?thesis
    proof (cases h)
      case (Worker i)
      then have "i < length (threads s)" "holds (threads s ! i)" using m Some by (auto simp: mutex_ok_def)
      then consider "at s i Check" | x where "at s i (Popped x)" by (cases "threads s ! i") (auto simp: at_def holds_def)
      then show ?thesis using q by cases (auto intro: work_step.intros)
    next
      case Producer
      then have "pholds (pstate s)" using m Some by (simp add: mutex_ok_def)
      then show ?thesis by (cases "pstate s") (auto simp: pholds_def intro: produce_step.intros)
    qed
  qed
qed

text \<open>The thread of the pool serves the item and waits again.\<close>

lemma pushed_run: "\<exists>s'. (pool_move ^^ 8) pushed s'"
proof -
  let ?p = "\<lambda>w m p q d. pushed\<lparr>threads := [w], mutex := m, pstate := p, queue := q, started := d\<rparr>"
  note sim = move_def at_def pushed_def pool1_def threadpool_init_def
  let ?s1 = "?p Start (Some Producer) Unlocking [job 1] []"
  let ?s2 = "?p Start None Away [job 1] []"
  let ?s3 = "?p Check (Some (Worker 0)) Away [job 1] []"
  let ?s4 = "?p (Popped (job 1)) (Some (Worker 0)) Away [] [job 1]"
  let ?s5 = "?p (Running (job 1)) None Away [] [job 1]"
  let ?s6 = "?p Start None Away [] [job 1]"
  let ?s7 = "?p Check (Some (Worker 0)) Away [] [job 1]"
  let ?s8 = "?p Waiting None Away [] [job 1]"
  have "waiting pushed = {}" by (auto simp: sim waiting_def)
  then have a: "produce_step pushed ?s1" using signal [of pushed "{}"] by (simp add: sim wake_def)
  have b: "produce_step ?s1 ?s2" using punlock [of ?s1] by (simp add: sim)
  have c: "work_step ?s2 ?s3" using lock [of ?s2 0] by (simp add: sim)
  have d: "work_step ?s3 ?s4" using pop [of ?s3 0] by (simp add: sim)
  have e: "work_step ?s4 ?s5" using unlock [of ?s4 0] by (simp add: sim)
  have f: "work_step ?s5 ?s6" using returned [of ?s5 0] by (simp add: sim)
  have g: "work_step ?s6 ?s7" using lock [of ?s6 0] by (simp add: sim)
  have h: "work_step ?s7 ?s8" using wait [of ?s7 0] by (simp add: sim)
  have m: "work_step x y \<Longrightarrow> pool_move x y" "produce_step x y \<Longrightarrow> pool_move x y" for x y by (simp_all add: pool_move_def)
  note go = relpowp_Suc_I2 [where P = pool_move, OF m(1)] and pgo = relpowp_Suc_I2 [where P = pool_move, OF m(2)]
  have "(pool_move ^^ Suc (Suc (Suc (Suc (Suc (Suc (Suc (Suc 0)))))))) pushed ?s8"
    by (rule pgo [OF a] pgo [OF b] go [OF c] go [OF d] go [OF e] go [OF f] go [OF g] go [OF h] relpowp_0_I)+
  moreover have "Suc (Suc (Suc (Suc (Suc (Suc (Suc (Suc 0))))))) = 8" by simp
  ultimately show ?thesis by metis
qed

text \<open>C28: no wake-up is lost.  In every state the pool can get into with at least one thread created and work in the queue,
  some thread can make a step other than a spurious wake-up; and however the threads are scheduled, if there is no new
  call of \<open>threadpool_produce\<close>, the first item of the queue has been started after \<open>3 n + 5\<close> steps of the \<open>n\<close> threads
  and of the call in progress.\<close>

theorem pool_progress:
  assumes "fresh_pool s0" and "tp_step\<^sup>*\<^sup>* s0 s" and "threads s \<noteq> []" and "queue s = w # q"
  shows "(\<exists>s'. work_step s s' \<or> produce_step s s') \<and>
     (\<forall>n s'. (pool_move ^^ n) s s' \<and> 3 * length (threads s) + 4 < n \<longrightarrow> (\<exists>r. started s' = started s @ w # r))"
proof -
  have "pool_ok s" by (rule pool.reachable_inv [OF assms(2,1)])
  then show ?thesis using not_stuck assms(3,4) pool_run_progress steps_left_bound [of s] by (meson le_less_trans)
qed

theorem pool_progress_witness:
  "(\<exists>s'. work_step pushed s' \<or> produce_step pushed s') \<and> (\<exists>s' r. (pool_move ^^ 8) pushed s' \<and> started s' = job 1 # r)"
proof -
  obtain s' where "(pool_move ^^ 8) pushed s'" using pushed_run ..
  then show ?thesis using pool_progress [OF pool1_pushed(1,2) _ pool1_pushed(4)] pool1_pushed(3,5) by fastforce
qed

end
