(* ===== verification/Client.thy ===== *)
theory Client
  imports Server
begin

text \<open>
  The command line client (\<open>src/src/client.cpp\<close>): \<open>read_all\<close>, \<open>write_all\<close>, \<open>handle_loop\<close> and the loop of
  \<open>main\<close>.  Building a request and printing a reply (\<open>handle_write\<close>, \<open>print_res\<close>) are in the
  theory of the wire format.  The keyboard is the list of the characters typed.
\<close>


section \<open>Definitions\<close>

text \<open>The socket as the segments that successive calls of \<open>read\<close> deliver; an empty segment, or none left, is a
  result that is not positive.  A call asks for the bytes still missing and gets at most what the
  next segment holds.\<close>

function read_all :: "bytes list \<Rightarrow> nat \<Rightarrow> unit + bytes \<times> bytes list" where
  "read_all segs n =
     (if n = 0 then Inr ([], segs)
      else case segs of
        [] \<Rightarrow> Inl ()
      | s # more_segs \<Rightarrow>
          if s = [] then Inl ()
          else (case read_all (if length s \<le> n then more_segs else drop n s # more_segs) (n - min n (length s)) of
             Inl e \<Rightarrow> Inl e
           | Inr (bs, r) \<Rightarrow> Inr (take n s @ bs, r)))"
  by pat_completeness auto
termination
  by (relation "measure snd") auto

declare read_all.simps [simp del]

text \<open>The results of successive calls of \<open>write\<close>, zero for one that is not positive.  The bytes sent, the
  results not used yet, and whether all of the bytes were sent.\<close>

fun write_all :: "nat list \<Rightarrow> bytes \<Rightarrow> bytes \<times> nat list \<times> bool" where
  "write_all ks [] = ([], ks, True)"
| "write_all [] buf = ([], [], False)"
| "write_all (k # ks) buf =
     (if k = 0 then ([], ks, False)
      else case write_all ks (drop k buf) of (bs, ks, ok) \<Rightarrow> (take k buf @ bs, ks, ok))"

text \<open>\<open>fgets (s, n, stdin)\<close>: at most \<open>n - 1\<close> characters, up to and including a newline; NULL at the end of the input.\<close>

fun upto_newline :: "nat \<Rightarrow> bytes \<Rightarrow> bytes \<times> bytes" where
  "upto_newline 0 inp = ([], inp)"
| "upto_newline (Suc n) [] = ([], [])"
| "upto_newline (Suc n) (c # inp) = (if c = 10 then ([c], inp) else case upto_newline n inp of (l, r) \<Rightarrow> (c # l, r))"

definition fgets :: "nat \<Rightarrow> bytes \<Rightarrow> (bytes \<times> bytes) option" where
  "fgets n inp = (if inp = [] then None else Some (upto_newline (n - 1) inp))"

text \<open>\<open>strtok\<close> with the delimiter space, called until it returns NULL.\<close>

function strtok_all :: "bytes \<Rightarrow> bytes list" where
  "strtok_all s = (case dropWhile (\<lambda>c. c = 32) s of
     [] \<Rightarrow> []
   | t \<Rightarrow> takeWhile (\<lambda>c. c \<noteq> 32) t # strtok_all (drop 1 (dropWhile (\<lambda>c. c \<noteq> 32) t)))"
  by pat_completeness auto
termination
proof (relation "measure length", goal_cases)
  case (2 s c t)
  then have "length (c # t) \<le> length s" by (metis length_dropWhile_le)
  then show ?case using length_dropWhile_le [of "\<lambda>c. c \<noteq> 32" "c # t"] by (auto simp: less_Suc_eq_le)
qed simp

declare strtok_all.simps [simp del]

text \<open>\<open>handle_read\<close> on the segments that arrive.  The size of the buffer is computed in 32 bits; where it wraps, the
  read overruns the buffer.\<close>

definition handle_read_all :: "bytes list \<Rightarrow> (unit + u32 \<times> item list \<times> bytes list) option" where
  "handle_read_all segs = (case read_all segs 4 of
     Inl e \<Rightarrow> Some (Inl ())
   | Inr (hb, segs) \<Rightarrow>
       let total_len = unat (of_le32 hb) in
       if 4 + total_len \<ge> 2 ^ 32 then None
       else (case read_all segs total_len of
          Inl e \<Rightarrow> Some (Inl ())
        | Inr (body, segs) \<Rightarrow> do {
            let buf = hb @ body;
            (cb, _) \<leftarrow> rd 4 (drop 10 buf);
            its \<leftarrow> print_res buf 14 total_len;
            Some (Inr (of_le32 cb, its, segs))
          }))"

text \<open>The state of the client and what one call of \<open>handle_loop\<close> does with it: the keyboard, the
  socket in both directions and the replies printed; \<open>accepts\<close> are the results of \<open>write\<close>.\<close>

record client =
  stdin :: bytes
  socket_in :: "bytes list"
  accepts :: "nat list"
  socket_out :: bytes
  printed :: "(u32 \<times> item list) list"

definition handle_loop :: "client \<Rightarrow> (int \<times> client) option" where
  "handle_loop s = (case fgets 1024 (stdin s) of
     None \<Rightarrow> Some (0, s)
   | Some (rawcmd, inp) \<Rightarrow> do {
       let s = s\<lparr>stdin := inp\<rparr>;
       cmd \<leftarrow> those (map (\<lambda>t. dstr_copy always t (length t)) (strtok_all (butlast (cstr rawcmd))));
       cmd \<leftarrow> (if length cmd = 1
               then map_option (\<lambda>buf. [(cmd ! 0)\<lparr>dbuf := buf\<rparr>]) (lower_buf (dbuf (cmd ! 0)))
               else Some cmd);
       if length cmd = 1 \<and> text_of (cmd ! 0) = msg ''quit'' then Some (1, s)
       else if length cmd = 1 \<and> text_of (cmd ! 0) = msg ''clear'' then Some (0, s)
       else do {
         w \<leftarrow> client_handle_write cmd;
         (case w of
            Inl _ \<Rightarrow> Some (- 1, s)
          | Inr buf \<Rightarrow> do {
              let (bs, ks, ok) = write_all (accepts s) buf;
              let s = s\<lparr>socket_out := socket_out s @ bs, accepts := ks\<rparr>;
              if \<not> ok then Some (- 1, s)
              else do {
                r \<leftarrow> handle_read_all (socket_in s);
                (case r of
                   Inl _ \<Rightarrow> Some (- 1, s)
                 | Inr (code, its, segs) \<Rightarrow> Some (0, s\<lparr>socket_in := segs, printed := printed s @ [(code, its)]\<rparr>))
              }
            })
       }
     })"

text \<open>The loop of \<open>main\<close> for at most \<open>n\<close> rounds: \<open>Inl\<close> while it has not returned.\<close>

fun client_main :: "nat \<Rightarrow> client \<Rightarrow> (client + int) option" where
  "client_main 0 s = Some (Inl s)"
| "client_main (Suc n) s = do {
     (err, s) \<leftarrow> handle_loop s;
     if err \<noteq> 0 then Some (Inr err) else client_main n s
   }"

section \<open>Reading and writing in pieces\<close>

lemma read_all_concat:
  assumes "[] \<notin> set segs"
  shows "(case read_all segs n of Inl e \<Rightarrow> rd n (concat segs) = None
      | Inr (bs, r) \<Rightarrow> rd n (concat segs) = Some (bs, concat r) \<and> [] \<notin> set r)"
  using assms
proof (induction segs n rule: read_all.induct)
  case (1 segs n)
  show ?case
  proof (cases "n = 0 \<or> segs = []")
    case True
    then show ?thesis using 1(2) by (auto simp: rd_def read_all.simps [of segs n])
  next
    case False
    then obtain s ss where s: "segs = s # ss" "s \<noteq> []" "n \<noteq> 0" using 1(2) by (cases segs) auto
    let ?r = "if length s \<le> n then ss else drop n s # ss"
    let ?m = "n - min n (length s)"
    have "[] \<notin> set ?r" using s 1(2) by auto
    from 1(1) [OF s(3,1,2) this] have ih: "case read_all ?r ?m of Inl e \<Rightarrow> rd ?m (concat ?r) = None
        | Inr (bs, r) \<Rightarrow> rd ?m (concat ?r) = Some (bs, concat r) \<and> [] \<notin> set r" .
    have eq: "concat segs = take n s @ concat ?r" using s by auto
    have len: "length (take n s) = min n (length s)" by simp
    show ?thesis
    proof (cases "read_all ?r ?m")
      case (Inl e)
      then show ?thesis using ih s eq by (subst read_all.simps) (auto simp: rd_def split: if_splits)
    next
      case (Inr p)
      then show ?thesis using ih s eq by (subst read_all.simps) (auto simp: rd_def split: if_splits prod.splits)
    qed
  qed
qed

lemma write_all_all: "0 \<notin> set ks \<Longrightarrow> length buf \<le> sum_list ks \<Longrightarrow> \<exists>ks'. write_all ks buf = (buf, ks', True)"
  by (induction ks buf rule: write_all.induct) (auto split: prod.splits)

lemma write_all_prefix: "write_all ks buf = (bs, ks', ok) \<Longrightarrow> \<exists>r. buf = bs @ r \<and> (ok \<longleftrightarrow> r = [])"
proof (induction ks buf arbitrary: bs ks' ok rule: write_all.induct)
  case (3 k ks c buf)
  show ?case
  proof (cases "k = 0")
    case False
    obtain bs' ks'' ok' where w: "write_all ks (drop k (c # buf)) = (bs', ks'', ok')" by (metis prod.exhaust)
    from 3(1) [OF False this] obtain r where r: "drop k (c # buf) = bs' @ r" "ok' \<longleftrightarrow> r = []" by blast
    have "bs = take k (c # buf) @ bs'" "ok = ok'" using 3(2) False w by simp_all
    then show ?thesis using r append_take_drop_id [of k "c # buf"] by (metis append.assoc)
  qed (use 3(2) in auto)
qed auto

section \<open>Words\<close>

lemma takeWhile_word: "32 \<notin> set w \<Longrightarrow> takeWhile (\<lambda>c. c \<noteq> (32 :: u8)) (w @ 32 # r) = w \<and> dropWhile (\<lambda>c. c \<noteq> 32) (w @ 32 # r) = 32 # r"
  by (induction w) auto

lemma all_word: "32 \<notin> set w \<Longrightarrow> takeWhile (\<lambda>c. c \<noteq> (32 :: u8)) w = w \<and> dropWhile (\<lambda>c. c \<noteq> 32) w = []"
  by (induction w) auto

text \<open>Words separated by single spaces.\<close>

fun spaced :: "bytes list \<Rightarrow> bytes" where
  "spaced [] = []"
| "spaced [w] = w"
| "spaced (w # ws) = w @ 32 # spaced ws"

lemma strtok_spaced: "\<forall>w \<in> set ws. w \<noteq> [] \<and> 32 \<notin> set w \<Longrightarrow> strtok_all (spaced ws) = ws"
proof (induction ws rule: spaced.induct)
  case (2 w)
  then obtain c v where w: "w = c # v" "c \<noteq> 32" by (cases w) auto
  then have "32 \<notin> set v" using 2 by simp
  with w show ?case by (subst strtok_all.simps) (auto simp: strtok_all.simps [of "[]"] all_word)
next
  case (3 w x ws)
  then obtain c v where w: "w = c # v" "c \<noteq> 32" by (cases w) auto
  with 3 takeWhile_word [of v "spaced (x # ws)"] show ?case by (subst strtok_all.simps) auto
qed (simp add: strtok_all.simps)

lemma upto_newline_line: "10 \<notin> set l \<Longrightarrow> length l < n \<Longrightarrow> upto_newline n (l @ 10 # r) = (l @ [10], r)"
proof (induction l arbitrary: n)
  case Nil
  then show ?case by (cases n) auto
next
  case (Cons c l)
  then show ?case by (cases n) auto
qed

lemma set_spaced: "set (spaced ws) \<subseteq> insert 32 (\<Union> (set ` set ws))"
  by (induction ws rule: spaced.induct) auto

lemma length_spaced: "ws \<noteq> [] \<Longrightarrow> Suc (length (spaced ws)) = sum_list (map (\<lambda>w. Suc (length w)) ws)"
  by (induction ws rule: spaced.induct) auto

lemma those_map: "\<forall>x \<in> set xs. \<exists>y. f x = Some y \<and> P x y \<Longrightarrow> \<exists>ys. those (map f xs) = Some ys \<and> list_all2 P xs ys"
  by (induction xs) auto

lemma handle_read_all_concat:
  assumes "[] \<notin> set segs" and "client_handle_read (concat segs) = Some (Inr (code, its, r))"
  shows "\<exists>segs'. handle_read_all segs = Some (Inr (code, its, segs')) \<and> concat segs' = r \<and> [] \<notin> set segs'"
proof -
  obtain hb r1 body r2 cb where h: "rd 4 (concat segs) = Some (hb, r1)" "\<not> 4 + unat (of_le32 hb) \<ge> 2 ^ 32" "rd (unat (of_le32 hb)) r1 = Some (body, r)"
    "rd 4 (drop 10 (hb @ body)) = Some (cb, r2)" "print_res (hb @ body) 14 (unat (of_le32 hb)) = Some its" "of_le32 cb = code"
    using assms(2) by (auto simp: client_handle_read_def Let_def bind_eq_Some_conv split: option.splits if_splits)
  obtain s1 where s1: "read_all segs 4 = Inr (hb, s1)" "concat s1 = r1" "[] \<notin> set s1"
    using read_all_concat [OF assms(1), of 4] h(1) by (auto split: sum.splits)
  obtain s2 where s2: "read_all s1 (unat (of_le32 hb)) = Inr (body, s2)" "concat s2 = r" "[] \<notin> set s2"
    using read_all_concat [OF s1(3), of "unat (of_le32 hb)"] h(3) s1(2) by (auto split: sum.splits)
  show ?thesis using s1(1) s2 h by (simp add: handle_read_all_def)
qed

lemma tokens_ok:
  assumes "\<forall>w \<in> set ws. length w \<le> 4096"
  shows "\<exists>cmd. those (map (\<lambda>t. dstr_copy always t (length t)) ws) = Some cmd \<and> map dstr_bytes cmd = ws \<and> (\<forall>t \<in> set cmd. wf_dstr t)"
proof -
  have "\<exists>y. dstr_copy always w (length w) = Some y \<and> wf_dstr y \<and> dstr_bytes y = w" if "w \<in> set ws" for w
    using dstr_copy_ok [of w "length w"] assms that by (fastforce simp: MAX_STR_SIZE_def)
  with those_map [of ws "\<lambda>t. dstr_copy always t (length t)" "\<lambda>w y. wf_dstr y \<and> dstr_bytes y = w"] obtain cmd where
    c: "those (map (\<lambda>t. dstr_copy always t (length t)) ws) = Some cmd" "list_all2 (\<lambda>w y. wf_dstr y \<and> dstr_bytes y = w) ws cmd" by blast
  from c(2) have "map dstr_bytes cmd = ws \<and> (\<forall>t \<in> set cmd. wf_dstr t)" by (induction rule: list_all2_induct) auto
  with c(1) show ?thesis by blast
qed

lemma write_tokens_length: "write_tokens buf ts = Some bs \<Longrightarrow> length bs \<le> length buf + sum_list (map (\<lambda>t. 5 + dsize t) ts)"
proof (induction ts arbitrary: buf)
  case (Cons t ts)
  let ?b = "buf @ TAG_STR # le32 (of_nat (dsize t)) @ take (unat (of_nat (dsize t) :: u32)) (dstr_bytes t)"
  have "write_tokens ?b ts = Some bs" using Cons.prems by (auto simp: buf_defs Let_def split: if_splits)
  from Cons.IH [OF this] have "length bs \<le> length ?b + sum_list (map (\<lambda>t. 5 + dsize t) ts)" .
  moreover have "length ?b \<le> length buf + 5 + dsize t" by (simp add: unat_of_nat min_def) (metis le_trans mod_less_eq_dividend nat_le_linear)
  ultimately show ?case by simp
qed simp

lemma client_write_length:
  assumes "client_handle_write q = Some (Inr bs)" and "5 + sum_list (map (\<lambda>t. 5 + dsize t) q) \<le> CLIENT_MAX_MESSAGE_LEN"
  shows "length bs \<le> 4 + CLIENT_MAX_MESSAGE_LEN"
proof -
  obtain b where "write_tokens b q = Some bs" "length b = 9"
    using assms(1) by (auto simp: client_handle_write_def buf_defs Let_def bind_eq_Some_conv split: if_splits)
  with write_tokens_length [OF this(1)] assms(2) show ?thesis by simp
qed

text \<open>The request for a line of words.\<close>

definition line_words :: "bytes list \<Rightarrow> bool" where
  "line_words ws \<longleftrightarrow> 2 \<le> length ws \<and> (\<forall>w \<in> set ws. w \<noteq> [] \<and> set w \<inter> {0, 10, 32} = {}) \<and> sum_list (map (\<lambda>w. Suc (length w)) ws) \<le> 1023"

lemma line_query:
  assumes "line_words ws"
  shows "\<exists>query bs. those (map (\<lambda>t. dstr_copy always t (length t)) ws) = Some query \<and> client_handle_write query = Some (Inr bs)
     \<and> length bs \<le> 4100 \<and> map dstr_bytes query = ws \<and> (\<forall>t \<in> set query. wf_dstr t)
     \<and> 5 + sum_list (map (\<lambda>t. 5 + dsize t) query) \<le> CLIENT_MAX_MESSAGE_LEN"
proof -
  have ws: "\<forall>w \<in> set ws. w \<noteq> []" and len: "sum_list (map (\<lambda>w. Suc (length w)) ws) \<le> 1023" using assms by (auto simp: line_words_def)
  have each: "length w \<le> 4096" if "w \<in> set ws" for w
    using member_le_sum_list [of "Suc (length w)" "map (\<lambda>w. Suc (length w)) ws"] that len by auto
  obtain cmd where c: "those (map (\<lambda>t. dstr_copy always t (length t)) ws) = Some cmd" "map dstr_bytes cmd = ws" "\<forall>t \<in> set cmd. wf_dstr t"
    using tokens_ok [of ws] each by blast
  have sz: "map dsize cmd = map length ws" using c(2,3) by (metis (no_types, lifting) length_dstr_bytes list.map_comp list.map_cong o_apply)
  have "5 + sum_list (map (\<lambda>w. 5 + length w) ws) \<le> 5 + 3 * sum_list (map (\<lambda>w. Suc (length w)) ws)"
    using ws by (induction ws) (auto simp: neq_Nil_conv)
  moreover have "map (\<lambda>t. 5 + dsize t) cmd = map (\<lambda>w. 5 + length w) ws" using arg_cong [OF sz, of "map ((+) 5)"] by (simp add: comp_def)
  ultimately have "5 + sum_list (map (\<lambda>t. 5 + dsize t) cmd) \<le> 3074" using len by simp
  then have tot: "5 + sum_list (map (\<lambda>t. 5 + dsize t) cmd) \<le> CLIENT_MAX_MESSAGE_LEN" by (simp add: CLIENT_MAX_MESSAGE_LEN_def)
  from request_parses [OF c(3) tot, of "[]"] obtain bs where b: "client_handle_write cmd = Some (Inr bs)" by blast
  have "length bs \<le> 4100" using client_write_length [OF b tot] by (simp add: CLIENT_MAX_MESSAGE_LEN_def)
  with c b tot show ?thesis by blast
qed

lemma handle_loop_sends:
  assumes ws: "line_words ws" and q: "those (map (\<lambda>t. dstr_copy always t (length t)) ws) = Some query"
    "client_handle_write query = Some (Inr bs)" "length bs \<le> 4100"
    and inp: "stdin s = spaced ws @ 10 # inp" and acc: "0 \<notin> set (accepts s)" "4100 \<le> sum_list (accepts s)"
    and segs: "[] \<notin> set (socket_in s)" "client_handle_read (concat (socket_in s)) = Some (Inr (code, its, later))"
  shows "\<exists>segs' ks. handle_loop s = Some (0, s\<lparr>stdin := inp, accepts := ks, socket_out := socket_out s @ bs, socket_in := segs', printed := printed s @ [(code, its)]\<rparr>)
     \<and> concat segs' = later"
proof -
  have w: "\<forall>w \<in> set ws. w \<noteq> [] \<and> set w \<inter> {0, 10, 32} = {}" "2 \<le> length ws" using ws by (simp_all add: line_words_def)
  have sp: "set (spaced ws) \<inter> {0, 10} = {}" using w(1) set_spaced [of ws] by fastforce
  have ls: "length (spaced ws) < 1023" using length_spaced [of ws] ws by (cases ws) (auto simp: line_words_def)
  have f: "fgets 1024 (stdin s) = Some (spaced ws @ [10], inp)" using upto_newline_line [of "spaced ws" 1023 inp] sp ls inp by (simp add: fgets_def)
  have cs: "butlast (cstr (spaced ws @ [10])) = spaced ws" using sp by (subst cstr_no_nul) auto
  have tk: "strtok_all (spaced ws) = ws" using w(1) by (intro strtok_spaced) auto
  have "list_all2 (\<lambda>a b. True) ws query" using q(1) by (induction ws arbitrary: query) (auto simp: bind_eq_Some_conv split: option.splits)
  then have lc: "length query = length ws" by (simp add: list_all2_lengthD)
  obtain ks where wr: "write_all (accepts s) bs = (bs, ks, True)" using write_all_all [OF acc(1), of bs] acc(2) q(3) by auto
  obtain segs' where r: "handle_read_all (socket_in s) = Some (Inr (code, its, segs'))" "concat segs' = later"
    using handle_read_all_concat [OF segs] by metis
  show ?thesis using f cs tk q(1,2) lc w(2) wr r by (intro exI [of _ segs'] exI [of _ ks]) (simp add: handle_loop_def)
qed

section \<open>Properties of the client\<close>


definition typing :: "bytes \<Rightarrow> client" where
  "typing inp = \<lparr>stdin = inp, socket_in = [[11], [0, 0, 0, 2, 2, 0, 0], [0, 0, 0, 0, 0, 0, 3, 99]], accepts = [1, 5000],
     socket_out = [], printed = []\<rparr>"

lemma typing_reply: "concat (socket_in (typing inp)) = frame RES_OK (concat (map enc [RNull])) @ [99]" "[] \<notin> set (socket_in (typing inp))"
  by (simp_all add: typing_def frame_def le32_def TAG_ARR_def TAG_INT_def TAG_NULL_def RES_OK_def)


text \<open>C36: an empty line makes the client send a request without words, and the server reads the first
  word of every request before it looks at their number: the request is undefined behaviour in the
  server.\<close>

theorem empty_line_faults_server:
  assumes "stdin cl = 10 # inp" and "accepts cl = 9 # ks" and "handle_read_all (socket_in cl) = Some r"
    and "conns s c = Some k" and "incoming k = [5, 0, 0, 0, 2, 0, 0, 0, 0]"
  shows "\<exists>e cl'. handle_loop cl = Some (e, cl') \<and> socket_out cl' = socket_out cl @ incoming k \<and> serve F clk c s = None"
proof -
  have f: "fgets 1024 (stdin cl) = Some ([10], inp)" using upto_newline_line [of "[]" 1023 inp] assms(1) by (simp add: fgets_def)
  have tk: "strtok_all (butlast (cstr [10])) = []" by (subst strtok_all.simps) (simp add: cstr_def)
  have w: "client_handle_write [] = Some (Inr (incoming k))"
    using assms(5) by (simp add: client_handle_write_def buf_defs le32_def TAG_ARR_def CLIENT_MAX_MESSAGE_LEN_def)
  have h: "\<exists>e cl'. handle_loop cl = Some (e, cl') \<and> socket_out cl' = socket_out cl @ incoming k"
    using f tk w assms(2,3,5) by (cases r) (auto simp: handle_loop_def)
  have p: "parse_cmd (drop 4 (incoming k)) = Some []"
    using assms(5) by (simp add: parse_cmd_def rd_def of_le32_def)
  have "try_one_req F clk s c = None"
    using assms(4,5) p by (simp add: try_one_req_def out_buffer_def arg_def get_curr_ms_def Let_def of_le32_def bind_eq_None_conv split: prod.split)
  then have "serve F clk c s = None" by (subst serve.simps) simp
  with h show ?thesis by blast
qed

theorem empty_line_faults_server_witness:
  "\<exists>e cl'. handle_loop ((typing [10])\<lparr>accepts := [9]\<rparr>) = Some (e, cl') \<and> socket_out cl' = [5, 0, 0, 0, 2, 0, 0, 0, 0]
     \<and> serve real_fpu (\<lambda>_. 0) 0 (one_conn empty_gdata [5, 0, 0, 0, 2, 0, 0, 0, 0]) = None"
proof -
  obtain r where "handle_read_all (socket_in (typing [10])) = Some r"
    using handle_read_all_concat [OF typing_reply(2), where code = RES_OK and its = "[received RNull]" and r = "[99]"] client_reads_frame [of "[RNull]" RES_OK "[99]"]
    by (auto simp: typing_reply(1) MAX_MESSAGE_LEN_def)
  then show ?thesis
    using empty_line_faults_server [of "(typing [10])\<lparr>accepts := [9]\<rparr>" "[]" "[]" r "one_conn empty_gdata [5, 0, 0, 0, 2, 0, 0, 0, 0]" 0 _ real_fpu "\<lambda>_. 0"]
    by (auto simp: typing_def one_conn_def)
qed

text \<open>At the end of its input the client asks again, for ever.\<close>

lemma client_main_eof: "stdin s = [] \<Longrightarrow> client_main n s = Some (Inl s)"
  by (induction n) (simp_all add: handle_loop_def fgets_def)


text \<open>C31: reading in pieces makes no difference: \<open>handle_read\<close> on the segments \<open>read\<close> delivers agrees with
  reading the stream as a whole in the response code, the items, the bytes left and every failure.\<close>

theorem handle_read_all_equiv:
  assumes "[] \<notin> set segs"
  shows "map_option (map_sum id (\<lambda>(code, its, r). (code, its, concat r))) (handle_read_all segs) = client_handle_read (concat segs)"
proof -
  note rd1 = read_all_concat [OF assms, of 4]
  show ?thesis
  proof (cases "read_all segs 4")
    case (Inl e)
    then show ?thesis using rd1 by (simp add: handle_read_all_def client_handle_read_def)
  next
    case (Inr p)
    then obtain hb s1 where p: "read_all segs 4 = Inr (hb, s1)" "rd 4 (concat segs) = Some (hb, concat s1)" "[] \<notin> set s1"
      using rd1 by (cases p) auto
    note rd2 = read_all_concat [OF p(3), of "unat (of_le32 hb)"]
    show ?thesis
    proof (cases "read_all s1 (unat (of_le32 hb))")
      case (Inl e)
      then show ?thesis using rd2 p by (simp add: handle_read_all_def client_handle_read_def Let_def)
    next
      case (Inr q)
      then obtain body s2 where q: "read_all s1 (unat (of_le32 hb)) = Inr (body, s2)" "rd (unat (of_le32 hb)) (concat s1) = Some (body, concat s2)"
        using rd2 by (cases q) auto
      then show ?thesis using p
        by (cases "rd 4 (drop 10 (hb @ body))"; cases "print_res (hb @ body) 14 (unat (of_le32 hb))")
          (auto simp: handle_read_all_def client_handle_read_def Let_def)
    qed
  qed
qed

theorem handle_read_all_equiv_witness:
  "map_option (map_sum id (\<lambda>(code, its, r). (code, its, concat r))) (handle_read_all (socket_in (typing [])))
     = Some (Inr (RES_OK, [INull], [99]))"
proof -
  have "client_handle_read (concat (socket_in (typing []))) = Some (Inr (RES_OK, [INull], [99]))"
    using client_reads_frame [of "[RNull]" RES_OK "[99]"] by (simp add: typing_reply(1) MAX_MESSAGE_LEN_def received_def)
  then show ?thesis using handle_read_all_equiv [OF typing_reply(2), of "[]"] by simp
qed

end
