(* ===== verification/Spec2Isabelle.thy ===== *)
theory Spec2Isabelle
  imports Prelude Dstr Murmur Hashmap Heap Dlist Avl Zset Wire Cstdlib Hll Db Commands Queries Server Timers Threadpool Client
begin

text \<open>
  \<^bold>\<open>A verification library for an in-memory key-value server in C++.\<close>

  The program (under \<open>src/src\<close>) is a single-threaded server with a \<open>poll\<close> loop, a thread pool
  for deletions, the data structures behind its commands, and a command line client.
  A connection's bytes are cut into requests (\<open>try_one_req\<close>, \<open>parse_cmd\<close>), a
  request is dispatched on its first word (\<open>out_buffer\<close>) to one of the \<open>do_\<close> functions, which work on
  the keyspace, an incrementally rehashed hash map, and append the reply to the connection's
  output.  Deadlines of keys are in a heap whose entries point back into the keyspace; deadlines of
  connections are in three circular lists.

  \<^bold>\<open>Conventions.\<close>
  The result type \<open>option\<close> carries undefined behaviour: \<open>None\<close> is a read of memory that was never
  written or is freed, a write outside an allocation, a NULL dereference or a failed \<open>assert\<close>.  Errors that
  the program handles are values (result codes, \<open>Inl\<close>, reply bytes).  A theorem that
  an operation does its work therefore always says that its result is \<open>Some\<close>.
  Machine words are words of their width where the code computes with them; sizes and indexes are natural
  numbers where the surrounding bounds exclude wrap-around, and the places where they do
  not (\<open>szadd\<close>, \<open>heap_parent\<close>, \<open>next_timer_ms\<close>, the sizes in the client) wrap explicitly.  Objects that are shared
  or linked live in stores, partial functions from addresses; allocation takes an address
  that was never used.  The bytes of a buffer are \<open>u8 option\<close>, \<open>None\<close> for an uninitialised
  one.  What the program does not determine is a parameter: whether an allocation succeeds (\<open>allocator\<close>,
  always successful in the layers above \<open>Dstr\<close>), the clock, the arithmetic on \<open>long double\<close> (\<open>fpu\<close>), and
  what the system calls return.

  \<^bold>\<open>Theories.\<close>
  \<^item> \<open>Prelude\<close>: types, raw memory, little-endian numbers, C strings.
  \<^item> \<open>Dstr\<close>: \<open>data_structures/dstr.cpp\<close>, strings with spare capacity.  \<open>dstr_append\<close> appends; growing a string that
    is longer than its free space overstates the free counter, and the appends that trust it leave the allocation.
  \<^item> \<open>Murmur\<close>: the hash of \<open>utils/common.h\<close>.
  \<^item> \<open>Hashmap\<close>: \<open>data_structures/hashmap.cpp\<close>, two tables and a migration position.  The locale \<open>keyed_store\<close>
    is the contract of a store of nodes with keys; its interpretation on the
    hash map gives the refinement of finite maps (lookup, insertion, deletion) while a rehash is in
    progress.  The older table is drained by \<open>ht_unlink\<close>, which clears what it migrates (\<open>touched\<close>).
  \<^item> \<open>Heap\<close>: \<open>data_structures/heap.cpp\<close> and \<open>set_ttl\<close>, \<open>rem_ttl\<close>.  The back references are always right and no entry
    is lost; insertion keeps the heap order, removal can break it.
  \<^item> \<open>Dlist\<close>: \<open>data_structures/dlist.cpp\<close> on a store of nodes, as a ring with a sentinel and as a chain.
  \<^item> \<open>Avl\<close>: \<open>data_structures/avl_tree.cpp\<close> on a store.  Fixing and deleting keep the order, restore
    the balance and all derived fields; the loops end.
  \<^item> \<open>Zset\<close>: \<open>data_structures/zset.cpp\<close>, tree and hash map over the same nodes; refinement of a map from members to
    scores, search by order and by rank.  Scores are bit patterns of doubles, NaN excluded.
  \<^item> \<open>Wire\<close>: \<open>buffer_funcs.cpp\<close>, \<open>out_helpers.cpp\<close>, request and reply formats of server and client; both round trips.
  \<^item> \<open>Cstdlib\<close>: \<open>strtol\<close>, \<open>strtod\<close>, \<open>tolower\<close> of the C library.
  \<^item> \<open>Hll\<close>: \<open>data_structures/hyperloglog.cpp\<close>, dense and sparse sketches.  Registers of a dense sketch are set
    independently; the first value of a sparse one is stored except next to a run of 65 zeroes, where it is lost.
  \<^item> \<open>Db\<close>, \<open>Commands\<close>: \<open>redis_functions.cpp\<close>, every command, and the properties of the commands over the abstraction \<open>dbv\<close>
    of the keyspace to a map from keys to entries.  \<open>SET\<close> leaves the other keys alone except that migrating the keyspace
    empties hashes and sorted sets (\<open>migrating\<close>); the insertion that fills the table empties all of them up to 1000 elements.
  \<^item> \<open>Queries\<close>: \<open>LRANGE\<close>, \<open>ZQUERY\<close> and \<open>BITCOUNT\<close> as slices, windows and counts of the abstract contents, and \<open>ZREM\<close>.
  \<^item> \<open>Server\<close>: \<open>server.cpp\<close>, dispatch, requests, connections, timers and one round of the loop of \<open>main\<close>
    (\<open>loop_round\<close>); requests are served in order and end to end.
  \<^item> \<open>Timers\<close>: the timeout lists and the expiry of keys.  The locale \<open>timeout_list\<close>, interpreted on the three lists, is what the loops of
    \<open>process_timers\<close> need of one list: each closes the overdue front of its list.  \<open>conns_ok\<close> relates the lists, the connections
    and the descriptor table; it holds after accepting, after timeouts and after every answered request, one reply at a time.
    With several replies pending, \<open>dlist_deatach\<close> leaves stale pointers behind that make a later \<open>close_conn\<close> fault.
  \<^item> \<open>Threadpool\<close>: \<open>threadpool.cpp\<close> as a step relation; the locale \<open>invariant\<close> carries an inductive invariant to
    all reachable states.  Spurious wake-ups and new calls of \<open>threadpool_produce\<close> are rules of their own, so that progress is
    stated without them: the steps of the threads alone start the first item within a bound.
  \<^item> \<open>Client\<close>: \<open>client.cpp\<close>, reading and writing in pieces, the command line, the main loop.
  \<^item> This theory: a command from the keyboard of the client to the keyspace of the server and back.

  \<^bold>\<open>Loops.\<close>
  Loops whose end follows from a measure are total functions: the search for requests (\<open>serve\<close>, the input shrinks),
  \<open>heap_down_loop\<close>, \<open>print_res\<close>, the scans of sketches, tree walks with the height as fuel.
  The others are \<open>partial_function\<close>s whose results are proved to exist where they are used (\<open>heap_up_loop\<close>,
  \<open>reap\<close>).  \<open>expire_loop\<close> takes the number of rounds, 201 in \<open>process_timers\<close>, and \<open>client_main\<close> the rounds
  to be looked at.

  \<^bold>\<open>Bounds in hypotheses.\<close>
  Keys of at most half of \<open>MAX_STR_SIZE\<close> (2^30), for which no copy fails; fewer than 2^32 heap entries; replies of
  at most 32 MB and requests of at most 4096 bytes, the limits of the program.

  \<^bold>\<open>Not modelled.\<close>
  The set-up of sockets and the log output, which have no logic of their own; \<open>tblock.cpp\<close>, which is empty, and
  \<open>darray.h\<close>, whose macros are unfinished and unused; the tests.  The deletions that run on the thread pool are recorded
  in \<open>gjobs\<close> when they are produced, their execution concurrent with the event loop is not.  Memory that
  the code never frees is not tracked.
\<close>


section \<open>From the keyboard to the keyspace and back\<close>

text \<open>A server with one connection that is up to date, and what its client types.\<close>

definition idle_conn :: "server \<Rightarrow> addr \<Rightarrow> Conn \<Rightarrow> bool" where
  "idle_conn s c k \<longleftrightarrow> conns s c = Some k \<and> incoming k = [] \<and> outgoing k = []"

definition arrives :: "server \<Rightarrow> addr \<Rightarrow> bytes \<Rightarrow> server" where
  "arrives s c bs = s\<lparr>conns := (conns s)(c \<mapsto> (the (conns s c))\<lparr>incoming := bs\<rparr>)\<rparr>"

text \<open>C8: what a user types is what is stored: for a key that is not present yet, the line \<open>SET key value\<close> makes the
  client send a request that the server serves by storing exactly the bytes of the value under the key, and the
  client, however the reply arrives, prints the status word and the null item.\<close>

theorem typed_set_is_stored:
  assumes "line_words [n, kb, vb]" and "map tolower n = msg ''set''" and "hm_ok (gdb (data s))" and "idle_conn s c k"
    and "dbv (data s) (str_hash kb, kb) = None"
  shows "\<exists>bs s' k' v. serve F clk c (arrives s c bs) = Some s' \<and> conns s' c = Some k' \<and> incoming k' = []
     \<and> dbv (data s') (str_hash kb, kb) = Some (EStr v) \<and> dstr_bytes v = vb
     \<and> (\<forall>cl inp. stdin cl = spaced [n, kb, vb] @ 10 # inp \<longrightarrow> 0 \<notin> set (accepts cl) \<longrightarrow> 4100 \<le> sum_list (accepts cl) \<longrightarrow>
          [] \<notin> set (socket_in cl) \<longrightarrow> concat (socket_in cl) = outgoing k' \<longrightarrow>
          (\<exists>cl'. handle_loop cl = Some (0, cl') \<and> socket_out cl' = socket_out cl @ bs
             \<and> printed cl' = printed cl @ [(RES_OK, [INull])]))"
proof -
  from line_query [OF assms(1)] obtain query bs where q: "those (map (\<lambda>t. dstr_copy always t (length t)) [n, kb, vb]) = Some query"
    "client_handle_write query = Some (Inr bs)" "length bs \<le> 4100" "map dstr_bytes query = [n, kb, vb]" "\<forall>t \<in> set query. wf_dstr t"
    "5 + sum_list (map (\<lambda>t. 5 + dsize t) query) \<le> CLIENT_MAX_MESSAGE_LEN" by (elim exE conjE) (rule that)
  then obtain name key val where qs: "query = [name, key, val]" "dstr_bytes name = n" "dstr_bytes key = kb" "dstr_bytes val = vb"
    "wf_dstr name" "wf_dstr key" "wf_dstr val" by (auto simp: map_eq_Cons_conv)
  have nn: "0 \<notin> set n" using assms(1) by (auto simp: line_words_def)
  have nm: "named name ''set''" using qs(2,5) assms(2) nn by (simp add: named_def text_of_def cstr_no_nul)
  have sz: "dsize key \<le> 4096" "dsize val \<le> 4096" using q(6) qs(1) by (simp_all add: CLIENT_MAX_MESSAGE_LEN_def)
  then have ko: "key_ok key" "dsize val \<le> MAX_STR_SIZE" using qs(6) by (simp_all add: key_ok_def MAX_STR_SIZE_def)
  have kk: "kof key = (str_hash kb, kb)" using qs(3) assms(1) by (auto simp: kof_def line_words_def cstr_no_nul)
  then have kn: "dbv (data s) (kof key) = None" using assms(5) by simp
  let ?k = "k\<lparr>incoming := bs\<rparr>"
  let ?s = "arrives s c bs"
  have cs: "conns ?s c = Some ?k" "data ?s = data s" using assms(4) by (simp_all add: arrives_def idle_conn_def)
  let ?f = "frame RES_OK (enc RNull)"
  let ?k' = "?k\<lparr>incoming := [], outgoing := outgoing ?k @ ?f\<rparr>"
  let ?P = "\<lambda>g. hm_ok (gdb g) \<and> (\<exists>v. wf_dstr v \<and> dstr_bytes v = dstr_bytes val \<and> dbv g (kof key) = Some (EStr v))"
  let ?s' = "\<lambda>g. ?s\<lparr>ticks := ticks ?s + 1, data := g, conns := (conns ?s)(c \<mapsto> ?k')\<rparr>"
  have "\<exists>g. ?P g \<and> serve F clk c ?s = serve F clk c (?s' g)"
  proof (rule serve_request [OF q(2,5,6) cs(1)])
    show "incoming ?k = bs @ []" by simp
    show "length (outgoing ?k) < 2 ^ 32" "10 + length (enc RNull) \<le> MAX_MESSAGE_LEN"
      using assms(4) by (simp_all add: idle_conn_def MAX_MESSAGE_LEN_def)
    show "\<exists>g. ?P g \<and> out_buffer F (clk (ticks ?s)) (data ?s) (open_reply (outgoing ?k) RES_OK []) cmd = Some (g, open_reply (outgoing ?k) RES_OK (enc RNull))"
      if "map dstr_bytes cmd = map dstr_bytes query" "\<forall>t \<in> set cmd. wf_dstr t" for cmd
      by (rule out_buffer_set [OF _ nm ko(1) qs(7) ko(2)]) (use that kn assms(3) cs(2) qs(1) in simp_all)
  qed
  then obtain g v where g: "dstr_bytes v = vb" "dbv g (kof key) = Some (EStr v)" "serve F clk c ?s = serve F clk c (?s' g)" using qs(4) by blast
  have "serve F clk c (?s' g) = Some (?s' g)" by (rule serve_short [where k = ?k']) simp_all
  moreover have out: "outgoing ?k' = ?f" using assms(4) by (simp add: idle_conn_def)
  moreover have "\<exists>cl'. handle_loop cl = Some (0, cl') \<and> socket_out cl' = socket_out cl @ bs \<and> printed cl' = printed cl @ [(RES_OK, [INull])]"
    if "stdin cl = spaced [n, kb, vb] @ 10 # inp" "0 \<notin> set (accepts cl)" "4100 \<le> sum_list (accepts cl)" "[] \<notin> set (socket_in cl)"
      "concat (socket_in cl) = ?f" for cl inp
  proof -
    have "client_handle_read (concat (socket_in cl)) = Some (Inr (RES_OK, [INull], []))"
      using client_reads_frame [of "[RNull]" RES_OK "[]"] that(5) by (simp add: MAX_MESSAGE_LEN_def received_def)
    from handle_loop_sends [OF assms(1) q(1-3) that(1-4) this] show ?thesis by auto
  qed
  ultimately show ?thesis using g kk cs
    by (intro exI [of _ bs] exI [of _ "?s' g"] exI [of _ ?k'] exI [of _ v]) simp
qed

theorem typed_set_is_stored_witness:
  "\<exists>bs s' k' v cl'. serve real_fpu (\<lambda>_. 0) 0 (arrives (one_conn empty_gdata []) 0 bs) = Some s' \<and> conns s' 0 = Some k'
     \<and> dbv (data s') (str_hash [97], [97]) = Some (EStr v) \<and> dstr_bytes v = [98]
     \<and> handle_loop ((typing [83, 101, 84, 32, 97, 32, 98, 10])\<lparr>socket_in := filter (\<lambda>b. b \<noteq> []) [outgoing k']\<rparr>) = Some (0, cl')
     \<and> socket_out cl' = bs \<and> printed cl' = [(RES_OK, [INull])]"
proof -
  let ?s = "one_conn empty_gdata []"
  have w: "line_words [[83, 101, 84], [97], [98]]" by (simp add: line_words_def)
  have n: "map tolower [83, 101, 84] = msg ''set''" by (simp add: msg_def tolower_def)
  have h: "hm_ok (gdb (data ?s))" "dbv (data ?s) (str_hash [97], [97]) = None" by (simp_all add: one_conn_def empty_gdata_ok)
  have i: "idle_conn ?s 0 (the (conns ?s 0))" by (simp add: idle_conn_def one_conn_def)
  obtain bs s' k' v where s': "serve real_fpu (\<lambda>_. 0) 0 (arrives ?s 0 bs) = Some s'" "conns s' 0 = Some k'"
      "dbv (data s') (str_hash [97], [97]) = Some (EStr v)" "dstr_bytes v = [98]"
    and cl: "\<And>cl inp. stdin cl = spaced [[83, 101, 84], [97], [98]] @ 10 # inp \<Longrightarrow> 0 \<notin> set (accepts cl) \<Longrightarrow> 4100 \<le> sum_list (accepts cl) \<Longrightarrow>
          [] \<notin> set (socket_in cl) \<Longrightarrow> concat (socket_in cl) = outgoing k' \<Longrightarrow>
          \<exists>cl'. handle_loop cl = Some (0, cl') \<and> socket_out cl' = socket_out cl @ bs \<and> printed cl' = printed cl @ [(RES_OK, [INull])]"
    using typed_set_is_stored [OF w n h(1) i h(2), where F = real_fpu and clk = "\<lambda>_. 0"] by blast
  let ?cl = "(typing [83, 101, 84, 32, 97, 32, 98, 10])\<lparr>socket_in := filter (\<lambda>b. b \<noteq> []) [outgoing k']\<rparr>"
  have "concat (socket_in ?cl) = outgoing k'" "[] \<notin> set (socket_in ?cl)" by simp_all
  then obtain cl' where "handle_loop ?cl = Some (0, cl')" "socket_out cl' = bs" "printed cl' = [(RES_OK, [INull])]"
    using cl [of ?cl "[]"] by (auto simp: typing_def split del: if_split)
  with s' show ?thesis by blast
qed

end
